(* ===== verification/Prelude.thy ===== *)
theory Prelude
  imports Main "HOL-Library.Word" "HOL-Library.Multiset"
begin

section \<open>Shared vocabulary of the development\<close>

text \<open>
  What every component needs and no C file of the repository declares: C strings and
  signed characters, the two interfaces the components share (a transition system with an
  invariant, a bounded first-in first-out buffer), and generic facts on lists and sums.
\<close>

named_theorems cstr_simps "facts that evaluate C string functions"

subsection \<open>C characters and strings\<close>

abbreviation NUL :: char where "NUL \<equiv> CHR 0x00"
abbreviation LF :: char where "LF \<equiv> CHR 0x0A"

text \<open>A \<open>char\<close> promoted to \<open>int\<close>: signed, as on the x86-64 targets of the Makefiles.\<close>

definition schar :: "char \<Rightarrow> int" where
  "schar c = (let n = (of_char c :: int) in if n < 128 then n else n - 256)"

text \<open>An \<open>int\<close> stored into a \<open>char\<close>: the low eight bits.\<close>

definition char_of_int :: "int \<Rightarrow> char" where
  "char_of_int i = char_of (nat (i mod 256))"

text \<open>The string a C pointer denotes: everything in front of the first NUL.\<close>

definition cstr :: "string \<Rightarrow> string" where
  "cstr xs = takeWhile (\<lambda>c. c \<noteq> NUL) xs"

definition strlen :: "string \<Rightarrow> nat" where
  "strlen xs = length (cstr xs)"

text \<open>\<open>strstr\<close>: the offset of the first occurrence, \<open>None\<close> for the null pointer.\<close>

fun strstr :: "string \<Rightarrow> string \<Rightarrow> nat option" where
  "strstr [] needle = (if needle = [] then Some 0 else None)"
| "strstr (c # hay) needle =
     (if take (length needle) (c # hay) = needle then Some 0
      else map_option Suc (strstr hay needle))"

text \<open>\<open>strrchr\<close>: the suffix that starts at the last occurrence of a character.\<close>

fun strrchr :: "string \<Rightarrow> char \<Rightarrow> string option" where
  "strrchr [] c = None"
| "strrchr (x # xs) c =
     (case strrchr xs c of
        Some s \<Rightarrow> Some s
      | None \<Rightarrow> if x = c then Some (x # xs) else None)"

lemma sint_fits: "- (2 ^ 31) \<le> i \<Longrightarrow> i < 2 ^ 31 \<Longrightarrow> sint (word_of_int i :: 32 word) = i"
  by (simp add: signed_of_int signed_take_bit_int_eq_self)

text \<open>\<open>atoi\<close>: blanks, a sign, digits; whatever follows is ignored and no digits read as 0.\<close>

definition is_digit :: "char \<Rightarrow> bool" where
  "is_digit c \<longleftrightarrow> 48 \<le> (of_char c :: nat) \<and> (of_char c :: nat) \<le> 57"

definition is_blank :: "char \<Rightarrow> bool" where
  "is_blank c \<longleftrightarrow> (of_char c :: nat) = 32 \<or> (9 \<le> (of_char c :: nat) \<and> (of_char c :: nat) \<le> 13)"

definition digits_value :: "string \<Rightarrow> int" where
  "digits_value ds = foldl (\<lambda>v d. 10 * v + (of_char d - 48)) 0 (takeWhile is_digit ds)"

definition atoi :: "string \<Rightarrow> int" where
  "atoi str =
     (case dropWhile is_blank str of
        [] \<Rightarrow> 0
      | c # cs \<Rightarrow>
          if c = CHR ''-'' then - digits_value cs
          else if c = CHR ''+'' then digits_value cs
          else digits_value (c # cs))"

lemma of_char_less_256: "(of_char c :: int) < 256"
proof -
  have "(of_char c :: nat) < 256" by simp
  then have "int (of_char c) < int 256" by (simp only: of_nat_less_iff)
  then show ?thesis by (simp only: of_nat_of_char of_nat_numeral)
qed

lemma of_char_nonneg: "0 \<le> (of_char c :: int)"
proof -
  have "0 \<le> int (of_char c)" by (rule of_nat_0_le_iff)
  then show ?thesis by (simp only: of_nat_of_char)
qed

lemma schar_bounds: "-128 \<le> schar c \<and> schar c < 128"
  using of_char_less_256 [of c] of_char_nonneg [of c] by (simp add: schar_def Let_def)

lemma cstr_no_NUL: "NUL \<notin> set (cstr xs)"
  by (auto simp: cstr_def dest: set_takeWhileD)

lemma cstr_id [cstr_simps]: "NUL \<notin> set xs \<Longrightarrow> cstr xs = xs"
  by (auto simp: cstr_def takeWhile_eq_all_conv)

lemma cstr_cstr [simp]: "cstr (cstr xs) = cstr xs"
  by (simp add: cstr_id cstr_no_NUL)

lemma cstr_append_NUL [cstr_simps]: "NUL \<notin> set xs \<Longrightarrow> cstr (xs @ NUL # ys) = xs"
  by (simp add: cstr_def takeWhile_append)

lemma strstr_Some_take_drop:
  "strstr hay needle = Some i \<Longrightarrow>
     take (length needle) (drop i hay) = needle \<and> i \<le> length hay"
  by (induction hay needle arbitrary: i rule: strstr.induct) (auto split: if_splits)

lemma strstr_None_no_occurrence:
  "strstr hay needle = None \<Longrightarrow> hay \<noteq> pre @ needle @ post"
proof (induction hay needle arbitrary: pre rule: strstr.induct)
  case (1 needle)
  then show ?case by (auto split: if_splits)
next
  case (2 c hay needle)
  from "2.prems" have ne: "take (length needle) (c # hay) \<noteq> needle"
    and none: "strstr hay needle = None" by (auto split: if_splits)
  show ?case
  proof (cases pre)
    case Nil
    with ne show ?thesis by auto
  next
    case (Cons a pre')
    with "2.IH" [OF ne none, of pre'] show ?thesis by auto
  qed
qed

lemma strstr_iff_occurs:
  "strstr hay needle \<noteq> None \<longleftrightarrow> (\<exists>pre post. hay = pre @ needle @ post)"
proof
  assume "strstr hay needle \<noteq> None"
  then obtain i where "strstr hay needle = Some i" by auto
  then have "take (length needle) (drop i hay) = needle"
    by (simp add: strstr_Some_take_drop)
  then have "hay = take i hay @ needle @ drop (length needle) (drop i hay)"
    by (metis append_take_drop_id)
  then show "\<exists>pre post. hay = pre @ needle @ post" by blast
qed (use strstr_None_no_occurrence in blast)

lemma strstr_append_first:
  "c \<notin> set xs \<Longrightarrow> strstr (xs @ c # ys) [c] = Some (length xs)"
  by (induction xs) auto

subsection \<open>Errors\<close>

text \<open>
  \<open>ERR(source)\<close> prints and calls \<open>exit\<close>: the result is then the name it was given, and nothing
  after it runs.
\<close>

type_synonym 'a or_err = "string + 'a"

abbreviation ERR :: "string \<Rightarrow> 'a or_err" where "ERR \<equiv> Inl"

definition bind_err :: "'a or_err \<Rightarrow> ('a \<Rightarrow> 'b or_err) \<Rightarrow> 'b or_err" where
  "bind_err r k = (case r of Inl e \<Rightarrow> Inl e | Inr a \<Rightarrow> k a)"

lemma bind_err_simps [simp]:
  "bind_err (Inl e) k = Inl e" "bind_err (Inr a) k = k a"
  by (simp_all add: bind_err_def)

lemma bind_err_Inr_iff: "bind_err r k = Inr b \<longleftrightarrow> (\<exists>a. r = Inr a \<and> k a = Inr b)"
  by (cases r) simp_all

text \<open>What \<open>%d\<close> prints for a number that is not negative.\<close>

fun decimal :: "nat \<Rightarrow> string" where
  "decimal n = (if n < 10 then [char_of (48 + n)] else decimal (n div 10) @ [char_of (48 + n mod 10)])"

declare decimal.simps [simp del]

definition show_int :: "int \<Rightarrow> string" where
  "show_int i = (if i < 0 then CHR ''-'' # decimal (nat (- i)) else decimal (nat i))"

lemma char_of_int_schar [simp]: "char_of_int (schar c) = c"
proof -
  have "(of_char c - 256) mod 256 = (of_char c :: int)"
    using of_char_less_256 [of c] of_char_nonneg [of c] by simp
  then have "schar c mod 256 = of_char c"
    using of_char_less_256 [of c] of_char_nonneg [of c] by (simp add: schar_def Let_def)
  then show ?thesis by (simp add: char_of_int_def)
qed

lemma char_of_digits [cstr_simps]:
  "char_of (48 :: nat) = CHR ''0''"
  "char_of (49 :: nat) = CHR ''1''"
  "char_of (50 :: nat) = CHR ''2''"
  "char_of (51 :: nat) = CHR ''3''"
  "char_of (52 :: nat) = CHR ''4''"
  "char_of (53 :: nat) = CHR ''5''"
  "char_of (54 :: nat) = CHR ''6''"
  "char_of (55 :: nat) = CHR ''7''"
  "char_of (56 :: nat) = CHR ''8''"
  "char_of (57 :: nat) = CHR ''9''"
  by (simp_all add: char_of_def bit_0)

lemma decimal_digit [cstr_simps]: "n < 10 \<Longrightarrow> decimal n = [char_of (48 + n)]"
  by (simp add: decimal.simps)

subsection \<open>Lists with one element replaced\<close>

lemma length_filter_update:
  "i < length xs \<Longrightarrow> length (filter P (xs[i := x])) + (if P (xs ! i) then 1 else 0) =
     length (filter P xs) + (if P x then 1 else 0)"
proof (induction xs arbitrary: i)
  case (Cons y xs)
  then show ?case
  proof (cases i)
    case (Suc j)
    with Cons.IH [of j] Cons.prems show ?thesis by (simp split: if_splits)
  qed auto
qed simp

lemma list_all_update: "list_all P xs \<Longrightarrow> P x \<Longrightarrow> list_all P (xs[i := x])"
  by (metis list_all_iff set_update_subset_insert subsetD insertE)

lemma list_all_mset: "mset xs = mset ys \<Longrightarrow> list_all P xs = list_all P ys"
  by (metis list_all_iff mset_eq_setD)

subsection \<open>Printed numbers read back\<close>

lemma digit_chars:
  assumes "d < 10"
  shows "is_digit (char_of (48 + d :: nat))" "(of_char (char_of (48 + d :: nat)) :: int) = 48 + int d"
    "\<not> is_blank (char_of (48 + d :: nat))"
    "char_of (48 + d :: nat) \<noteq> CHR ''-''" "char_of (48 + d :: nat) \<noteq> CHR ''+''"
proof -
  have n: "(of_char (char_of (48 + d :: nat)) :: nat) = 48 + d" using assms by simp
  then show "is_digit (char_of (48 + d :: nat))" "\<not> is_blank (char_of (48 + d :: nat))"
    using assms by (simp_all add: is_digit_def is_blank_def)
  have "(of_char (char_of (48 + d :: nat)) :: int) = int (of_char (char_of (48 + d :: nat)))"
    by (simp only: of_nat_of_char)
  with n show "(of_char (char_of (48 + d :: nat)) :: int) = 48 + int d" by simp
  show "char_of (48 + d :: nat) \<noteq> CHR ''-''"
  proof
    assume "char_of (48 + d :: nat) = CHR ''-''"
    then have "(of_char (char_of (48 + d :: nat)) :: nat) = of_char (CHR ''-'')" by simp
    with n show False by simp
  qed
  show "char_of (48 + d :: nat) \<noteq> CHR ''+''"
  proof
    assume "char_of (48 + d :: nat) = CHR ''+''"
    then have "(of_char (char_of (48 + d :: nat)) :: nat) = of_char (CHR ''+'')" by simp
    with n show False by simp
  qed
qed

definition digits_fold :: "int \<Rightarrow> string \<Rightarrow> int" where
  "digits_fold v ds = foldl (\<lambda>v d. 10 * v + (of_char d - 48)) v ds"

lemma decimal_digits:
  "list_all is_digit (decimal n) \<and> digits_fold 0 (decimal n) = int n \<and> decimal n \<noteq> [] \<and>
     hd (decimal n) \<noteq> CHR ''-'' \<and> hd (decimal n) \<noteq> CHR ''+'' \<and> \<not> is_blank (hd (decimal n))"
proof (induction n rule: decimal.induct)
  case (1 n)
  show ?case
  proof (cases "n < 10")
    case True
    with digit_chars [of n] show ?thesis by (simp add: decimal.simps digits_fold_def)
  next
    case False
    have "10 * int (n div 10) + int (n mod 10) = int n" using mult_div_mod_eq [of 10 n] by linarith
    with False 1 digit_chars [of "n mod 10"] show ?thesis
      by (simp add: decimal.simps [of n] digits_fold_def)
  qed
qed

lemma digits_value_decimal:
  "rest = [] \<or> \<not> is_digit (hd rest) \<Longrightarrow> digits_value (decimal n @ rest) = int n"
proof -
  assume rest: "rest = [] \<or> \<not> is_digit (hd rest)"
  have "\<forall>x \<in> set (decimal n). is_digit x" using decimal_digits [of n] by (simp add: list_all_iff)
  then have "takeWhile is_digit (decimal n @ rest) = decimal n"
    using rest by (cases rest) (auto simp: takeWhile_append)
  then show ?thesis using decimal_digits [of n] by (simp add: digits_value_def digits_fold_def)
qed

lemma atoi_show_int:
  assumes "rest = [] \<or> \<not> is_digit (hd rest)"
  shows "atoi (show_int i @ rest) = i"
proof (cases "i < 0")
  case True
  have "dropWhile is_blank (show_int i @ rest) = CHR ''-'' # decimal (nat (- i)) @ rest"
    using True by (simp add: show_int_def is_blank_def)
  then show ?thesis using True digits_value_decimal [OF assms] by (simp add: atoi_def)
next
  case False
  obtain c cs where c: "decimal (nat i) = c # cs" using decimal_digits [of "nat i"] by (cases "decimal (nat i)") auto
  then have "dropWhile is_blank (show_int i @ rest) = c # cs @ rest"
    using False decimal_digits [of "nat i"] by (simp add: show_int_def)
  then show ?thesis
    using False c decimal_digits [of "nat i"] digits_value_decimal [OF assms, of "nat i"] by (simp add: atoi_def)
qed

subsection \<open>Transition systems with an invariant\<close>

text \<open>
  The contract every concurrent component of the repository offers: its invariant holds at
  the start and every step keeps it. What a client then gets is the invariant in every
  reachable state.
\<close>

locale invariant_system =
  fixes start :: "'s \<Rightarrow> bool"
    and step :: "'s \<Rightarrow> 's \<Rightarrow> bool"
    and inv :: "'s \<Rightarrow> bool"
  assumes inv_start: "start s \<Longrightarrow> inv s"
    and inv_step: "inv s \<Longrightarrow> step s t \<Longrightarrow> inv t"
begin

lemma inv_steps: "step\<^sup>*\<^sup>* s t \<Longrightarrow> inv s \<Longrightarrow> inv t"
  by (induction rule: rtranclp_induct) (auto intro: inv_step)

lemma inv_reachable: "start s \<Longrightarrow> step\<^sup>*\<^sup>* s t \<Longrightarrow> inv t"
  by (rule inv_steps [OF _ inv_start])

end

text \<open>
  A system whose steps also decrease a natural number: from any state that satisfies the
  invariant, every execution is finite, with the measure as its bound.
\<close>

locale terminating_system = invariant_system +
  fixes rank :: "'s \<Rightarrow> nat"
  assumes rank_step: "inv s \<Longrightarrow> step s t \<Longrightarrow> rank t < rank s"
begin

lemma reach_final_aux:
  "inv s \<Longrightarrow> \<exists>t. step\<^sup>*\<^sup>* s t \<and> (\<forall>u. \<not> step t u)"
proof (induction "rank s" arbitrary: s rule: less_induct)
  case less
  show ?case
  proof (cases "\<exists>u. step s u")
    case True
    then obtain u where u: "step s u" by blast
    with less.prems have "rank u < rank s" and "inv u" by (auto intro: rank_step inv_step)
    with less.hyps obtain t where "step\<^sup>*\<^sup>* u t" and "\<forall>w. \<not> step t w" by blast
    with u show ?thesis by (blast intro: converse_rtranclp_into_rtranclp)
  next
    case False
    then show ?thesis by blast
  qed
qed

lemma run_length_bound:
  "inv s \<Longrightarrow> (step ^^ n) s t \<Longrightarrow> n + rank t \<le> rank s"
proof (induction n arbitrary: t)
  case 0
  then show ?case by simp
next
  case (Suc n)
  then obtain u where u: "(step ^^ n) s u" and st: "step u t" by auto
  have "inv u" using Suc.prems(1) u by (auto dest: relpowp_imp_rtranclp intro: inv_steps)
  then have "rank t < rank u" using st by (rule rank_step)
  with Suc.IH [OF Suc.prems(1) u] show ?case by simp
qed

end

text \<open>
  A system that may run on for ever but can always be brought to an end: in every state that
  satisfies the invariant and is not final some step decreases a natural number.
\<close>

locale completable_system = invariant_system +
  fixes rank :: "'s \<Rightarrow> nat"
    and final :: "'s \<Rightarrow> bool"
  assumes helpful: "inv s \<Longrightarrow> \<not> final s \<Longrightarrow> \<exists>t. step s t \<and> rank t < rank s"
begin

lemma completes: "inv s \<Longrightarrow> \<exists>t. step\<^sup>*\<^sup>* s t \<and> final t"
proof (induction "rank s" arbitrary: s rule: less_induct)
  case less
  show ?case
  proof (cases "final s")
    case False
    with less.prems obtain u where "step s u" "rank u < rank s" "inv u" using helpful inv_step by blast
    with less.hyps show ?thesis by (blast intro: converse_rtranclp_into_rtranclp)
  qed blast
qed

lemma reachable_completes: "start s \<Longrightarrow> step\<^sup>*\<^sup>* s t \<Longrightarrow> \<exists>u. step\<^sup>*\<^sup>* t u \<and> final u"
  by (rule completes) (rule inv_reachable)

end

text \<open>
  A system that refines another one: under the invariant each of its steps is a step of the other
  system between the abstractions, or does not show there and decreases a natural number that
  visible steps leave alone.
\<close>

locale refining_system = invariant_system +
  fixes astep :: "'a \<Rightarrow> 'a \<Rightarrow> bool"
    and view :: "'s \<Rightarrow> 'a"
    and hidden :: "'s \<Rightarrow> nat"
  assumes refine_step: "inv s \<Longrightarrow> step s t \<Longrightarrow>
      astep (view s) (view t) \<and> hidden t = hidden s \<or> view t = view s \<and> hidden t < hidden s"
begin

lemma refine_steps: "step\<^sup>*\<^sup>* s t \<Longrightarrow> inv s \<Longrightarrow> astep\<^sup>*\<^sup>* (view s) (view t)"
proof (induction rule: rtranclp_induct)
  case (step t u)
  have "inv t" using inv_steps [OF step.hyps(1) step.prems] .
  with step refine_step [of t u] show ?case by (metis rtranclp.rtrancl_into_rtrancl)
qed simp

lemma refine_reachable: "start s \<Longrightarrow> step\<^sup>*\<^sup>* s t \<Longrightarrow> astep\<^sup>*\<^sup>* (view s) (view t)"
  by (rule refine_steps [OF _ inv_start])

end

subsection \<open>Bounded first-in first-out buffers\<close>

text \<open>
  The contract of the two ring buffers of the repository (\<open>circ_buf\<close> of the thread program,
  the shared \<open>context_t\<close> of the producer and consumer): \<open>enq\<close> and \<open>deq\<close> are the critical
  sections, \<open>None\<close> where the caller has to wait.
\<close>

datatype 'a qop = Enq 'a | Deq

fun enqueued :: "'a qop list \<Rightarrow> 'a list" where
  "enqueued [] = []"
| "enqueued (Enq x # ops) = x # enqueued ops"
| "enqueued (Deq # ops) = enqueued ops"

fun run_qops ::
  "('q \<Rightarrow> 'a \<Rightarrow> 'q option) \<Rightarrow> ('q \<Rightarrow> ('a \<times> 'q) option) \<Rightarrow> 'q \<Rightarrow> 'a qop list \<Rightarrow> ('q \<times> 'a list) option" where
  "run_qops enq deq q [] = Some (q, [])"
| "run_qops enq deq q (Enq x # ops) =
     (case enq q x of None \<Rightarrow> None | Some q' \<Rightarrow> run_qops enq deq q' ops)"
| "run_qops enq deq q (Deq # ops) =
     (case deq q of
        None \<Rightarrow> None
      | Some (x, q') \<Rightarrow> map_option (\<lambda>(q'', out). (q'', x # out)) (run_qops enq deq q' ops))"

locale bounded_fifo =
  fixes enq :: "'q \<Rightarrow> 'a \<Rightarrow> 'q option"
    and deq :: "'q \<Rightarrow> ('a \<times> 'q) option"
    and content :: "'q \<Rightarrow> 'a list"
    and wf :: "'q \<Rightarrow> bool"
    and cap :: nat
  assumes wf_cap: "wf q \<Longrightarrow> length (content q) \<le> cap"
    and enq_full: "wf q \<Longrightarrow> length (content q) = cap \<Longrightarrow> enq q x = None"
    and enq_room: "wf q \<Longrightarrow> length (content q) < cap \<Longrightarrow>
          \<exists>q'. enq q x = Some q' \<and> wf q' \<and> content q' = content q @ [x]"
    and deq_empty: "wf q \<Longrightarrow> content q = [] \<Longrightarrow> deq q = None"
    and deq_first: "wf q \<Longrightarrow> content q = x # xs \<Longrightarrow>
          \<exists>q'. deq q = Some (x, q') \<and> wf q' \<and> content q' = xs"
begin

lemma enq_SomeD:
  assumes "wf q" and "enq q x = Some q'"
  shows "wf q' \<and> content q' = content q @ [x] \<and> length (content q) < cap"
proof -
  have "length (content q) \<noteq> cap" using assms enq_full by force
  with wf_cap [OF assms(1)] have "length (content q) < cap" by simp
  with enq_room [OF assms(1), of x] assms(2) show ?thesis by auto
qed

lemma enq_None_iff: "wf q \<Longrightarrow> enq q x = None \<longleftrightarrow> length (content q) = cap"
  using enq_full enq_room wf_cap by (metis le_neq_implies_less option.distinct(1))

lemma deq_SomeD:
  assumes "wf q" and "deq q = Some (x, q')"
  shows "wf q' \<and> content q = x # content q'"
proof (cases "content q")
  case Nil
  with assms deq_empty show ?thesis by simp
next
  case (Cons y ys)
  with deq_first [OF assms(1) Cons] assms(2) show ?thesis by auto
qed

lemma deq_None_iff: "wf q \<Longrightarrow> deq q = None \<longleftrightarrow> content q = []"
  by (metis deq_empty deq_first list.exhaust option.distinct(1))

text \<open>Whatever the mix of operations, what comes out is what went in, in the same order.\<close>

lemma run_fifo:
  "wf q \<Longrightarrow> run_qops enq deq q ops = Some (q', out) \<Longrightarrow>
     wf q' \<and> content q @ enqueued ops = out @ content q'"
proof (induction ops arbitrary: q q' out)
  case Nil
  then show ?case by simp
next
  case (Cons op ops)
  show ?case
  proof (cases op)
    case (Enq x)
    with Cons.prems obtain q1 where q1: "enq q x = Some q1" "run_qops enq deq q1 ops = Some (q', out)"
      by (auto split: option.splits)
    from Cons.IH [OF _ q1(2)] enq_SomeD [OF Cons.prems(1) q1(1)] Enq show ?thesis by auto
  next
    case Deq
    with Cons.prems obtain x q1 out1 where q1: "deq q = Some (x, q1)"
      "run_qops enq deq q1 ops = Some (q', out1)" and out: "out = x # out1"
      by (auto split: option.splits)
    from Cons.IH [OF _ q1(2)] deq_SomeD [OF Cons.prems(1) q1(1)] Deq out show ?thesis by auto
  qed
qed

end

subsection \<open>Arrays read as rings\<close>

text \<open>The \<open>l\<close> cells of an array of size \<open>n\<close> from index \<open>t\<close> on, around the end.\<close>

definition ring :: "'a list \<Rightarrow> nat \<Rightarrow> nat \<Rightarrow> nat \<Rightarrow> 'a list" where
  "ring buf n t l = map (\<lambda>i. buf ! ((t + i) mod n)) [0..<l]"

lemma length_ring [simp]: "length (ring buf n t l) = l"
  by (simp add: ring_def)

lemma ring_0 [simp]: "ring buf n t 0 = []"
  by (simp add: ring_def)

lemma mod_add_inj:
  assumes "(t + i) mod n = (t + j) mod (n :: nat)" and "i < n" and "j < n"
  shows "i = j"
proof -
  have aux: "i' = j'" if "i' \<le> j'" "(t + i') mod n = (t + j') mod n" "j' < n" for i' j'
  proof -
    have "n dvd (t + j') - (t + i')"
      using that by (subst mod_eq_dvd_iff_nat [symmetric]) auto
    then have "n dvd j' - i'" by simp
    with that show ?thesis by (cases "i' = j'") (auto dest: dvd_imp_le)
  qed
  show ?thesis
  proof (cases "i \<le> j")
    case True
    with aux assms show ?thesis by blast
  next
    case False
    with aux [of j i] assms show ?thesis by simp
  qed
qed

lemma ring_push:
  assumes "length buf = n" and "l < n"
  shows "ring (buf[(t + l) mod n := x]) n t (Suc l) = ring buf n t l @ [x]"
proof -
  have "(t + l) mod n < n" using assms by simp
  moreover have "(t + l) mod n \<noteq> (t + i) mod n" if "i < l" for i
    using mod_add_inj [of t i n l] assms that by auto
  ultimately show ?thesis using assms by (auto simp: ring_def)
qed

lemma ring_pop:
  assumes "0 < l" and "t < n"
  shows "ring buf n t l = buf ! t # ring buf n (Suc t mod n) (l - 1)"
proof -
  obtain k where l: "l = Suc k" using assms(1) by (cases l) auto
  have "[0..<l] = 0 # map Suc [0..<k]"
    by (simp add: l upt_conv_Cons map_Suc_upt del: upt_Suc)
  moreover have "(t + Suc i) mod n = (Suc t mod n + i) mod n" for i
    by (simp add: mod_simps)
  ultimately show ?thesis using assms(2) by (simp add: ring_def l comp_def del: upt_Suc)
qed

lemma ring_end_pop:
  "0 < l \<Longrightarrow> (Suc t mod n + (l - 1)) mod n = (t + l) mod n"
  by (cases l) (simp_all add: mod_simps)

lemma Suc_wrap: "i < n \<Longrightarrow> Suc i mod n = (if Suc i = n then 0 else Suc i)"
  by auto

subsection \<open>Lists, sums and multisets\<close>

lemma take_append_take_drop:
  "take m xs @ take n (drop m xs) = take (m + n) xs"
  by (simp add: take_add)

lemma mset_update_add:
  "i < length xs \<Longrightarrow> add_mset (xs ! i) (mset (xs[i := x])) = add_mset x (mset xs)"
  by (simp add: mset_update)

lemma mset_swap_update:
  "i < length xs \<Longrightarrow> j < length xs \<Longrightarrow> mset (xs[i := xs ! j, j := xs ! i]) = mset xs"
  by (cases "i = j") (auto simp: mset_swap)

lemma sum_fun_upd_nat:
  assumes "i < (n :: nat)"
  shows "(\<Sum>k<n. (f(i := v)) k) + f i = (\<Sum>k<n. f k) + (v :: nat)"
proof -
  have fin: "finite {..<n}" and i: "i \<in> {..<n}" using assms by auto
  have "(\<Sum>k\<in>{..<n} - {i}. (f(i := v)) k) = (\<Sum>k\<in>{..<n} - {i}. f k)"
    by (rule sum.cong) auto
  then have "(\<Sum>k<n. (f(i := v)) k) = v + (\<Sum>k\<in>{..<n} - {i}. f k)"
    using sum.remove [OF fin i, of "f(i := v)"] by simp
  moreover have "(\<Sum>k<n. f k) = f i + (\<Sum>k\<in>{..<n} - {i}. f k)"
    by (rule sum.remove [OF fin i])
  ultimately show ?thesis by simp
qed

lemma distinct_submset:
  assumes "mset xs \<subseteq># mset ys" and "distinct ys"
  shows "distinct xs"
proof -
  obtain zs where "mset ys = mset (xs @ zs)"
    using assms(1) by (metis ex_mset mset_append subset_mset.le_iff_add)
  with assms(2) have "distinct (xs @ zs)" by (metis mset_eq_imp_distinct_iff)
  then show ?thesis by simp
qed

lemma sum_list_map_update:
  "i < length xs \<Longrightarrow> sum_list (map f (xs[i := v])) + f (xs ! i) = sum_list (map f xs) + (f v :: 'a :: comm_monoid_add)"
  by (induction xs arbitrary: i) (auto simp: ac_simps split: nat.splits)

lemma sum_list_map_update_add:
  fixes f :: "'b \<Rightarrow> 'a :: cancel_comm_monoid_add"
  assumes "i < length xs" and "f v = f (xs ! i) + x"
  shows "sum_list (map f (xs[i := v])) = sum_list (map f xs) + x"
  using sum_list_map_update [OF assms(1), of f v] assms(2)
  by (metis add.assoc add.commute add_right_cancel)

lemma sum_list_map_update_remove:
  fixes f :: "'b \<Rightarrow> 'a :: cancel_comm_monoid_add"
  assumes "i < length xs" and "f (xs ! i) = f v + x"
  shows "sum_list (map f (xs[i := v])) + x = sum_list (map f xs)"
  using sum_list_map_update [OF assms(1), of f v] assms(2)
  by (metis add.assoc add.commute add_right_cancel)

lemma sum_list_update_nat:
  "i < length xs \<Longrightarrow> sum_list (xs[i := v]) + xs ! i = sum_list xs + (v :: nat)"
  by (induction xs arbitrary: i) (auto split: nat.splits)

end
