(* ===== verification/SopIO.thy ===== *)
theory SopIO
  imports Prelude "HOL-Library.Monad_Syntax"
begin

section \<open>Bulk input and output\<close>

text \<open>
  \<open>TEMP_FAILURE_RETRY\<close>, \<open>bulk_read\<close> and \<open>bulk_write\<close> of \<open>sop2/lab04/sop_net.h\<close> (the other
  programs carry copies of them). The three are written over an arbitrary system call, so
  that they apply to any descriptor; a result \<open>None\<close> means the loop never ends. The locales
  \<open>byte_source\<close> and \<open>byte_sink\<close> state what read(2) and write(2) promise, and the lemmas in them
  say that short transfers and interrupts do not show in the result. The kernel's side is a
  descriptor with a script of short transfers, interrupts and failures, on which both
  locales are interpreted.
\<close>

subsection \<open>System calls that can be interrupted\<close>

text \<open>What a call returns: \<open>-1\<close> with \<open>errno\<close>, or the value of a successful call.\<close>

datatype 'a sysres = SysErr int | SysOk 'a

definition EINTR :: int where "EINTR = 4"
definition EAGAIN :: int where "EAGAIN = 11"
definition EPIPE :: int where "EPIPE = 32"

partial_function (option) temp_failure_retry ::
  "('s \<Rightarrow> 's \<times> 'a sysres) \<Rightarrow> 's \<Rightarrow> ('s \<times> 'a sysres) option" where
  "temp_failure_retry call s =
     (case call s of
        (s', SysErr e) \<Rightarrow>
          if e = EINTR then temp_failure_retry call s' else Some (s', SysErr e)
      | (s', SysOk a) \<Rightarrow> Some (s', SysOk a))"

text \<open>
  \<open>bulk_read\<close>: \<open>got\<close> is what the earlier iterations stored in front of the moving \<open>buf\<close>; its
  length is the C variable \<open>len\<close>. A negative \<open>c\<close> is returned at once, \<open>c = 0\<close> is the end
  of the file, and the loop goes on while \<open>count > 0\<close>.
\<close>

partial_function (option) bulk_read_loop ::
  "('s \<Rightarrow> nat \<Rightarrow> 's \<times> string sysres) \<Rightarrow> 's \<Rightarrow> nat \<Rightarrow> string \<Rightarrow> ('s \<times> string sysres) option" where
  "bulk_read_loop rd s cnt got =
     Option.bind (temp_failure_retry (\<lambda>s. rd s cnt) s)
       (\<lambda>(s', r). case r of
          SysErr e \<Rightarrow> Some (s', SysErr e)
        | SysOk bs \<Rightarrow>
            if bs = [] then Some (s', SysOk got)
            else if cnt - length bs > 0
                 then bulk_read_loop rd s' (cnt - length bs) (got @ bs)
                 else Some (s', SysOk (got @ bs)))"

definition bulk_read ::
  "('s \<Rightarrow> nat \<Rightarrow> 's \<times> string sysres) \<Rightarrow> 's \<Rightarrow> nat \<Rightarrow> ('s \<times> string sysres) option" where
  "bulk_read rd s cnt = bulk_read_loop rd s cnt []"

text \<open>
  \<open>bulk_write\<close>: a successful write(2) returns how many bytes of \<open>buf\<close> it took; the result is
  \<open>len\<close>, the number of bytes taken in all.
\<close>

partial_function (option) bulk_write_loop ::
  "('s \<Rightarrow> string \<Rightarrow> 's \<times> nat sysres) \<Rightarrow> 's \<Rightarrow> string \<Rightarrow> nat \<Rightarrow> ('s \<times> nat sysres) option" where
  "bulk_write_loop wr s buf len =
     Option.bind (temp_failure_retry (\<lambda>s. wr s buf) s)
       (\<lambda>(s', r). case r of
          SysErr e \<Rightarrow> Some (s', SysErr e)
        | SysOk c \<Rightarrow>
            if length buf - c > 0
            then bulk_write_loop wr s' (drop c buf) (len + c)
            else Some (s', SysOk (len + c)))"

definition bulk_write ::
  "('s \<Rightarrow> string \<Rightarrow> 's \<times> nat sysres) \<Rightarrow> 's \<Rightarrow> string \<Rightarrow> ('s \<times> nat sysres) option" where
  "bulk_write wr s buf = bulk_write_loop wr s buf 0"

text \<open>\<open>add_new_client\<close> of \<open>sop_net.h\<close>, given what \<open>accept\<close> returns after its retries.\<close>

fun add_new_client :: "int sysres \<Rightarrow> int sysres or_err" where
  "add_new_client (SysErr e) = (if e = EAGAIN then Inr (SysErr e) else ERR ''accept'')"
| "add_new_client (SysOk nfd) = Inr (SysOk nfd)"

subsection \<open>What a loop leaves alone\<close>

text \<open>Whatever every single call keeps, the loops keep, too; this needs no promise about the call.\<close>

lemma retry_frame:
  "temp_failure_retry call s = Some y \<Longrightarrow> (\<And>s s' r. P s \<Longrightarrow> call s = (s', r) \<Longrightarrow> P s') \<Longrightarrow> P s \<Longrightarrow> P (fst y)"
proof (induction rule: temp_failure_retry.raw_induct [rotated, consumes 1, case_names 1])
  case (1 retry call s y)
  obtain s' r where call: "call s = (s', r)" by (cases "call s")
  then have s': "P s'" using "1.prems" by blast
  show ?case
  proof (cases "r = SysErr EINTR")
    case True
    then have "retry call s' = Some y" using "1.hyps" call by simp
    then show ?thesis using "1.IH" "1.prems"(1) s' by blast
  next
    case False
    then have "y = (s', r)" using "1.hyps" call by (cases r) auto
    then show ?thesis using s' by simp
  qed
qed

lemma bulk_read_loop_frame:
  "bulk_read_loop rd s cnt got = Some y \<Longrightarrow> (\<And>s n s' r. P s \<Longrightarrow> rd s n = (s', r) \<Longrightarrow> P s') \<Longrightarrow> P s \<Longrightarrow> P (fst y)"
proof (induction rule: bulk_read_loop.raw_induct [rotated, consumes 1, case_names 1])
  case (1 loop rd s cnt got y)
  obtain s1 r1 where retry: "temp_failure_retry (\<lambda>s. rd s cnt) s = Some (s1, r1)"
    using "1.hyps" by (cases "temp_failure_retry (\<lambda>s. rd s cnt) s") auto
  have s1: "P s1" using retry_frame [OF retry, of P] "1.prems"(1,2) by simp
  have "fst y = s1 \<or> (\<exists>cnt got. loop rd s1 cnt got = Some y)"
    using "1.hyps" retry by (auto split: sysres.splits if_splits)
  then show ?case using "1.IH" "1.prems"(1) s1 by metis
qed

lemma bulk_write_loop_frame:
  "bulk_write_loop wr s buf len = Some y \<Longrightarrow> (\<And>s bs s' r. P s \<Longrightarrow> wr s bs = (s', r) \<Longrightarrow> P s') \<Longrightarrow> P s \<Longrightarrow> P (fst y)"
proof (induction rule: bulk_write_loop.raw_induct [rotated, consumes 1, case_names 1])
  case (1 loop wr s buf len y)
  obtain s1 r1 where retry: "temp_failure_retry (\<lambda>s. wr s buf) s = Some (s1, r1)"
    using "1.hyps" by (cases "temp_failure_retry (\<lambda>s. wr s buf) s") auto
  have s1: "P s1" using retry_frame [OF retry, of P] "1.prems"(1,2) by simp
  have "fst y = s1 \<or> (\<exists>buf len. loop wr s1 buf len = Some y)"
    using "1.hyps" retry by (auto split: sysres.splits if_splits)
  then show ?case using "1.IH" "1.prems"(1) s1 by metis
qed

text \<open>A call that fails only when it is interrupted makes no loop fail.\<close>

lemma retry_reliable:
  "temp_failure_retry call s = Some y \<Longrightarrow> P s \<Longrightarrow>
     (\<And>s s' r. P s \<Longrightarrow> call s = (s', r) \<Longrightarrow> P s' \<and> (\<forall>e. r = SysErr e \<longrightarrow> e = EINTR)) \<Longrightarrow> \<exists>a. snd y = SysOk a"
proof (induction rule: temp_failure_retry.raw_induct [rotated, consumes 1, case_names 1])
  case (1 retry call s y)
  obtain s' r where call: "call s = (s', r)" by (cases "call s")
  with "1.prems" have s': "P s'" "\<forall>e. r = SysErr e \<longrightarrow> e = EINTR" by blast+
  show ?case
  proof (cases r)
    case (SysErr e)
    then have "retry call s' = Some y" using "1.hyps" call s'(2) by simp
    then show ?thesis using "1.IH" "1.prems"(2) s'(1) by blast
  qed (use "1.hyps" call in auto)
qed

lemma bulk_write_loop_reliable:
  "bulk_write_loop wr s buf len = Some y \<Longrightarrow> P s \<Longrightarrow>
     (\<And>s bs s' r. P s \<Longrightarrow> wr s bs = (s', r) \<Longrightarrow> P s' \<and> (\<forall>e. r = SysErr e \<longrightarrow> e = EINTR)) \<Longrightarrow> \<exists>n. snd y = SysOk n"
proof (induction rule: bulk_write_loop.raw_induct [rotated, consumes 1, case_names 1])
  case (1 loop wr s buf len y)
  obtain s1 r1 where retry: "temp_failure_retry (\<lambda>s. wr s buf) s = Some (s1, r1)"
    using "1.hyps" by (cases "temp_failure_retry (\<lambda>s. wr s buf) s") auto
  have s1: "P s1" using retry_frame [OF retry, of P] "1.prems" by simp
  have "\<exists>n. snd (s1, r1) = SysOk n" by (rule retry_reliable [OF retry, of P]) (use "1.prems" in blast)+
  then have "(\<exists>n. snd y = SysOk n) \<or> (\<exists>buf len. loop wr s1 buf len = Some y)"
    using "1.hyps" retry by (auto split: if_splits)
  then show ?case using "1.IH" "1.prems"(2) s1 by metis
qed

lemmas bulk_write_reliable = bulk_write_loop_reliable [of _ _ _ 0, folded bulk_write_def]
lemmas bulk_read_frame = bulk_read_loop_frame [of _ _ _ "[]", folded bulk_read_def]
lemmas bulk_write_frame = bulk_write_loop_frame [of _ _ _ 0, folded bulk_write_def]

subsection \<open>What read(2) promises\<close>

text \<open>
  \<open>content\<close> is what the descriptor still delivers, \<open>budget\<close> bounds how often calls are
  interrupted, and \<open>reliable\<close> holds when no call fails with anything but an interrupt.
\<close>

locale byte_source =
  fixes rd :: "'s \<Rightarrow> nat \<Rightarrow> 's \<times> string sysres"
    and content :: "'s \<Rightarrow> string"
    and budget :: "'s \<Rightarrow> nat"
    and reliable :: "'s \<Rightarrow> bool"
  assumes rd_ok: "rd s n = (s', SysOk bs) \<Longrightarrow>
        content s = bs @ content s' \<and> length bs \<le> n \<and> (bs = [] \<longrightarrow> n = 0 \<or> content s = [])"
    and rd_err: "rd s n = (s', SysErr e) \<Longrightarrow> content s' = content s"
    and rd_budget: "rd s n = (s', r) \<Longrightarrow> budget s' \<le> budget s"
    and rd_intr: "rd s n = (s', SysErr EINTR) \<Longrightarrow> budget s' < budget s"
    and rd_reliable: "reliable s \<Longrightarrow> rd s n = (s', r) \<Longrightarrow>
        reliable s' \<and> (\<forall>e. r = SysErr e \<longrightarrow> e = EINTR)"
begin

lemma retry_read:
  "\<exists>s' r. temp_failure_retry (\<lambda>s. rd s n) s = Some (s', r) \<and> r \<noteq> SysErr EINTR \<and>
     (\<forall>bs. r = SysOk bs \<longrightarrow>
        content s = bs @ content s' \<and> length bs \<le> n \<and> (bs = [] \<longrightarrow> n = 0 \<or> content s = [])) \<and>
     (\<forall>e. r = SysErr e \<longrightarrow> content s' = content s) \<and>
     (reliable s \<longrightarrow> reliable s' \<and> (\<exists>bs. r = SysOk bs))"
proof (induction "budget s" arbitrary: s rule: less_induct)
  case less
  obtain s1 r1 where call: "rd s n = (s1, r1)" by (cases "rd s n") auto
  show ?case
  proof (cases "r1 = SysErr EINTR")
    case True
    with call have b: "budget s1 < budget s" and c: "content s1 = content s"
      by (auto dest: rd_intr rd_err)
    have rel: "reliable s \<longrightarrow> reliable s1" using call rd_reliable by blast
    have step: "temp_failure_retry (\<lambda>s. rd s n) s = temp_failure_retry (\<lambda>s. rd s n) s1"
      using call True by (subst temp_failure_retry.simps) simp
    from less.hyps [OF b] c rel show ?thesis unfolding step by metis
  next
    case False
    have "temp_failure_retry (\<lambda>s. rd s n) s = Some (s1, r1)"
      using call False by (subst temp_failure_retry.simps) (auto split: sysres.splits)
    with False call show ?thesis
      using rd_ok [of s n s1] rd_err [of s n s1] rd_reliable [of s n s1 r1]
      by (cases r1) auto
  qed
qed

text \<open>
  The loop returns, and what it returns is the next \<open>count\<close> bytes (fewer only at the end of
  the file), however the kernel split them; after an error nothing of the file is lost that
  was not read.
\<close>

lemma bulk_read_loop_spec:
  "\<exists>s' r. bulk_read_loop rd s cnt got = Some (s', r) \<and>
     (\<forall>out. r = SysOk out \<longrightarrow> out = got @ take cnt (content s) \<and> content s' = drop cnt (content s)) \<and>
     (\<forall>e. r = SysErr e \<longrightarrow> e \<noteq> EINTR \<and> (\<exists>k < max 1 cnt. content s' = drop k (content s))) \<and>
     (reliable s \<longrightarrow> reliable s' \<and> (\<exists>out. r = SysOk out))"
proof (induction cnt arbitrary: s got rule: less_induct)
  case (less cnt)
  obtain s1 r1 where retry: "temp_failure_retry (\<lambda>s. rd s cnt) s = Some (s1, r1)"
    and noint: "r1 \<noteq> SysErr EINTR"
    and ok: "\<forall>bs. r1 = SysOk bs \<longrightarrow> content s = bs @ content s1 \<and> length bs \<le> cnt
               \<and> (bs = [] \<longrightarrow> cnt = 0 \<or> content s = [])"
    and err: "\<forall>e. r1 = SysErr e \<longrightarrow> content s1 = content s"
    and rel: "reliable s \<longrightarrow> reliable s1 \<and> (\<exists>bs. r1 = SysOk bs)"
    using retry_read [of cnt s] by blast
  note unfold = bulk_read_loop.simps [of rd s cnt got]
  show ?case
  proof (cases r1)
    case (SysErr e)
    then have "\<exists>k < max 1 cnt. content s1 = drop k (content s)"
      using err by (intro exI [of _ 0]) simp
    with retry SysErr noint rel show ?thesis by (simp add: unfold)
  next
    case (SysOk bs)
    with ok have c: "content s = bs @ content s1" and len: "length bs \<le> cnt"
      and empty: "bs = [] \<longrightarrow> cnt = 0 \<or> content s = []" by auto
    show ?thesis
    proof (cases "bs = [] \<or> cnt - length bs = 0")
      case True
      with len empty c have "take cnt (content s) = bs" and "content s1 = drop cnt (content s)"
        by auto
      with retry SysOk True rel show ?thesis by (auto simp: unfold)
    next
      case False
      then have "cnt - length bs < cnt" using len by (cases bs) auto
      from less.IH [OF this, of s1 "got @ bs"] obtain s' r where
        rest: "bulk_read_loop rd s1 (cnt - length bs) (got @ bs) = Some (s', r)"
        and rok: "\<forall>out. r = SysOk out \<longrightarrow> out = (got @ bs) @ take (cnt - length bs) (content s1)
                   \<and> content s' = drop (cnt - length bs) (content s1)"
        and rerr: "\<forall>e. r = SysErr e \<longrightarrow> e \<noteq> EINTR \<and>
                   (\<exists>k < max 1 (cnt - length bs). content s' = drop k (content s1))"
        and rrel: "reliable s1 \<longrightarrow> reliable s' \<and> (\<exists>out. r = SysOk out)"
        by blast
      have eq: "bulk_read_loop rd s cnt got = Some (s', r)"
        using retry SysOk False rest by (simp add: unfold)
      have "\<exists>k < max 1 cnt. content s' = drop k (content s)" if fail: "r = SysErr e" for e
      proof -
        obtain k where "k < max 1 (cnt - length bs)" "content s' = drop k (content s1)"
          using rerr fail by blast
        then show ?thesis using False len c
          by (intro exI [of _ "length bs + k"]) auto
      qed
      with eq rok rerr rrel rel c len show ?thesis by auto
    qed
  qed
qed

lemma bulk_read_returns: "\<exists>s' r. bulk_read rd s cnt = Some (s', r)"
  using bulk_read_loop_spec [of s cnt "[]"] by (auto simp: bulk_read_def)

lemma bulk_read_ok:
  "bulk_read rd s cnt = Some (s', SysOk out) \<Longrightarrow>
     out = take cnt (content s) \<and> content s' = drop cnt (content s)"
  using bulk_read_loop_spec [of s cnt "[]"] by (auto simp: bulk_read_def)

lemma bulk_read_reliable:
  "reliable s \<Longrightarrow> \<exists>s'. bulk_read rd s cnt = Some (s', SysOk (take cnt (content s))) \<and>
     content s' = drop cnt (content s) \<and> reliable s'"
  using bulk_read_loop_spec [of s cnt "[]"] by (auto simp: bulk_read_def)

lemma bulk_read_err:
  "bulk_read rd s cnt = Some (s', SysErr e) \<Longrightarrow>
     e \<noteq> EINTR \<and> (\<exists>k. content s' = drop k (content s))"
  using bulk_read_loop_spec [of s cnt "[]"] by (auto simp: bulk_read_def)

end

subsection \<open>What write(2) promises\<close>

text \<open>A successful write of a non-empty buffer takes at least one byte.\<close>

locale byte_sink =
  fixes wr :: "'s \<Rightarrow> string \<Rightarrow> 's \<times> nat sysres"
    and written :: "'s \<Rightarrow> string"
    and budget :: "'s \<Rightarrow> nat"
  assumes wr_ok: "wr s bs = (s', SysOk n) \<Longrightarrow>
        written s' = written s @ take n bs \<and> n \<le> length bs \<and> (bs \<noteq> [] \<longrightarrow> 0 < n)"
    and wr_err: "wr s bs = (s', SysErr e) \<Longrightarrow> written s' = written s"
    and wr_intr: "wr s bs = (s', SysErr EINTR) \<Longrightarrow> budget s' < budget s"
begin

lemma retry_write:
  "\<exists>s' r. temp_failure_retry (\<lambda>s. wr s bs) s = Some (s', r) \<and>
     (\<forall>n. r = SysOk n \<longrightarrow> written s' = written s @ take n bs \<and> n \<le> length bs \<and> (bs \<noteq> [] \<longrightarrow> 0 < n)) \<and>
     (\<forall>e. r = SysErr e \<longrightarrow> e \<noteq> EINTR \<and> written s' = written s)"
proof (induction "budget s" arbitrary: s rule: less_induct)
  case less
  obtain s1 r1 where call: "wr s bs = (s1, r1)" by (cases "wr s bs") auto
  show ?case
  proof (cases "r1 = SysErr EINTR")
    case True
    with call have b: "budget s1 < budget s" and c: "written s1 = written s"
      by (auto dest: wr_intr wr_err)
    have step: "temp_failure_retry (\<lambda>s. wr s bs) s = temp_failure_retry (\<lambda>s. wr s bs) s1"
      using call True by (subst temp_failure_retry.simps) simp
    show ?thesis using less.hyps [OF b] c unfolding step by simp
  next
    case False
    have "temp_failure_retry (\<lambda>s. wr s bs) s = Some (s1, r1)"
      using call False by (subst temp_failure_retry.simps) (auto split: sysres.splits)
    with False call show ?thesis
      using wr_ok [of s bs s1] wr_err [of s bs s1] by (cases r1) auto
  qed
qed

lemma bulk_write_loop_spec:
  "\<exists>s' r. bulk_write_loop wr s buf len = Some (s', r) \<and>
     (\<forall>n. r = SysOk n \<longrightarrow> n = len + length buf \<and> written s' = written s @ buf) \<and>
     (\<forall>e. r = SysErr e \<longrightarrow> e \<noteq> EINTR \<and> (\<exists>k \<le> length buf. written s' = written s @ take k buf))"
proof (induction "length buf" arbitrary: s buf len rule: less_induct)
  case less
  obtain s1 r1 where retry: "temp_failure_retry (\<lambda>s. wr s buf) s = Some (s1, r1)"
    and ok: "\<forall>n. r1 = SysOk n \<longrightarrow> written s1 = written s @ take n buf \<and> n \<le> length buf
               \<and> (buf \<noteq> [] \<longrightarrow> 0 < n)"
    and err: "\<forall>e. r1 = SysErr e \<longrightarrow> e \<noteq> EINTR \<and> written s1 = written s"
    using retry_write [of buf s] by blast
  note unfold = bulk_write_loop.simps [of wr s buf len]
  show ?case
  proof (cases r1)
    case (SysErr e)
    with err have "e \<noteq> EINTR \<and> (\<exists>k \<le> length buf. written s1 = written s @ take k buf)"
      by (auto intro: exI [of _ 0])
    with retry SysErr show ?thesis by (simp add: unfold)
  next
    case (SysOk n)
    with ok have w: "written s1 = written s @ take n buf" and n: "n \<le> length buf"
      "buf \<noteq> [] \<longrightarrow> 0 < n" by auto
    show ?thesis
    proof (cases "n = length buf")
      case True
      with retry SysOk w show ?thesis by (auto simp: unfold)
    next
      case False
      with n have "length (drop n buf) < length buf" by auto
      from less.hyps [OF this, of s1 "len + n"] obtain s' r where
        rest: "bulk_write_loop wr s1 (drop n buf) (len + n) = Some (s', r)"
        and rok: "\<forall>m. r = SysOk m \<longrightarrow> m = (len + n) + length (drop n buf)
                   \<and> written s' = written s1 @ drop n buf"
        and rerr: "\<forall>e. r = SysErr e \<longrightarrow> e \<noteq> EINTR \<and>
                   (\<exists>k \<le> length (drop n buf). written s' = written s1 @ take k (drop n buf))"
        by blast
      have eq: "bulk_write_loop wr s buf len = Some (s', r)"
        using retry SysOk False n rest by (simp add: unfold)
      have "\<exists>k \<le> length buf. written s' = written s @ take k buf" if fail: "r = SysErr e" for e
      proof -
        obtain k where "k \<le> length (drop n buf)" "written s' = written s1 @ take k (drop n buf)"
          using rerr fail by blast
        then show ?thesis using w n
          by (intro exI [of _ "n + k"]) (auto simp: take_add)
      qed
      with eq rok rerr w n show ?thesis by auto
    qed
  qed
qed

lemma bulk_write_ok:
  "bulk_write wr s buf = Some (s', SysOk n) \<Longrightarrow> n = length buf \<and> written s' = written s @ buf"
  using bulk_write_loop_spec [of s buf 0] by (auto simp: bulk_write_def)

lemma bulk_write_returns: "\<exists>s' r. bulk_write wr s buf = Some (s', r)"
  using bulk_write_loop_spec [of s buf 0] by (auto simp: bulk_write_def)

lemma bulk_write_err:
  "bulk_write wr s buf = Some (s', SysErr e) \<Longrightarrow>
     e \<noteq> EINTR \<and> (\<exists>k. written s' = written s @ take k buf)"
  using bulk_write_loop_spec [of s buf 0] by (auto simp: bulk_write_def)

end

subsection \<open>A scripted descriptor\<close>

text \<open>
  The kernel's choices, one per call: interrupt it, fail it with another \<open>errno\<close>, or transfer
  at most \<open>Suc k\<close> bytes. When the script is used up, calls transfer all they can.
\<close>

datatype outcome = Interrupt | Failure nat | Short nat

record kfd =
  kbytes :: string
  kscript :: "outcome list"

fun fail_errno :: "nat \<Rightarrow> int" where
  "fail_errno n = (if int n = EINTR then EAGAIN else int n)"

definition kread :: "kfd \<Rightarrow> nat \<Rightarrow> kfd \<times> string sysres" where
  "kread f n =
     (case kscript f of
        [] \<Rightarrow> (f\<lparr>kbytes := drop n (kbytes f)\<rparr>, SysOk (take n (kbytes f)))
      | Interrupt # sc \<Rightarrow> (f\<lparr>kscript := sc\<rparr>, SysErr EINTR)
      | Failure e # sc \<Rightarrow> (f\<lparr>kscript := sc\<rparr>, SysErr (fail_errno e))
      | Short k # sc \<Rightarrow>
          (f\<lparr>kbytes := drop (min n (Suc k)) (kbytes f), kscript := sc\<rparr>,
           SysOk (take (min n (Suc k)) (kbytes f))))"

definition kwrite :: "kfd \<Rightarrow> string \<Rightarrow> kfd \<times> nat sysres" where
  "kwrite f bs =
     (case kscript f of
        [] \<Rightarrow> (f\<lparr>kbytes := kbytes f @ bs\<rparr>, SysOk (length bs))
      | Interrupt # sc \<Rightarrow> (f\<lparr>kscript := sc\<rparr>, SysErr EINTR)
      | Failure e # sc \<Rightarrow> (f\<lparr>kscript := sc\<rparr>, SysErr (fail_errno e))
      | Short k # sc \<Rightarrow>
          (f\<lparr>kbytes := kbytes f @ take (min (length bs) (Suc k)) bs, kscript := sc\<rparr>,
           SysOk (min (length bs) (Suc k))))"

fun no_failure :: "outcome list \<Rightarrow> bool" where
  "no_failure [] = True"
| "no_failure (Failure e # sc) = False"
| "no_failure (_ # sc) = no_failure sc"

lemma fail_errno_not_EINTR: "fail_errno e \<noteq> EINTR"
  by (simp add: EINTR_def EAGAIN_def)

interpretation kernel_source: byte_source kread kbytes "\<lambda>f. length (kscript f)" "\<lambda>f. no_failure (kscript f)"
proof unfold_locales
  fix s n s' bs
  assume "kread s n = (s', SysOk bs)"
  then show "kbytes s = bs @ kbytes s' \<and> length bs \<le> n \<and> (bs = [] \<longrightarrow> n = 0 \<or> kbytes s = [])"
    by (auto simp: kread_def split: list.splits outcome.splits)
next
  fix s n s' e
  assume "kread s n = (s', SysErr e)"
  then show "kbytes s' = kbytes s"
    by (auto simp: kread_def split: list.splits outcome.splits)
next
  fix s n s' r
  assume "kread s n = (s', r)"
  then show "length (kscript s') \<le> length (kscript s)"
    by (auto simp: kread_def split: list.splits outcome.splits)
next
  fix s n s'
  assume "kread s n = (s', SysErr EINTR)"
  then show "length (kscript s') < length (kscript s)"
    by (auto simp: kread_def split: list.splits outcome.splits)
next
  fix s n s' r
  assume "no_failure (kscript s)" and "kread s n = (s', r)"
  then show "no_failure (kscript s') \<and> (\<forall>e. r = SysErr e \<longrightarrow> e = EINTR)"
    by (auto simp: kread_def split: list.splits outcome.splits)
qed

interpretation kernel_sink: byte_sink kwrite kbytes "\<lambda>f. length (kscript f)"
proof unfold_locales
  fix s bs s' n
  assume "kwrite s bs = (s', SysOk n)"
  then show "kbytes s' = kbytes s @ take n bs \<and> n \<le> length bs \<and> (bs \<noteq> [] \<longrightarrow> 0 < n)"
    by (auto simp: kwrite_def split: list.splits outcome.splits)
next
  fix s bs s' e
  assume "kwrite s bs = (s', SysErr e)"
  then show "kbytes s' = kbytes s"
    by (auto simp: kwrite_def split: list.splits outcome.splits)
next
  fix s bs s'
  assume "kwrite s bs = (s', SysErr EINTR)"
  then show "length (kscript s') < length (kscript s)"
    by (auto simp: kwrite_def split: list.splits outcome.splits)
qed

subsection \<open>Properties\<close>

text \<open>
  C2: \<open>bulk_read\<close> always returns, and a successful one returns exactly the next \<open>count\<close> bytes of
  the file, or all that is left of it, and moves the descriptor past them, no matter how
  the kernel splits the transfer and how often it interrupts the call. It fails only with
  an \<open>errno\<close> other than EINTR, and then what it did consume is a prefix of the file.
\<close>

theorem bulk_read_complete:
  "\<exists>f' r. bulk_read kread f cnt = Some (f', r) \<and>
     (case r of
        SysOk out \<Rightarrow> out = take cnt (kbytes f) \<and> kbytes f' = drop cnt (kbytes f)
      | SysErr e \<Rightarrow> e \<noteq> EINTR \<and> (\<exists>k. kbytes f' = drop k (kbytes f)))"
proof -
  obtain f' r where r: "bulk_read kread f cnt = Some (f', r)"
    using kernel_source.bulk_read_returns by blast
  show ?thesis
  proof (cases r)
    case (SysErr e)
    with r kernel_source.bulk_read_err [of f cnt f' e] show ?thesis by auto
  next
    case (SysOk out)
    with r kernel_source.bulk_read_ok [of f cnt f' out] show ?thesis by auto
  qed
qed

text \<open>
  \<open>bulk_write\<close> always returns; a successful one has written the whole buffer, in order
  and once, and returns its length; a failed one has written a prefix of it and its \<open>errno\<close>
  is not EINTR.
\<close>

lemma bulk_write_complete:
  "\<exists>f' r. bulk_write kwrite f buf = Some (f', r) \<and>
     (case r of
        SysOk n \<Rightarrow> n = length buf \<and> kbytes f' = kbytes f @ buf
      | SysErr e \<Rightarrow> e \<noteq> EINTR \<and> (\<exists>k. kbytes f' = kbytes f @ take k buf))"
proof -
  obtain f' r where r: "bulk_write kwrite f buf = Some (f', r)"
    using kernel_sink.bulk_write_returns by blast
  show ?thesis
  proof (cases r)
    case (SysErr e)
    with r kernel_sink.bulk_write_err [of f buf f' e] show ?thesis by auto
  next
    case (SysOk n)
    with r kernel_sink.bulk_write_ok [of f buf f' n] show ?thesis by auto
  qed
qed

end
