(* ===== verification/CircBuf.thy ===== *)
theory CircBuf
  imports Prelude
begin

section \<open>The circular buffer and the directory walk\<close>

text \<open>
  \<open>sop1/lab03/prelab/prelab.c\<close>, first half: \<open>circ_buf\<close> with its operations, and \<open>walk_dir\<close>, which
  fills it before any thread runs. An operation is its critical section, between
  \<open>pthread_mutex_lock\<close> and \<open>pthread_mutex_unlock\<close>; \<open>None\<close> (and \<open>Blocked\<close> for the walk) stands for
  the sleep-and-retry loop in front of it. Indices are never negative in the code (they are
  reset, incremented, and decremented only when positive), so they are natural numbers here.
\<close>

subsection \<open>The buffer\<close>

definition CIRC_BUF_SIZE :: nat where "CIRC_BUF_SIZE = 1024"

text \<open>
  \<open>cb_freed\<close> is the history of the pointers given to \<open>free\<close>; a slot that was never written is
  the null pointer \<open>None\<close>.
\<close>

record circ_buf =
  cb_buf :: "string option list"
  cb_head :: nat
  cb_tail :: nat
  cb_len :: nat
  cb_freed :: "string option list"

definition circ_buf_create :: circ_buf where
  "circ_buf_create =
     \<lparr>cb_buf = replicate CIRC_BUF_SIZE None, cb_head = 0, cb_tail = 0, cb_len = 0, cb_freed = []\<rparr>"

definition circ_buf_destroy :: "circ_buf \<Rightarrow> string option list" where
  "circ_buf_destroy cb = cb_freed cb @ cb_buf cb"

definition circ_buf_push :: "circ_buf \<Rightarrow> string \<Rightarrow> circ_buf option" where
  "circ_buf_push cb path =
     (if cb_len cb = CIRC_BUF_SIZE then None
      else let cb1 = cb\<lparr>cb_freed := cb_freed cb @ [cb_buf cb ! cb_head cb]\<rparr>;
               cb2 = cb1\<lparr>cb_buf := (cb_buf cb1)[cb_head cb1 := Some path]\<rparr>;
               cb3 = cb2\<lparr>cb_len := cb_len cb2 + 1\<rparr>;
               cb4 = cb3\<lparr>cb_head := cb_head cb3 + 1\<rparr>
           in Some (if cb_head cb4 = CIRC_BUF_SIZE then cb4\<lparr>cb_head := 0\<rparr> else cb4))"

definition circ_buf_pop :: "circ_buf \<Rightarrow> (string option \<times> circ_buf) option" where
  "circ_buf_pop cb =
     (if cb_len cb > 0
      then let s = cb_buf cb ! cb_tail cb;
               cb1 = cb\<lparr>cb_len := cb_len cb - 1\<rparr>;
               cb2 = cb1\<lparr>cb_tail := cb_tail cb1 + 1\<rparr>
           in Some (s, if cb_tail cb2 = CIRC_BUF_SIZE then cb2\<lparr>cb_tail := 0\<rparr> else cb2)
      else None)"

text \<open>What the buffer holds, oldest first, and when its fields agree.\<close>

definition cb_slots :: "circ_buf \<Rightarrow> string option list" where
  "cb_slots cb = ring (cb_buf cb) CIRC_BUF_SIZE (cb_tail cb) (cb_len cb)"

definition cb_content :: "circ_buf \<Rightarrow> string list" where
  "cb_content cb = map the (cb_slots cb)"

definition cb_wf :: "circ_buf \<Rightarrow> bool" where
  "cb_wf cb \<longleftrightarrow>
     length (cb_buf cb) = CIRC_BUF_SIZE \<and> cb_tail cb < CIRC_BUF_SIZE \<and> cb_len cb \<le> CIRC_BUF_SIZE \<and>
     cb_head cb = (cb_tail cb + cb_len cb) mod CIRC_BUF_SIZE \<and> None \<notin> set (cb_slots cb)"

lemma CIRC_BUF_SIZE_pos [simp]: "0 < CIRC_BUF_SIZE"
  by (simp add: CIRC_BUF_SIZE_def)

lemma length_cb_content [simp]: "length (cb_content cb) = cb_len cb"
  by (simp add: cb_content_def cb_slots_def)

lemma cb_wf_create: "cb_wf circ_buf_create"
  by (simp add: cb_wf_def circ_buf_create_def cb_slots_def)

lemma cb_len_create [simp]: "cb_len circ_buf_create = 0"
  by (simp add: circ_buf_create_def)

lemma cb_content_create [simp]: "cb_content circ_buf_create = []"
  by (simp add: cb_content_def cb_slots_def circ_buf_create_def)

lemma circ_buf_push_full: "cb_len cb = CIRC_BUF_SIZE \<Longrightarrow> circ_buf_push cb path = None"
  by (simp add: circ_buf_push_def)

lemma circ_buf_push_fields:
  assumes "cb_wf cb" and "cb_len cb < CIRC_BUF_SIZE"
  shows "circ_buf_push cb path = Some
     (cb\<lparr>cb_buf := (cb_buf cb)[cb_head cb := Some path],
         cb_head := Suc (cb_head cb) mod CIRC_BUF_SIZE,
         cb_len := Suc (cb_len cb),
         cb_freed := cb_freed cb @ [cb_buf cb ! cb_head cb]\<rparr>)"
  using assms by (auto simp: circ_buf_push_def cb_wf_def Suc_wrap Let_def)

lemma circ_buf_pop_fields:
  assumes "cb_wf cb" and "0 < cb_len cb"
  shows "circ_buf_pop cb = Some (cb_buf cb ! cb_tail cb,
     cb\<lparr>cb_tail := Suc (cb_tail cb) mod CIRC_BUF_SIZE, cb_len := cb_len cb - 1\<rparr>)"
  using assms by (auto simp: circ_buf_pop_def cb_wf_def Suc_wrap Let_def)

lemma circ_buf_push_room:
  assumes "cb_wf cb" and "cb_len cb < CIRC_BUF_SIZE"
  shows "\<exists>cb'. circ_buf_push cb path = Some cb' \<and> cb_wf cb' \<and>
           cb_content cb' = cb_content cb @ [path]"
proof -
  let ?cb' = "cb\<lparr>cb_buf := (cb_buf cb)[cb_head cb := Some path],
         cb_head := Suc (cb_head cb) mod CIRC_BUF_SIZE,
         cb_len := Suc (cb_len cb),
         cb_freed := cb_freed cb @ [cb_buf cb ! cb_head cb]\<rparr>"
  have slots: "cb_slots ?cb' = cb_slots cb @ [Some path]"
    using assms by (simp add: cb_slots_def cb_wf_def ring_push)
  moreover have "cb_wf ?cb'"
    using assms slots by (simp add: cb_wf_def mod_simps)
  ultimately show ?thesis
    using circ_buf_push_fields [OF assms] by (simp add: cb_content_def)
qed

lemma circ_buf_pop_first:
  assumes "cb_wf cb" and "cb_content cb = x # xs"
  shows "\<exists>cb'. circ_buf_pop cb = Some (Some x, cb') \<and> cb_wf cb' \<and> cb_content cb' = xs"
proof -
  let ?cb' = "cb\<lparr>cb_tail := Suc (cb_tail cb) mod CIRC_BUF_SIZE, cb_len := cb_len cb - 1\<rparr>"
  have len: "0 < cb_len cb" using assms(2) by (metis length_cb_content length_greater_0_conv list.distinct(1))
  have slots: "cb_slots cb = cb_buf cb ! cb_tail cb # cb_slots ?cb'"
    using assms(1) len by (simp add: cb_slots_def cb_wf_def ring_pop)
  with assms have "cb_buf cb ! cb_tail cb = Some x" and "cb_content ?cb' = xs"
    by (auto simp: cb_content_def cb_wf_def)
  moreover have "cb_wf ?cb'"
    using assms(1) slots len ring_end_pop [OF len] by (auto simp: cb_wf_def)
  ultimately show ?thesis
    using circ_buf_pop_fields [OF assms(1) len] by simp
qed

lemma circ_buf_pop_empty: "cb_content cb = [] \<Longrightarrow> circ_buf_pop cb = None"
  by (metis circ_buf_pop_def length_cb_content length_0_conv less_irrefl)

text \<open>A popped pointer of a well-formed buffer is never null: \<open>circ_buf_pop\<close> as a dequeue.\<close>

definition cb_deq :: "circ_buf \<Rightarrow> (string \<times> circ_buf) option" where
  "cb_deq cb = map_option (\<lambda>(s, cb'). (the s, cb')) (circ_buf_pop cb)"

interpretation cbq: bounded_fifo circ_buf_push cb_deq cb_content cb_wf CIRC_BUF_SIZE
proof unfold_locales
  fix q :: circ_buf and x
  assume "cb_wf q" and "length (cb_content q) < CIRC_BUF_SIZE"
  then show "\<exists>q'. circ_buf_push q x = Some q' \<and> cb_wf q' \<and> cb_content q' = cb_content q @ [x]"
    using circ_buf_push_room by simp
next
  fix q :: circ_buf and x xs
  assume "cb_wf q" and "cb_content q = x # xs"
  then show "\<exists>q'. cb_deq q = Some (x, q') \<and> cb_wf q' \<and> cb_content q' = xs"
    using circ_buf_pop_first [of q x xs] by (auto simp: cb_deq_def)
qed (auto simp: cb_wf_def circ_buf_push_full cb_deq_def circ_buf_pop_empty)

lemma circ_buf_push_freed:
  "circ_buf_push cb x = Some cb' \<Longrightarrow>
     cb_freed cb' = cb_freed cb @ [cb_buf cb ! cb_head cb] \<and>
     cb_buf cb' = (cb_buf cb)[cb_head cb := Some x]"
  by (auto simp: circ_buf_push_def Let_def split: if_splits)

lemma cb_deq_freed:
  "cb_deq cb = Some (x, cb') \<Longrightarrow> cb_freed cb' = cb_freed cb \<and> cb_buf cb' = cb_buf cb"
  by (auto simp: cb_deq_def circ_buf_pop_def Let_def split: if_splits)

text \<open>The pointers in the history and in the array, as a multiset: a push adds its copy to it.\<close>

lemma destroy_push:
  assumes "cb_wf cb" and "circ_buf_push cb x = Some cb'"
  shows "mset (circ_buf_destroy cb') = add_mset (Some x) (mset (circ_buf_destroy cb))"
proof -
  have "cb_head cb < length (cb_buf cb)"
    using assms(1) by (simp add: cb_wf_def)
  with circ_buf_push_freed [OF assms(2)] show ?thesis
    by (simp add: circ_buf_destroy_def mset_update_add)
qed

lemma destroy_run:
  "cb_wf cb \<Longrightarrow> run_qops circ_buf_push cb_deq cb ops = Some (cb', out) \<Longrightarrow>
     mset (circ_buf_destroy cb') = mset (circ_buf_destroy cb) + mset (map Some (enqueued ops))"
proof (induction ops arbitrary: cb cb' out)
  case Nil
  then show ?case by simp
next
  case (Cons op ops)
  show ?case
  proof (cases op)
    case (Enq x)
    with Cons.prems obtain cb1 where cb1: "circ_buf_push cb x = Some cb1"
      and rest: "run_qops circ_buf_push cb_deq cb1 ops = Some (cb', out)"
      by (auto split: option.splits)
    from Cons.IH [OF _ rest] cbq.enq_SomeD [OF Cons.prems(1) cb1] destroy_push [OF Cons.prems(1) cb1]
    show ?thesis using Enq by simp
  next
    case Deq
    with Cons.prems obtain x cb1 out1 where cb1: "cb_deq cb = Some (x, cb1)"
      and rest: "run_qops circ_buf_push cb_deq cb1 ops = Some (cb', out1)"
      by (auto split: option.splits)
    from Cons.IH [OF _ rest] cbq.deq_SomeD [OF Cons.prems(1) cb1] cb_deq_freed [OF cb1]
    show ?thesis using Deq by (simp add: circ_buf_destroy_def)
  qed
qed

subsection \<open>Arguments and file names\<close>

definition DEFAULT_N_THREADS :: int where "DEFAULT_N_THREADS = 3"

text \<open>\<open>read_args\<close>: the thread count, or \<open>None\<close> where the program prints its complaint and exits.\<close>

definition read_args :: "string list \<Rightarrow> int option" where
  "read_args argv =
     (if length argv \<ge> 2
      then let n_threads = atoi (argv ! 1) in if n_threads \<le> 0 then None else Some n_threads
      else Some DEFAULT_N_THREADS)"

definition has_ext :: "string \<Rightarrow> string \<Rightarrow> bool" where
  "has_ext path ext = (case strrchr path (CHR ''.'') of None \<Rightarrow> False | Some ext_pos \<Rightarrow> ext_pos = ext)"

lemma strrchr_None: "strrchr xs c = None \<longleftrightarrow> c \<notin> set xs"
  by (induction xs) (auto split: option.splits)

lemma strrchr_Some:
  "strrchr xs c = Some s \<Longrightarrow> \<exists>pre rest. xs = pre @ s \<and> s = c # rest \<and> c \<notin> set rest"
proof (induction xs arbitrary: s)
  case Nil
  then show ?case by simp
next
  case (Cons x xs)
  show ?case
  proof (cases "strrchr xs c")
    case None
    with Cons.prems show ?thesis by (auto simp: strrchr_None split: if_splits)
  next
    case (Some s')
    with Cons.prems have "s = s'" by simp
    with Cons.IH Some obtain pre rest where "xs = pre @ s" and s: "s = c # rest" "c \<notin> set rest" by blast
    then have "x # xs = (x # pre) @ s" by simp
    with s show ?thesis by blast
  qed
qed

lemma strrchr_append: "c \<notin> set rest \<Longrightarrow> strrchr (pre @ c # rest) c = Some (c # rest)"
  by (induction pre) (auto simp: strrchr_None [THEN iffD2])

lemma has_ext_iff:
  assumes "CHR ''.'' \<notin> set e"
  shows "has_ext path (CHR ''.'' # e) \<longleftrightarrow> (\<exists>stem. path = stem @ CHR ''.'' # e)"
proof
  assume "has_ext path (CHR ''.'' # e)"
  then have "strrchr path (CHR ''.'') = Some (CHR ''.'' # e)"
    by (auto simp: has_ext_def split: option.splits)
  then show "\<exists>stem. path = stem @ CHR ''.'' # e" using strrchr_Some by metis
qed (auto simp: has_ext_def strrchr_append assms)

subsection \<open>The directory walk\<close>

text \<open>
  What \<open>opendir\<close>, \<open>readdir\<close> and \<open>stat\<close> show of the tree: a directory lists its entries in the
  order of \<open>readdir\<close>, an entry can fail in \<open>stat\<close> (a dangling link) and a directory can fail in
  \<open>opendir\<close>; both end the program through \<open>ERR\<close>.
\<close>

datatype fnode = Reg | Other | Dir "(string \<times> fnode) list" | NoOpen | NoStat

datatype walk_result = Walked circ_buf | Blocked circ_buf | Fatal string

function (sequential) walk_dir :: "string \<Rightarrow> (string \<times> fnode) list \<Rightarrow> circ_buf \<Rightarrow> walk_result" where
  "walk_dir path [] cb = Walked cb"
| "walk_dir path ((entry_name, node) # entries) cb =
     (if entry_name = ''.'' \<or> entry_name = ''..'' then walk_dir path entries cb
      else let new_path = path @ ''/'' @ entry_name in
        case (case node of
                NoStat \<Rightarrow> Fatal ''stat''
              | NoOpen \<Rightarrow> Fatal ''opendir''
              | Dir sub \<Rightarrow> walk_dir new_path sub cb
              | Reg \<Rightarrow>
                  if has_ext entry_name ''.txt''
                  then case circ_buf_push cb new_path of None \<Rightarrow> Blocked cb | Some cb' \<Rightarrow> Walked cb'
                  else Walked cb
              | Other \<Rightarrow> Walked cb) of
          Walked cb' \<Rightarrow> walk_dir path entries cb'
        | r \<Rightarrow> r)"
  by pat_completeness auto
termination
  by (relation "measure (\<lambda>(path, es, cb). size_list (size_prod (\<lambda>_. 0) size) es)") auto

text \<open>The specification: the paths of the regular \<open>.txt\<close> files, in the order of the walk.\<close>

function (sequential) txt_paths :: "string \<Rightarrow> (string \<times> fnode) list \<Rightarrow> string list" where
  "txt_paths path [] = []"
| "txt_paths path ((name, node) # entries) =
     (if name = ''.'' \<or> name = ''..'' then []
      else (case node of
              Reg \<Rightarrow> if \<exists>stem. name = stem @ ''.txt'' then [path @ ''/'' @ name] else []
            | Dir sub \<Rightarrow> txt_paths (path @ ''/'' @ name) sub
            | _ \<Rightarrow> [])) @ txt_paths path entries"
  by pat_completeness auto
termination
  by (relation "measure (\<lambda>(path, es). size_list (size_prod (\<lambda>_. 0) size) es)") auto

function (sequential) readable :: "(string \<times> fnode) list \<Rightarrow> bool" where
  "readable [] = True"
| "readable ((name, node) # entries) =
     ((name = ''.'' \<or> name = ''..'' \<or>
       (case node of NoOpen \<Rightarrow> False | NoStat \<Rightarrow> False | Dir sub \<Rightarrow> readable sub | _ \<Rightarrow> True)) \<and>
      readable entries)"
  by pat_completeness auto
termination
  by (relation "measure (\<lambda>es. size_list (size_prod (\<lambda>_. 0) size) es)") auto

lemma has_ext_txt: "has_ext name ''.txt'' \<longleftrightarrow> (\<exists>stem. name = stem @ ''.txt'')"
  using has_ext_iff [of "''txt''" name] by simp

text \<open>One push of the walk, and the walk over a whole list of entries.\<close>

definition walk_ok :: "circ_buf \<Rightarrow> string list \<Rightarrow> walk_result \<Rightarrow> bool" where
  "walk_ok cb paths r \<longleftrightarrow>
     (if cb_len cb + length paths \<le> CIRC_BUF_SIZE
      then \<exists>cb'. r = Walked cb' \<and> cb_wf cb' \<and> cb_content cb' = cb_content cb @ paths
      else \<exists>cb'. r = Blocked cb')"

lemma walk_ok_seq:
  assumes "cb_wf cb" and "walk_ok cb ps r"
    and "\<And>cb'. r = Walked cb' \<Longrightarrow> cb_wf cb' \<Longrightarrow> walk_ok cb' qs (k cb')"
  shows "walk_ok cb (ps @ qs) (case r of Walked cb' \<Rightarrow> k cb' | r' \<Rightarrow> r')"
proof (cases "cb_len cb + length ps \<le> CIRC_BUF_SIZE")
  case True
  with assms(2) obtain cb' where r: "r = Walked cb'" and wf: "cb_wf cb'"
    and c: "cb_content cb' = cb_content cb @ ps" by (auto simp: walk_ok_def)
  have "cb_len cb' = cb_len cb + length ps"
    by (metis c length_append length_cb_content)
  with assms(3) [OF r wf] c r show ?thesis
    by (auto simp: walk_ok_def add.assoc split: if_splits)
next
  case False
  with assms(2) show ?thesis by (auto simp: walk_ok_def)
qed

lemma walk_ok_push:
  assumes "cb_wf cb"
  shows "walk_ok cb [p] (case circ_buf_push cb p of None \<Rightarrow> Blocked cb | Some cb' \<Rightarrow> Walked cb')"
proof (cases "cb_len cb < CIRC_BUF_SIZE")
  case True
  with circ_buf_push_room [OF assms, of p] show ?thesis by (auto simp: walk_ok_def)
next
  case False
  with assms have "cb_len cb = CIRC_BUF_SIZE" by (simp add: cb_wf_def)
  then show ?thesis by (simp add: walk_ok_def circ_buf_push_full)
qed

lemma walk_ok_none: "cb_wf cb \<Longrightarrow> walk_ok cb [] (Walked cb)"
  by (simp add: walk_ok_def cb_wf_def)

lemma walk_dir_ok:
  "cb_wf cb \<Longrightarrow> readable es \<Longrightarrow> walk_ok cb (txt_paths path es) (walk_dir path es cb)"
proof (induction path es cb rule: walk_dir.induct)
  case (1 path cb)
  then show ?case by (simp add: walk_ok_none)
next
  case (2 path name node es cb)
  show ?case
  proof (cases "name = ''.'' \<or> name = ''..''")
    case True
    with 2 show ?thesis by auto
  next
    case False
    let ?p = "path @ ''/'' @ name"
    let ?r = "case node of NoStat \<Rightarrow> Fatal ''stat'' | NoOpen \<Rightarrow> Fatal ''opendir''
       | Dir sub \<Rightarrow> walk_dir ?p sub cb
       | Reg \<Rightarrow> if has_ext name ''.txt''
           then case circ_buf_push cb ?p of None \<Rightarrow> Blocked cb | Some cb' \<Rightarrow> Walked cb'
           else Walked cb
       | Other \<Rightarrow> Walked cb"
    let ?ps = "case node of Reg \<Rightarrow> if \<exists>stem. name = stem @ ''.txt'' then [?p] else []
       | Dir sub \<Rightarrow> txt_paths ?p sub | _ \<Rightarrow> []"
    have node: "walk_ok cb ?ps ?r"
      using "2.prems" "2.IH"(2) [OF False refl] False
      by (auto simp: has_ext_txt walk_ok_none walk_ok_push split: fnode.split)
    have rest: "walk_ok cb' (txt_paths path es) (walk_dir path es cb')"
      if "?r = Walked cb'" and "cb_wf cb'" for cb'
      using "2.IH"(3) [OF False refl that(1)] that(2) "2.prems"(2) by simp
    have "walk_dir path ((name, node) # es) cb =
        (case ?r of Walked cb' \<Rightarrow> walk_dir path es cb' | r \<Rightarrow> r)"
      using False by (simp only: walk_dir.simps Let_def if_False)
    moreover have "txt_paths path ((name, node) # es) = ?ps @ txt_paths path es"
      using False by (simp only: txt_paths.simps if_False)
    ultimately show ?thesis
      using walk_ok_seq [OF "2.prems"(1) node rest] by (simp only:)
  qed
qed

subsection \<open>Properties\<close>

text \<open>
  C1: the circular buffer is a first-in first-out queue. Whatever sequence of pushes and pops
  is run from a fresh buffer, through any number of trips of the indices around the array,
  the strings popped followed by the strings still inside are the strings pushed, in order.
\<close>

theorem circ_buf_fifo:
  assumes "run_qops circ_buf_push cb_deq circ_buf_create ops = Some (cb, popped)"
  shows "enqueued ops = popped @ cb_content cb \<and> cb_wf cb"
  using cbq.run_fifo [OF cb_wf_create assms] by simp

lemma push_pop_run:
  "\<exists>cb. run_qops circ_buf_push cb_deq circ_buf_create [Enq x, Deq] = Some (cb, [x])"
proof -
  have "cb_wf circ_buf_create" and "cb_len circ_buf_create < CIRC_BUF_SIZE"
    by (simp_all add: cb_wf_create)
  then obtain cb where cb: "circ_buf_push circ_buf_create x = Some cb" "cb_wf cb" "cb_content cb = [x]"
    using circ_buf_push_room [of circ_buf_create x] by auto
  from circ_buf_pop_first [OF cb(2,3)] cb(1) show ?thesis by (auto simp: cb_deq_def)
qed

theorem circ_buf_fifo_witness:
  "\<exists>cb. run_qops circ_buf_push cb_deq circ_buf_create [Enq ''a'', Deq] = Some (cb, [''a'']) \<and>
     enqueued [Enq ''a'', Deq] = [''a''] @ cb_content cb \<and> cb_wf cb"
proof -
  obtain cb where "run_qops circ_buf_push cb_deq circ_buf_create [Enq ''a'', Deq] = Some (cb, [''a''])"
    using push_pop_run by blast
  with circ_buf_fifo [OF this] show ?thesis by blast
qed

text \<open>
  Every copy \<open>circ_buf_push\<close> allocates is freed exactly once. After any run of pushes and
  pops, \<open>circ_buf_destroy\<close> completes the history of \<open>free\<close> calls to the multiset of the strings
  pushed; every other \<open>free\<close> is of a null pointer. (A pop does not take ownership: the slot
  keeps its pointer until a later push or the destruction frees it.)
\<close>

lemma circ_buf_frees_once:
  assumes "run_qops circ_buf_push cb_deq circ_buf_create ops = Some (cb, popped)"
  shows "filter_mset (\<lambda>p. p \<noteq> None) (mset (circ_buf_destroy cb)) = mset (map Some (enqueued ops))"
proof -
  have "mset (circ_buf_destroy cb) = replicate_mset CIRC_BUF_SIZE None + mset (map Some (enqueued ops))"
    using destroy_run [OF cb_wf_create assms] by (simp add: circ_buf_destroy_def circ_buf_create_def)
  moreover have "filter_mset (\<lambda>p. p \<noteq> None) (mset (map Some xs)) = mset (map Some xs)" for xs :: "string list"
    by (induction xs) auto
  moreover have "filter_mset (\<lambda>p. p \<noteq> None) (replicate_mset n (None :: string option)) = {#}" for n
    by (induction n) auto
  ultimately show ?thesis by (simp only: filter_union_mset add_0_left)
qed

lemma circ_buf_frees_once_example:
  "\<exists>cb. run_qops circ_buf_push cb_deq circ_buf_create [Enq ''a'', Deq] = Some (cb, [''a'']) \<and>
     filter_mset (\<lambda>p. p \<noteq> None) (mset (circ_buf_destroy cb)) = {#Some ''a''#}"
proof -
  obtain cb where "run_qops circ_buf_push cb_deq circ_buf_create [Enq ''a'', Deq] = Some (cb, [''a''])"
    using push_pop_run by blast
  with circ_buf_frees_once [OF this] show ?thesis by auto
qed

text \<open>
  C35: \<open>walk_dir\<close> finds exactly the regular files whose name ends in \<open>.txt\<close>, at any depth, and
  queues their paths in the order of the walk; but only up to \<open>CIRC_BUF_SIZE\<close> of them. The walk
  runs before any consumer thread exists, so with one file more the push waits for ever.
\<close>

theorem walk_dir_collects:
  assumes "readable es"
  shows "if length (txt_paths path es) \<le> CIRC_BUF_SIZE
     then \<exists>cb. walk_dir path es circ_buf_create = Walked cb \<and> cb_wf cb \<and> cb_content cb = txt_paths path es
     else \<exists>cb. walk_dir path es circ_buf_create = Blocked cb"
  using walk_dir_ok [OF cb_wf_create assms, of path] by (auto simp: walk_ok_def split: if_splits)

definition data1 :: "(string \<times> fnode) list" where
  "data1 = [(''.'', Other), (''a'', Dir [(''y'', Dir [(''fay.txt'', Reg)]), (''z'', Dir [(''faz.txt'', Reg)])]),
            (''..'', Other), (''c'', Dir [(''fc.txt'', Reg), (''fc.log'', Reg)])]"

lemma txt_paths_data1:
  "txt_paths ''data1'' data1 = [''data1/a/y/fay.txt'', ''data1/a/z/faz.txt'', ''data1/c/fc.txt'']"
  by (simp add: data1_def has_ext_def flip: has_ext_txt)

theorem walk_dir_collects_witness:
  "readable data1 \<and> (\<exists>cb. walk_dir ''data1'' data1 circ_buf_create = Walked cb \<and> cb_wf cb \<and>
     cb_content cb = [''data1/a/y/fay.txt'', ''data1/a/z/faz.txt'', ''data1/c/fc.txt''])"
proof -
  have r: "readable data1" by (simp add: data1_def)
  have "length (txt_paths ''data1'' data1) \<le> CIRC_BUF_SIZE"
    by (simp add: txt_paths_data1 CIRC_BUF_SIZE_def)
  with walk_dir_collects [OF r, of "''data1''"] r show ?thesis by (simp add: txt_paths_data1)
qed

end
