(* ===== verification/ThreadPool.thy ===== *)
theory ThreadPool
  imports CircBuf
begin

section \<open>The letter-counting threads\<close>

text \<open>
  \<open>sop1/lab03/prelab/prelab.c\<close>, second half: the worker threads that pop paths and count
  characters, the signal-handling thread, and the loop and join of \<open>main\<close>. A step is what one
  thread does between two points where another can run: a critical section, an unlocked read
  of \<open>cb->len\<close>, or thread-local work. The theorems give the counts in every interleaving and the
  state in which the program hangs.
\<close>

subsection \<open>State\<close>

definition ALPHABET_SIZE :: nat where "ALPHABET_SIZE = 128"

text \<open>
  Where a worker is: in front of \<open>while (cb->len > 0)\<close>; in \<open>circ_buf_pop\<close>; in front of \<open>open\<close>;
  in front of \<open>bulk_read\<close> of one byte with the rest of its file; in front of the test of \<open>*quit\<close>;
  in front of the increment of \<open>freq\<close>; or ended.
\<close>

datatype worker =
    WCheck | WPop | WOpen string | WRead string | WQuit char string | WCount char string | WEnd

datatype sig_thread = SigWaiting | SigDone
datatype main_thread = MLoop | MJoin | MExit

record pool =
  p_cb :: circ_buf
  p_freq :: "nat list"
  p_oob :: bool \<comment> \<open>\<open>freq\<close> was indexed outside its bounds\<close>
  p_fatal :: bool \<comment> \<open>\<open>ERR\<close> has killed the process\<close>
  p_quit :: bool
  p_workers :: "worker list"
  p_sig :: sig_thread
  p_main :: main_thread
  p_reports :: "(nat \<times> nat) list list" \<comment> \<open>what the SIGUSR1 branch printed\<close>

definition pool_start :: "nat \<Rightarrow> circ_buf \<Rightarrow> pool" where
  "pool_start n_threads cb =
     \<lparr>p_cb = cb, p_freq = replicate ALPHABET_SIZE 0, p_oob = False, p_fatal = False, p_quit = False,
      p_workers = replicate n_threads WCheck, p_sig = SigWaiting, p_main = MLoop, p_reports = []\<rparr>"

definition set_worker :: "nat \<Rightarrow> worker \<Rightarrow> pool \<Rightarrow> pool" where
  "set_worker i w s = s\<lparr>p_workers := (p_workers s)[i := w]\<rparr>"

subsection \<open>Steps\<close>

text \<open>\<open>freq[(int)*c]++\<close>, where \<open>*c\<close> is a signed character.\<close>

definition count_char :: "char \<Rightarrow> pool \<Rightarrow> pool" where
  "count_char c s =
     (let i = schar c in
      if 0 \<le> i \<and> nat i < length (p_freq s)
      then s\<lparr>p_freq := (p_freq s)[nat i := p_freq s ! nat i + 1]\<rparr>
      else s\<lparr>p_oob := True\<rparr>)"

definition thread_work :: "(string \<Rightarrow> string option) \<Rightarrow> nat \<Rightarrow> pool \<Rightarrow> pool option" where
  "thread_work fs i s =
     (case p_workers s ! i of
        WCheck \<Rightarrow> Some (set_worker i (if cb_len (p_cb s) > 0 then WPop else WEnd) s)
      | WPop \<Rightarrow>
          (case circ_buf_pop (p_cb s) of
             None \<Rightarrow> Some s
           | Some (None, cb') \<Rightarrow> Some (s\<lparr>p_cb := cb', p_fatal := True\<rparr>)
           | Some (Some path, cb') \<Rightarrow> Some (set_worker i (WOpen path) (s\<lparr>p_cb := cb'\<rparr>)))
      | WOpen path \<Rightarrow>
          (case fs path of
             None \<Rightarrow> Some (s\<lparr>p_fatal := True\<rparr>)
           | Some bytes \<Rightarrow> Some (set_worker i (WRead bytes) s))
      | WRead [] \<Rightarrow> Some (set_worker i WCheck s)
      | WRead (c # rest) \<Rightarrow> Some (set_worker i (WQuit c rest) s)
      | WQuit c rest \<Rightarrow> Some (set_worker i (if p_quit s then WEnd else WCount c rest) s)
      | WCount c rest \<Rightarrow> Some (set_worker i (WRead rest) (count_char c s))
      | WEnd \<Rightarrow> None)"

datatype signal = SIGUSR1 | SIGINT

definition freq_report :: "nat list \<Rightarrow> (nat \<times> nat) list" where
  "freq_report freq = filter (\<lambda>(c, f). f > 0) (map (\<lambda>c. (c, freq ! c)) [97..<123])"

definition signal_handling :: "signal \<Rightarrow> pool \<Rightarrow> pool" where
  "signal_handling signo s =
     (case signo of
        SIGUSR1 \<Rightarrow> s\<lparr>p_reports := p_reports s @ [freq_report (p_freq s)]\<rparr>
      | SIGINT \<Rightarrow> s\<lparr>p_quit := True, p_sig := SigDone\<rparr>)"

definition main_loop :: "pool \<Rightarrow> pool option" where
  "main_loop s =
     (case p_main s of
        MLoop \<Rightarrow> Some (if p_quit s then s\<lparr>p_main := MJoin\<rparr> else s)
      | MJoin \<Rightarrow>
          if (\<forall>w \<in> set (p_workers s). w = WEnd) \<and> p_sig s = SigDone
          then Some (s\<lparr>p_main := MExit\<rparr>) else None
      | MExit \<Rightarrow> None)"

inductive pool_step :: "(string \<Rightarrow> string option) \<Rightarrow> pool \<Rightarrow> pool \<Rightarrow> bool" for fs where
  worker: "\<not> p_fatal s \<Longrightarrow> p_main s \<noteq> MExit \<Longrightarrow> i < length (p_workers s) \<Longrightarrow>
     thread_work fs i s = Some t \<Longrightarrow> pool_step fs s t"
| signal: "\<not> p_fatal s \<Longrightarrow> p_main s \<noteq> MExit \<Longrightarrow> p_sig s = SigWaiting \<Longrightarrow>
     pool_step fs s (signal_handling signo s)"
| main: "\<not> p_fatal s \<Longrightarrow> main_loop s = Some t \<Longrightarrow> pool_step fs s t"

subsection \<open>What is still to be counted\<close>

definition occurs :: "nat \<Rightarrow> string \<Rightarrow> nat" where
  "occurs k bytes = length (filter (\<lambda>c. schar c = int k) bytes)"





text \<open>Plain files: every path names a file, whose bytes are all below 128.\<close>

definition ascii :: "string \<Rightarrow> bool" where
  "ascii bytes \<longleftrightarrow> (\<forall>c \<in> set bytes. 0 \<le> schar c)"

definition plain_file :: "(string \<Rightarrow> string option) \<Rightarrow> string \<Rightarrow> bool" where
  "plain_file fs path \<longleftrightarrow> (case fs path of None \<Rightarrow> False | Some bytes \<Rightarrow> ascii bytes)"




lemma occurs_Nil [simp]: "occurs k [] = 0"
  by (simp add: occurs_def)

lemma ascii_Cons [simp]: "ascii (c # rest) \<longleftrightarrow> 0 \<le> schar c \<and> ascii rest"
  by (simp add: ascii_def)





lemma set_worker_fields [simp]:
  "p_cb (set_worker i w s) = p_cb s" "p_freq (set_worker i w s) = p_freq s"
  "p_oob (set_worker i w s) = p_oob s" "p_fatal (set_worker i w s) = p_fatal s"
  "p_quit (set_worker i w s) = p_quit s" "p_sig (set_worker i w s) = p_sig s"
  "p_main (set_worker i w s) = p_main s" "p_reports (set_worker i w s) = p_reports s"
  "p_workers (set_worker i w s) = [] \<longleftrightarrow> p_workers s = []"
  by (simp_all add: set_worker_def)

lemma count_char_fields [simp]:
  "p_cb (count_char c s) = p_cb s" "p_fatal (count_char c s) = p_fatal s"
  "p_quit (count_char c s) = p_quit s" "p_workers (count_char c s) = p_workers s"
  "p_sig (count_char c s) = p_sig s" "p_main (count_char c s) = p_main s"
  by (simp_all add: count_char_def Let_def)








text \<open>The start: a filled buffer and threads that have not begun.\<close>

definition pool_ready :: "(string \<Rightarrow> string option) \<Rightarrow> nat \<Rightarrow> circ_buf \<Rightarrow> bool" where
  "pool_ready fs n cb \<longleftrightarrow> 0 < n \<and> cb_wf cb \<and> (\<forall>p \<in> set (cb_content cb). plain_file fs p)"



subsection \<open>A worker that can never leave \<open>circ_buf_pop\<close>\<close>

definition starved :: "nat \<Rightarrow> pool \<Rightarrow> bool" where
  "starved i s \<longleftrightarrow>
     i < length (p_workers s) \<and> p_workers s ! i = WPop \<and> cb_len (p_cb s) = 0 \<and> p_main s \<noteq> MExit"

lemma starved_step: "starved i s \<Longrightarrow> pool_step fs s t \<Longrightarrow> starved i t"
proof (erule pool_step.cases)
  fix sa j ta
  assume st: "starved i s" and eq: "s = sa" "t = ta" and j: "j < length (p_workers sa)"
    and work: "thread_work fs j sa = Some ta"
  have "circ_buf_pop (p_cb sa) = None"
    using st eq by (simp add: starved_def circ_buf_pop_def)
  with work st eq j show "starved i t"
    by (cases "j = i")
      (auto simp: thread_work_def starved_def set_worker_def
        split: worker.splits option.splits list.splits)
next
  fix sa signo
  assume "starved i s" and "s = sa" "t = signal_handling signo sa"
  then show "starved i t" by (auto simp: starved_def signal_handling_def split: signal.split)
next
  fix sa ta
  assume st: "starved i s" and eq: "s = sa" "t = ta" and m: "main_loop sa = Some ta"
  have "WPop \<in> set (p_workers sa)" using st eq by (metis nth_mem starved_def)
  with m st eq show "starved i t"
    by (auto simp: main_loop_def starved_def split: main_thread.splits if_splits)
qed

interpretation starved_sys: invariant_system "starved i" "pool_step fs" "starved i" for i fs
  by unfold_locales (auto intro: starved_step)



subsection \<open>Properties\<close>


text \<open>
  C36: the program can hang. With at least two threads and one queued file, there is a schedule
  after which SIGINT has been handled, \<open>quit\<close> is set and \<open>main\<close> is joining its threads, but no
  continuation whatsoever reaches the end of \<open>main\<close>: two workers both saw \<open>cb->len > 0\<close>, one
  took the path, and the other waits in \<open>circ_buf_pop\<close>, which does not look at \<open>quit\<close>.
\<close>

theorem pool_hangs:
  assumes "pool_ready fs n cb" and "2 \<le> n" and "cb_len cb = 1"
  shows "\<exists>s. (pool_step fs)\<^sup>*\<^sup>* (pool_start n cb) s \<and> p_quit s \<and> p_sig s = SigDone \<and> p_main s = MJoin \<and>
     \<not> (\<exists>t. (pool_step fs)\<^sup>*\<^sup>* s t \<and> p_main t = MExit)"
proof -
  have wf: "cb_wf cb" using assms(1) by (simp add: pool_ready_def)
  obtain path where c: "cb_content cb = [path]"
    using assms(3) by (metis One_nat_def length_0_conv length_Suc_conv length_cb_content)
  from circ_buf_pop_first [OF wf c] obtain cb' where pop: "circ_buf_pop cb = Some (Some path, cb')"
    and c': "cb_content cb' = []" by blast
  have len': "cb_len cb' = 0" by (metis c' length_cb_content list.size(3))
  let ?s0 = "pool_start n cb"
  let ?s1 = "set_worker 0 WPop ?s0"
  let ?s2 = "set_worker 1 WPop ?s1"
  let ?s3 = "set_worker 0 (WOpen path) (?s2\<lparr>p_cb := cb'\<rparr>)"
  let ?s4 = "signal_handling SIGINT ?s3"
  let ?s5 = "?s4\<lparr>p_main := MJoin\<rparr>"
  have n0: "(replicate n WCheck) ! 0 = WCheck" and n1: "(replicate n WCheck) ! 1 = WCheck"
    using assms(2) by simp_all
  have 1: "pool_step fs ?s0 ?s1"
    by (rule pool_step.worker [of _ 0]) (use assms n0 in \<open>auto simp: pool_start_def thread_work_def\<close>)
  have 2: "pool_step fs ?s1 ?s2"
    by (rule pool_step.worker [of _ 1])
      (use assms n1 in \<open>auto simp: pool_start_def thread_work_def set_worker_def\<close>)
  have 3: "pool_step fs ?s2 ?s3"
    by (rule pool_step.worker [of _ 0])
      (use assms pop in \<open>auto simp: pool_start_def thread_work_def set_worker_def\<close>)
  have 4: "pool_step fs ?s3 ?s4"
    by (rule pool_step.signal) (simp_all add: pool_start_def)
  have 5: "pool_step fs ?s4 ?s5"
    by (rule pool_step.main) (simp_all add: pool_start_def main_loop_def signal_handling_def)
  have reach: "(pool_step fs)\<^sup>*\<^sup>* ?s0 ?s5"
    using 1 2 3 4 5 by (meson converse_rtranclp_into_rtranclp rtranclp.rtrancl_refl)
  have "starved 1 ?s5"
    using assms(2) len' by (simp add: starved_def signal_handling_def set_worker_def pool_start_def)
  then have "\<not> (\<exists>t. (pool_step fs)\<^sup>*\<^sup>* ?s5 t \<and> p_main t = MExit)"
    using starved_sys.inv_reachable [of 1 ?s5] by (auto simp: starved_def)
  with reach show ?thesis
    by (intro exI [of _ ?s5]) (simp add: signal_handling_def)
qed

text \<open>A buffer with one path, for the witnesses.\<close>

lemma one_path_buffer:
  "\<exists>cb. cb_wf cb \<and> cb_content cb = [''data1/c/fc.txt''] \<and> cb_len cb = 1"
proof -
  obtain cb where "cb_wf cb" "cb_content cb = [''data1/c/fc.txt'']"
    using circ_buf_push_room [OF cb_wf_create, of "''data1/c/fc.txt''"] by auto
  moreover from this have "cb_len cb = 1" by (metis One_nat_def length_cb_content length_Cons list.size(3))
  ultimately show ?thesis by blast
qed

lemma one_path_ready:
  "cb_content cb = [''data1/c/fc.txt''] \<Longrightarrow> cb_wf cb \<Longrightarrow> pool_ready (\<lambda>_. Some ''aba'') 3 cb"
  by (simp add: pool_ready_def plain_file_def ascii_def schar_def)


theorem pool_hangs_witness:
  "\<exists>cb s. cb_len cb = 1 \<and> (pool_step (\<lambda>_. Some ''aba''))\<^sup>*\<^sup>* (pool_start 3 cb) s \<and> p_quit s \<and>
     p_main s = MJoin \<and> \<not> (\<exists>t. (pool_step (\<lambda>_. Some ''aba''))\<^sup>*\<^sup>* s t \<and> p_main t = MExit)"
proof -
  obtain cb where cb: "cb_wf cb" "cb_content cb = [''data1/c/fc.txt'']" "cb_len cb = 1"
    using one_path_buffer by blast
  from pool_hangs [OF one_path_ready [OF cb(2,1)] _ cb(3)] cb(3) show ?thesis by auto
qed

end
