(* ===== verification/VoteServer.thy ===== *)
theory VoteServer
  imports SopIO
begin

section \<open>The voting server\<close>

text \<open>
  \<open>sop2/lab04/zad02/zad02.c\<close>: \<open>main\<close> serves up to seven electors over TCP with \<open>epoll\<close>, a second
  thread reads the votes once a second and sends the name of the leader over UDP. First the
  handler of one \<open>epoll\<close> event, then the tally, then both threads and SIGINT as steps.
\<close>

subsection \<open>State\<close>

definition N_CANDIDATES :: nat where "N_CANDIDATES = 3"
definition MAX_EVENTS :: nat where "MAX_EVENTS = 7"

text \<open>What the TCP thread prints, and what it sends to a client.\<close>

datatype tcp_log = Closed int | Impostor int | Welcome int string

text \<open>\<open>v_conns\<close>: the client descriptors that are open and registered with \<open>epoll_fd\<close>.\<close>

record server =
  v_electors :: "int list"
  v_votes :: "int list"
  v_conns :: "int list"
  v_log :: "tcp_log list"

definition server_start :: server where
  "server_start = \<lparr>v_electors = replicate MAX_EVENTS (-1), v_votes = replicate MAX_EVENTS 0,
     v_conns = [], v_log = []\<rparr>"

subsection \<open>The handler of one event\<close>

fun search_loop :: "int list \<Rightarrow> int \<Rightarrow> int \<Rightarrow> int" where
  "search_loop [] i x = -1"
| "search_loop (a # as) i x = (if a = x then i else search_loop as (i + 1) x)"

definition search :: "int list \<Rightarrow> int \<Rightarrow> int" where
  "search a x = search_loop a 0 x"

fun reset :: "int list \<Rightarrow> int \<Rightarrow> int list \<times> int" where
  "reset [] x = ([], -1)"
| "reset (a # as) x =
     (if a = x then (-1 # as, 0) else let (as', r) = reset as x in (a # as', r))"

text \<open>
  \<open>epoll_ctl\<close> adds a descriptor that is open and not there yet, and deletes one that is there;
  \<open>close\<close> of an open descriptor succeeds.
\<close>

definition epoll_add :: "int \<Rightarrow> server \<Rightarrow> server or_err" where
  "epoll_add fd s =
     (if fd < 0 \<or> fd \<in> set (v_conns s) then ERR ''epoll_ctl'' else Inr (s\<lparr>v_conns := v_conns s @ [fd]\<rparr>))"

definition close_client :: "int \<Rightarrow> server \<Rightarrow> server or_err" where
  "close_client fd s =
     (if fd \<in> set (v_conns s)
      then Inr (s\<lparr>v_conns := remove1 fd (v_conns s), v_log := v_log s @ [Closed fd]\<rparr>)
      else ERR ''epoll_ctl'')"

text \<open>
  One entry of \<open>events\<close>: the listening socket, with what \<open>accept\<close> returns; a client, with what
  \<open>bulk_read\<close> of one byte returns and what \<open>bulk_write\<close> of the welcome would; or an entry
  without \<open>EPOLLIN\<close>.
\<close>

datatype net_event =
  Incoming "int sysres" | FromClient int "string sysres" "nat sysres" | NoInput

definition welcome_msg :: "int \<Rightarrow> string" where
  "welcome_msg k = LF # ''Welcome, elector of '' @ decimal (nat k) @ ''!'' @ [LF]"

definition receive_byte :: "int \<Rightarrow> char \<Rightarrow> nat sysres \<Rightarrow> server \<Rightarrow> server or_err" where
  "receive_byte fd buf wr s =
     (let who = search (v_electors s) fd in
      if who = -1 then
        (if schar buf < schar (CHR ''1'') \<or> schar buf > schar (CHR ''7'') then close_client fd s
         else
           let k = schar buf - schar (CHR ''0'') in
           if v_electors s ! nat (k - 1) \<noteq> -1
           then bind_err (close_client fd s) (\<lambda>s. Inr (s\<lparr>v_log := v_log s @ [Impostor k]\<rparr>))
           else
             let s = s\<lparr>v_electors := (v_electors s)[nat (k - 1) := fd]\<rparr> in
             (case wr of
                SysErr _ \<Rightarrow> ERR ''bulk_write''
              | SysOk _ \<Rightarrow> Inr (s\<lparr>v_log := v_log s @ [Welcome fd (welcome_msg k)]\<rparr>)))
      else if schar buf \<ge> schar (CHR ''1'') \<and> schar buf \<le> schar (CHR ''3'') then
        (let vote = schar buf - schar (CHR ''0'') in Inr (s\<lparr>v_votes := (v_votes s)[nat who := vote]\<rparr>))
      else Inr s)"

fun handle_event :: "net_event \<Rightarrow> server \<Rightarrow> server or_err" where
  "handle_event (Incoming acc) s =
     bind_err (add_new_client acc) (\<lambda>r. epoll_add (case r of SysOk nfd \<Rightarrow> nfd | SysErr _ \<Rightarrow> -1) s)"
| "handle_event (FromClient fd rd wr) s =
     (case rd of
        SysOk (buf # _) \<Rightarrow> receive_byte fd buf wr s
      | SysOk [] \<Rightarrow>
          bind_err (close_client fd s) (\<lambda>s. Inr (s\<lparr>v_electors := fst (reset (v_electors s) fd)\<rparr>))
      | SysErr e \<Rightarrow> if e \<noteq> EAGAIN then ERR ''bulk_read'' else Inr s)"
| "handle_event NoInput s = Inr s"

subsection \<open>The tally\<close>

text \<open>The two loops of \<open>run_udp\<close> (the first also ends \<open>run_tcp\<close>); \<open>None\<close> is an index out of bounds.\<close>

fun tally_loop :: "int list \<Rightarrow> nat list \<Rightarrow> nat list option" where
  "tally_loop [] score = Some score"
| "tally_loop (v # votes) score =
     (if v > 0
      then if nat (v - 1) < length score
           then tally_loop votes (score[nat (v - 1) := score ! nat (v - 1) + 1])
           else None
      else tally_loop votes score)"

definition tally :: "int list \<Rightarrow> nat list option" where
  "tally votes = tally_loop votes (replicate N_CANDIDATES 0)"

fun winner_loop :: "nat list \<Rightarrow> int \<Rightarrow> int \<Rightarrow> nat \<Rightarrow> int" where
  "winner_loop [] i winner max_score = winner"
| "winner_loop (sc # score) i winner max_score =
     (if sc > max_score then winner_loop score (i + 1) (i + 1) sc
      else winner_loop score (i + 1) winner max_score)"

definition winner_of :: "nat list \<Rightarrow> int" where
  "winner_of score = winner_loop score 0 (-1) 0"

definition udp_text :: "int \<Rightarrow> string" where
  "udp_text winner =
     (if winner > 0 then ''The winner is '' @ decimal (nat winner) @ [LF] else ''No winner for now'' @ [LF])"

definition score_lines :: "nat list \<Rightarrow> string list" where
  "score_lines score =
     map (\<lambda>i. ''Candidate '' @ decimal (i + 1) @ '' received '' @ decimal (score ! i) @ '' votes'' @ [LF])
       [0..<N_CANDIDATES]"

subsection \<open>The invariant\<close>

text \<open>
  Descriptors in use are distinct and open, no two electors share one, and every vote is a
  candidate or 0.
\<close>

definition one_seat :: "int list \<Rightarrow> bool" where
  "one_seat es \<longleftrightarrow> distinct (filter (\<lambda>e. e \<noteq> -1) es)"

definition vote_inv :: "server \<Rightarrow> bool" where
  "vote_inv s \<longleftrightarrow>
     length (v_electors s) = MAX_EVENTS \<and> length (v_votes s) = MAX_EVENTS \<and>
     distinct (v_conns s) \<and> (\<forall>fd \<in> set (v_conns s). 0 \<le> fd) \<and>
     set (v_electors s) \<subseteq> insert (-1) (set (v_conns s)) \<and> one_seat (v_electors s) \<and>
     set (v_votes s) \<subseteq> {0..int N_CANDIDATES}"

text \<open>What the kernel can deliver: events of open clients, and new descriptors on \<open>accept\<close>.\<close>

fun kernel_event :: "server \<Rightarrow> net_event \<Rightarrow> bool" where
  "kernel_event s (Incoming (SysOk nfd)) = (0 \<le> nfd \<and> nfd \<notin> set (v_conns s))"
| "kernel_event s (Incoming (SysErr e)) = True"
| "kernel_event s (FromClient fd rd wr) = (fd \<in> set (v_conns s))"
| "kernel_event s NoInput = True"

lemma schar_digits:
  "schar (CHR ''0'') = 48" "schar (CHR ''1'') = 49" "schar (CHR ''3'') = 51" "schar (CHR ''7'') = 55"
  by (simp_all add: schar_def Let_def)

lemma search_loop_spec:
  "(search_loop a i x = -1 \<and> x \<notin> set a) \<or>
     (\<exists>k < length a. search_loop a i x = i + int k \<and> a ! k = x \<and> x \<notin> set (take k a))" if "0 \<le> i"
  using that
proof (induction a i x rule: search_loop.induct)
  case (1 i x)
  then show ?case by simp
next
  case (2 a as i x)
  show ?case
  proof (cases "a = x")
    case True
    then show ?thesis by (auto intro!: exI [of _ 0])
  next
    case False
    have "0 \<le> i + 1" using "2.prems" by simp
    from "2.IH" [OF False this] show ?thesis
    proof (elim disjE exE conjE)
      fix k assume "k < length as" "search_loop as (i + 1) x = i + 1 + int k" "as ! k = x" "x \<notin> set (take k as)"
      with False show ?thesis by (auto intro!: exI [of _ "Suc k"])
    qed (use False in auto)
  qed
qed

lemma search_minus_one: "search a x = -1 \<longleftrightarrow> x \<notin> set a"
  using search_loop_spec [of 0 a x] by (auto simp: search_def)

lemma search_found:
  "x \<in> set a \<Longrightarrow> \<exists>k < length a. search a x = int k \<and> a ! k = x"
  using search_loop_spec [of 0 a x] by (auto simp: search_def)

lemma one_seat_update:
  assumes "one_seat es" and "x = -1 \<or> x \<notin> set es"
  shows "one_seat (es[i := x])"
  using assms
proof (induction es arbitrary: i)
  case (Cons e es)
  then show ?case
    by (cases i) (auto simp: one_seat_def split: if_splits dest!: set_update_subset_insert [THEN subsetD])
qed (simp add: one_seat_def)

lemma reset_update:
  "reset es x = (if x \<in> set es then (es[nat (search es x) := -1], 0) else (es, -1))"
proof -
  have "fst (reset es x) = (if x \<in> set es then es[nat (search_loop es i x - i) := -1] else es) \<and>
     snd (reset es x) = (if x \<in> set es then 0 else -1)" if "0 \<le> i" for i
    using that
  proof (induction es x arbitrary: i rule: reset.induct)
    case (2 a as x)
    show ?case
    proof (cases "a = x \<or> x \<notin> set as")
      case True
      with 2 show ?thesis by (auto simp: case_prod_beta)
    next
      case False
      with search_loop_spec [of "i + 1" as x] "2.prems" obtain k
        where "search_loop as (i + 1) x = i + 1 + int k" by auto
      with False "2.IH" [of "i + 1"] "2.prems" show ?thesis
        by (simp add: case_prod_beta nat_add_distrib)
    qed
  qed simp
  from this [of 0] show ?thesis by (simp add: search_def prod_eq_iff)
qed

lemma one_seat_unique:
  "one_seat es \<Longrightarrow> i < length es \<Longrightarrow> j < length es \<Longrightarrow> es ! i = es ! j \<Longrightarrow> es ! i \<noteq> -1 \<Longrightarrow> i = j"
proof (induction es arbitrary: i j)
  case (Cons e es)
  then show ?case by (cases i; cases j) (auto simp: one_seat_def split: if_splits dest: nth_mem)
qed simp

lemma reset_no_longer:
  assumes "one_seat es" and "x \<noteq> -1"
  shows "x \<notin> set (fst (reset es x))"
proof (cases "x \<in> set es")
  case True
  with search_found obtain k where k: "k < length es" "search es x = int k" "es ! k = x" by metis
  then have "x \<notin> set (es[k := -1])"
    using assms one_seat_unique [OF assms(1)]
    by (metis in_set_conv_nth length_list_update nth_list_update)
  with True k show ?thesis by (simp add: reset_update)
qed (simp add: reset_update)

subsection \<open>What the server promises\<close>

text \<open>
  The election seen from outside: which clients are connected, which elector (1 to 7) each of
  them is, and whom each elector has chosen. An elector who leaves keeps the vote.
\<close>

record election =
  online :: "int set"
  seated :: "int \<Rightarrow> int option"
  chosen :: "int \<Rightarrow> int option"

definition digit_in :: "char \<Rightarrow> int \<Rightarrow> int option" where
  "digit_in c n = (let k = schar c - 48 in if 1 \<le> k \<and> k \<le> n then Some k else None)"

definition spec_byte :: "int \<Rightarrow> char \<Rightarrow> election \<Rightarrow> election" where
  "spec_byte fd c b =
     (case seated b fd of
        None \<Rightarrow>
          (case digit_in c 7 of
             Some k \<Rightarrow> if k \<notin> ran (seated b) then b\<lparr>seated := (seated b)(fd \<mapsto> k)\<rparr>
                       else b\<lparr>online := online b - {fd}\<rparr>
           | None \<Rightarrow> b\<lparr>online := online b - {fd}\<rparr>)
      | Some k \<Rightarrow>
          (case digit_in c 3 of
             Some v \<Rightarrow> b\<lparr>chosen := (chosen b)(k \<mapsto> v)\<rparr>
           | None \<Rightarrow> b))"

fun spec_event :: "net_event \<Rightarrow> election \<Rightarrow> election" where
  "spec_event (Incoming (SysOk nfd)) b = b\<lparr>online := insert nfd (online b)\<rparr>"
| "spec_event (FromClient fd (SysOk []) wr) b =
     b\<lparr>online := online b - {fd}, seated := (seated b)(fd := None)\<rparr>"
| "spec_event (FromClient fd (SysOk (c # cs)) wr) b = spec_byte fd c b"
| "spec_event e b = b"

definition seat_map :: "int list \<Rightarrow> int \<Rightarrow> int option" where
  "seat_map es fd = (if fd \<noteq> -1 \<and> fd \<in> set es then Some (search es fd + 1) else None)"

definition vote_map :: "int list \<Rightarrow> int \<Rightarrow> int option" where
  "vote_map vs k =
     (if 1 \<le> k \<and> k \<le> int (length vs) \<and> vs ! nat (k - 1) > 0 then Some (vs ! nat (k - 1)) else None)"

definition election_of :: "server \<Rightarrow> election" where
  "election_of s =
     \<lparr>online = set (v_conns s), seated = seat_map (v_electors s), chosen = vote_map (v_votes s)\<rparr>"

lemma seat_map_nth:
  assumes "one_seat es" and "i < length es" and "es ! i \<noteq> -1"
  shows "seat_map es (es ! i) = Some (int i + 1)"
proof -
  obtain k where "k < length es" "search es (es ! i) = int k" "es ! k = es ! i"
    using search_found [of "es ! i" es] assms(2) by auto
  with one_seat_unique [OF assms(1), of k i] assms show ?thesis by (simp add: seat_map_def)
qed

lemma seat_map_SomeD:
  "seat_map es fd = Some k \<Longrightarrow> 1 \<le> k \<and> nat (k - 1) < length es \<and> es ! nat (k - 1) = fd \<and> fd \<noteq> -1"
  using search_found [of fd es] by (auto simp: seat_map_def split: if_splits)

lemma seat_map_iff:
  "one_seat es \<Longrightarrow>
     seat_map es fd = Some k \<longleftrightarrow> 1 \<le> k \<and> nat (k - 1) < length es \<and> es ! nat (k - 1) = fd \<and> fd \<noteq> -1"
  using seat_map_SomeD [of es fd k] seat_map_nth [of es "nat (k - 1)"] by auto

lemma seat_map_eqI:
  assumes "one_seat es" and "\<And>fd k. m fd = Some k \<longleftrightarrow>
      1 \<le> k \<and> nat (k - 1) < length es \<and> es ! nat (k - 1) = fd \<and> fd \<noteq> -1"
  shows "seat_map es = m"
proof
  fix fd
  show "seat_map es fd = m fd"
    using assms(2) [of fd] seat_map_iff [OF assms(1), of fd] by (metis not_Some_eq)
qed

lemma seat_map_take:
  assumes "one_seat es" and "fd \<notin> set es" and "fd \<noteq> -1"
    and "1 \<le> k" and "nat (k - 1) < length es" and "es ! nat (k - 1) = -1"
  shows "seat_map (es[nat (k - 1) := fd]) = (seat_map es)(fd \<mapsto> k)"
proof (rule seat_map_eqI)
  show "one_seat (es[nat (k - 1) := fd])" using assms by (simp add: one_seat_update)
next
  fix x j
  have new: "es ! nat (j - 1) \<noteq> fd" if "nat (j - 1) < length es" using that assms(2) by auto
  show "((seat_map es)(fd \<mapsto> k)) x = Some j \<longleftrightarrow> 1 \<le> j \<and> nat (j - 1) < length (es[nat (k - 1) := fd]) \<and>
     es[nat (k - 1) := fd] ! nat (j - 1) = x \<and> x \<noteq> -1"
    using new assms by (auto simp: seat_map_iff nth_list_update nat_eq_iff split: if_splits)
qed

lemma seat_map_leave:
  assumes "one_seat es" and "fd \<noteq> -1"
  shows "seat_map (fst (reset es fd)) = (seat_map es)(fd := None)"
proof (cases "fd \<in> set es")
  case True
  with search_found obtain i where i: "i < length es" "search es fd = int i" "es ! i = fd" by metis
  have "seat_map (es[i := -1]) = (seat_map es)(fd := None)"
  proof (rule seat_map_eqI)
    show "one_seat (es[i := -1])" using assms by (simp add: one_seat_update)
  next
    fix x j
    have "es ! nat (j - 1) = fd \<Longrightarrow> nat (j - 1) < length es \<Longrightarrow> nat (j - 1) = i"
      using one_seat_unique [OF assms(1)] i assms(2) by simp
    with assms i show "((seat_map es)(fd := None)) x = Some j \<longleftrightarrow>
      1 \<le> j \<and> nat (j - 1) < length (es[i := -1]) \<and> es[i := -1] ! nat (j - 1) = x \<and> x \<noteq> -1"
      by (auto simp: seat_map_iff nth_list_update split: if_splits)
  qed
  with True i show ?thesis by (simp add: reset_update)
qed (auto simp: reset_update seat_map_def fun_eq_iff)

lemma ran_seat_map:
  assumes "one_seat es"
  shows "k \<in> ran (seat_map es) \<longleftrightarrow> 1 \<le> k \<and> nat (k - 1) < length es \<and> es ! nat (k - 1) \<noteq> -1"
  using assms by (auto simp: ran_def seat_map_iff)

lemma vote_map_update:
  "i < length vs \<Longrightarrow> 0 < v \<Longrightarrow> vote_map (vs[i := v]) = (vote_map vs)(int i + 1 \<mapsto> v)"
  by (auto simp: vote_map_def fun_eq_iff nth_list_update nat_eq_iff)

lemma digit_in_simps:
  "digit_in c 7 = (if schar c < 49 \<or> schar c > 55 then None else Some (schar c - 48))"
  "digit_in c 3 = (if 49 \<le> schar c \<and> schar c \<le> 51 then Some (schar c - 48) else None)"
  by (auto simp: digit_in_def Let_def)

subsection \<open>The handler keeps the promise\<close>

lemma vote_inv_start: "vote_inv server_start"
  by (simp add: vote_inv_def server_start_def one_seat_def MAX_EVENTS_def numeral_eq_Suc)

lemma vote_invD:
  assumes "vote_inv s"
  shows "length (v_electors s) = 7" "length (v_votes s) = 7" "distinct (v_conns s)"
    "one_seat (v_electors s)" "set (v_electors s) \<subseteq> insert (-1) (set (v_conns s))"
    "fd \<in> set (v_conns s) \<Longrightarrow> 0 \<le> fd" "v \<in> set (v_votes s) \<Longrightarrow> 0 \<le> v \<and> v \<le> 3"
  using assms by (auto simp: vote_inv_def MAX_EVENTS_def N_CANDIDATES_def)

lemma close_client_ok:
  "fd \<in> set (v_conns s) \<Longrightarrow>
     close_client fd s = Inr (s\<lparr>v_conns := remove1 fd (v_conns s), v_log := v_log s @ [Closed fd]\<rparr>)"
  by (simp add: close_client_def)

lemma vote_inv_log [simp]: "vote_inv (s\<lparr>v_log := l\<rparr>) = vote_inv s"
  by (simp add: vote_inv_def)

lemma vote_inv_drop:
  assumes "vote_inv s" and "fd \<notin> set (v_electors s)"
  shows "vote_inv (s\<lparr>v_conns := remove1 fd (v_conns s)\<rparr>)"
  using assms by (auto simp: vote_inv_def)

lemma vote_inv_seat:
  assumes "vote_inv s" and "fd \<in> set (v_conns s)" and "fd \<notin> set (v_electors s)"
  shows "vote_inv (s\<lparr>v_electors := (v_electors s)[i := fd]\<rparr>)"
  using assms by (auto simp: vote_inv_def one_seat_update dest!: set_update_subset_insert [THEN subsetD])

lemma vote_inv_vote:
  assumes "vote_inv s" and "0 \<le> v" and "v \<le> 3"
  shows "vote_inv (s\<lparr>v_votes := (v_votes s)[i := v]\<rparr>)"
  using assms by (auto simp: vote_inv_def N_CANDIDATES_def dest!: set_update_subset_insert [THEN subsetD])

lemma vote_inv_leave:
  assumes "vote_inv s" and "fd \<in> set (v_conns s)"
  shows "vote_inv (s\<lparr>v_conns := remove1 fd (v_conns s), v_electors := fst (reset (v_electors s) fd)\<rparr>)"
proof -
  note d = vote_invD [OF assms(1)]
  have ne: "fd \<noteq> -1" using d(6) [OF assms(2)] by simp
  have "set (fst (reset (v_electors s) fd)) \<subseteq> insert (-1) (set (v_electors s))"
    by (auto simp: reset_update dest!: set_update_subset_insert [THEN subsetD])
  with reset_no_longer [OF d(4) ne] d(5)
  have "set (fst (reset (v_electors s) fd)) \<subseteq> insert (-1) (set (v_conns s) - {fd})" by blast
  moreover have "one_seat (fst (reset (v_electors s) fd))"
    using d(4) by (simp add: reset_update one_seat_update)
  moreover have "length (fst (reset (v_electors s) fd)) = 7"
    using d(1) by (simp add: reset_update)
  ultimately show ?thesis using assms(1) d(3)
    by (auto simp: vote_inv_def MAX_EVENTS_def)
qed

lemma receive_byte_refines:
  assumes inv: "vote_inv s" and fd: "fd \<in> set (v_conns s)" and run: "receive_byte fd c wr s = Inr s'"
  shows "vote_inv s' \<and> election_of s' = spec_byte fd c (election_of s)"
proof (cases "fd \<in> set (v_electors s)")
  case True
  note d = vote_invD [OF inv]
  obtain i where i: "i < 7" "search (v_electors s) fd = int i" "v_electors s ! i = fd"
    using search_found [OF True] d(1) by auto
  have ne: "fd \<noteq> -1" using d(6) [OF fd] by simp
  have seat: "seat_map (v_electors s) fd = Some (int i + 1)"
    using True ne i by (simp add: seat_map_def)
  show ?thesis
    using run i(1,2) seat vote_inv_vote [OF inv, of "schar c - 48" i] inv d(2)
    by (auto simp: receive_byte_def Let_def schar_digits spec_byte_def digit_in_simps election_of_def
        vote_map_update split: if_splits)
next
  case False
  note d = vote_invD [OF inv]
  have ne: "fd \<noteq> -1" using d(6) [OF fd] by simp
  have who: "search (v_electors s) fd = -1" using False by (simp add: search_minus_one)
  have seat: "seat_map (v_electors s) fd = None" using False by (simp add: seat_map_def)
  let ?k = "schar c - 48"
  show ?thesis
  proof (cases "schar c < 49 \<or> schar c > 55")
    case True
    with run who fd seat vote_inv_drop [OF inv False] d(3) show ?thesis
      by (auto simp: receive_byte_def schar_digits close_client_ok spec_byte_def digit_in_simps election_of_def)
  next
    case k: False
    then have kb: "1 \<le> ?k" "nat (?k - 1) < length (v_electors s)" using d(1) by auto
    note ran = ran_seat_map [OF d(4), of ?k]
    show ?thesis
    proof (cases "v_electors s ! nat (?k - 1) = -1")
      case True
      have "seat_map ((v_electors s)[nat (?k - 1) := fd]) = (seat_map (v_electors s))(fd \<mapsto> ?k)"
        by (rule seat_map_take [OF d(4) False ne kb True])
      with True k run who fd seat ran vote_inv_seat [OF inv fd False, of "nat (?k - 1)"] show ?thesis
        by (auto simp: receive_byte_def Let_def schar_digits spec_byte_def digit_in_simps election_of_def
            split: sysres.splits)
    next
      case taken: False
      with k kb run who fd seat ran vote_inv_drop [OF inv False] d(3) show ?thesis
        by (auto simp: receive_byte_def Let_def schar_digits close_client_ok spec_byte_def digit_in_simps
            election_of_def)
    qed
  qed
qed

lemma handle_event_refines:
  assumes inv: "vote_inv s" and k: "kernel_event s e" and run: "handle_event e s = Inr s'"
  shows "vote_inv s' \<and> election_of s' = spec_event e (election_of s)"
proof (cases e)
  case (Incoming acc)
  show ?thesis
  proof (cases acc)
    case (SysErr x)
    with run Incoming show ?thesis by (auto simp: epoll_add_def split: if_splits)
  next
    case (SysOk nfd)
    then have "s' = s\<lparr>v_conns := v_conns s @ [nfd]\<rparr>" and "0 \<le> nfd" "nfd \<notin> set (v_conns s)"
      using run k Incoming by (auto simp: epoll_add_def split: if_splits)
    with inv Incoming SysOk show ?thesis
      by (auto simp: vote_inv_def election_of_def)
  qed
next
  case (FromClient fd rd wr)
  with k have fd: "fd \<in> set (v_conns s)" by simp
  show ?thesis
  proof (cases rd)
    case (SysErr x)
    with run FromClient inv show ?thesis by (auto split: if_splits)
  next
    case (SysOk bs)
    show ?thesis
    proof (cases bs)
      case Nil
      have ne: "fd \<noteq> -1" using vote_invD(6) [OF inv fd] by simp
      from Nil SysOk run FromClient have
        s': "s' = s\<lparr>v_conns := remove1 fd (v_conns s), v_electors := fst (reset (v_electors s) fd),
                 v_log := v_log s @ [Closed fd]\<rparr>"
        by (auto simp: close_client_ok [OF fd])
      show ?thesis
        using vote_inv_leave [OF inv fd] seat_map_leave [OF vote_invD(4) [OF inv] ne]
        by (simp add: s' FromClient SysOk Nil election_of_def vote_invD(3) [OF inv])
    next
      case (Cons c cs)
      with run SysOk FromClient have "receive_byte fd c wr s = Inr s'" by simp
      from receive_byte_refines [OF inv fd this] show ?thesis by (simp add: FromClient SysOk Cons)
    qed
  qed
qed (use run inv in simp)

text \<open>
  The events that end the server: an \<open>accept\<close> that fails, even with \<open>EAGAIN\<close>, a read that fails
  with anything else than \<open>EAGAIN\<close>, or a welcome that cannot be sent.
\<close>

definition welcomed :: "server \<Rightarrow> int \<Rightarrow> char \<Rightarrow> bool" where
  "welcomed s fd c \<longleftrightarrow> seated (election_of s) fd = None \<and>
     (\<exists>k. digit_in c 7 = Some k \<and> k \<notin> ran (seated (election_of s)))"

fun lethal :: "server \<Rightarrow> net_event \<Rightarrow> bool" where
  "lethal s (Incoming (SysErr e)) = True"
| "lethal s (FromClient fd (SysErr e) wr) = (e \<noteq> EAGAIN)"
| "lethal s (FromClient fd (SysOk (c # cs)) (SysErr e)) = welcomed s fd c"
| "lethal s _ = False"

lemma receive_byte_fails:
  assumes inv: "vote_inv s" and fd: "fd \<in> set (v_conns s)"
  shows "(\<exists>m. receive_byte fd c wr s = ERR m) \<longleftrightarrow> welcomed s fd c \<and> (\<exists>e. wr = SysErr e)"
proof (cases "fd \<in> set (v_electors s)")
  case True
  with search_found obtain i where "search (v_electors s) fd = int i" by metis
  moreover have "fd \<noteq> -1" using vote_invD(6) [OF inv fd] by simp
  ultimately show ?thesis using True
    by (auto simp: receive_byte_def Let_def welcomed_def election_of_def seat_map_def)
next
  case False
  then have "search (v_electors s) fd = -1" by (simp add: search_minus_one)
  with False show ?thesis
    using ran_seat_map [OF vote_invD(4) [OF inv], of "schar c - 48"] vote_invD(1) [OF inv]
    by (auto simp: receive_byte_def Let_def schar_digits close_client_ok [OF fd] welcomed_def
        election_of_def seat_map_def digit_in_simps split: sysres.splits)
qed

subsection \<open>The tally counts the votes\<close>

definition supporters :: "int list \<Rightarrow> nat \<Rightarrow> nat" where
  "supporters vs c = length (filter (\<lambda>v. v = int c) vs)"

lemma tally_loop_ok:
  assumes "set vs \<subseteq> {0..int (length score)}"
  shows "\<exists>score'. tally_loop vs score = Some score' \<and> length score' = length score \<and>
     (\<forall>c < length score. score' ! c = score ! c + supporters vs (c + 1))"
  using assms
proof (induction vs score rule: tally_loop.induct)
  case (1 score)
  then show ?case by (simp add: supporters_def)
next
  case (2 v vs score)
  show ?case
  proof (cases "v > 0")
    case True
    with "2.prems" have lt: "nat (v - 1) < length score" by auto
    have "set vs \<subseteq> {0..int (length (score[nat (v - 1) := score ! nat (v - 1) + 1]))}"
      using "2.prems" by simp
    from "2.IH"(1) [OF True lt this] obtain score' where s: "length score' = length score"
      "tally_loop (v # vs) score = Some score'"
      "\<forall>c < length score. score' ! c = score[nat (v - 1) := score ! nat (v - 1) + 1] ! c + supporters vs (c + 1)"
      using True lt by auto
    have "supporters (v # vs) (c + 1) = supporters vs (c + 1) + (if c = nat (v - 1) then 1 else 0)" for c
      using True by (auto simp: supporters_def)
    with s lt show ?thesis by (intro exI [of _ score']) (auto simp: nth_list_update)
  next
    case False
    with "2.prems" have "v = 0" by auto
    with "2.IH"(2) [OF False] "2.prems" show ?thesis by (simp add: supporters_def)
  qed
qed

lemma tally_ok:
  assumes "set vs \<subseteq> {0..3}"
  shows "tally vs = Some [supporters vs 1, supporters vs 2, supporters vs 3]"
proof -
  have "set vs \<subseteq> {0..int (length (replicate N_CANDIDATES (0::nat)))}"
    using assms by (simp add: N_CANDIDATES_def)
  from tally_loop_ok [OF this] obtain sc where
    "tally vs = Some sc" "length sc = 3" "\<forall>c < 3. sc ! c = supporters vs (c + 1)"
    by (auto simp: tally_def N_CANDIDATES_def)
  then show ?thesis
    by (auto simp: list_eq_iff_nth_eq less_Suc_eq numeral_eq_Suc)
qed

lemma winner_of_3:
  "winner_of [a, b, c] =
     (if a = 0 \<and> b = 0 \<and> c = 0 then -1 else if a \<ge> b \<and> a \<ge> c then 1 else if b \<ge> c then 2 else 3)"
  by (auto simp: winner_of_def)

lemma supporters_total:
  "set vs \<subseteq> {0..3} \<Longrightarrow>
     supporters vs 1 + supporters vs 2 + supporters vs 3 = length (filter (\<lambda>v. v > 0) vs)"
  by (induction vs) (auto simp: supporters_def)

subsection \<open>Both threads and the signal\<close>

text \<open>
  Where the TCP thread is: at the top of its loop, in \<open>epoll_pwait\<close>, with \<open>n\<close> entries of a batch
  still to handle, back in \<open>main\<close> with its descriptors closed, after \<open>main\<close> destroyed the mutexes
  and freed the votes, or gone. Where the UDP thread is: testing \<open>*do_work\<close>, in \<open>msleep\<close>, in front
  of its tally, in front of \<open>sendto\<close>, or ended.
\<close>

datatype tcp_pc = TTop | TWait | TBatch nat | TClosed | TFreed | TExit
datatype udp_pc = UCheck | USleep | UTally | USend int | UEnd

record vprog =
  g_srv :: server
  g_glob :: bool \<comment> \<open>\<open>do_work_glob\<close>\<close>
  g_do_work :: bool
  g_tcp :: tcp_pc
  g_udp :: udp_pc
  g_packets :: "string list"
  g_score :: "nat list option" \<comment> \<open>what \<open>run_tcp\<close> printed when it ended\<close>
  g_oob :: bool \<comment> \<open>\<open>score\<close> was indexed out of bounds\<close>
  g_stale :: bool \<comment> \<open>freed votes were read or a destroyed mutex was locked\<close>
  g_dead :: bool \<comment> \<open>\<open>ERR\<close> has ended the process\<close>

definition vprog_start :: vprog where
  "vprog_start =
     \<lparr>g_srv = server_start, g_glob = True, g_do_work = True, g_tcp = TTop, g_udp = UCheck, g_packets = [],
      g_score = None, g_oob = False, g_stale = False, g_dead = False\<rparr>"

definition tcp_top :: "vprog \<Rightarrow> vprog" where
  "tcp_top g =
     (if g_glob g then g\<lparr>g_tcp := TWait\<rparr>
      else (case tally (v_votes (g_srv g)) of
              None \<Rightarrow> g\<lparr>g_do_work := False, g_oob := True\<rparr>
            | Some score \<Rightarrow> g\<lparr>g_do_work := False, g_tcp := TClosed, g_score := Some score\<rparr>))"

definition tcp_handle :: "net_event \<Rightarrow> nat \<Rightarrow> vprog \<Rightarrow> vprog" where
  "tcp_handle e n g =
     (case handle_event e (g_srv g) of
        Inl _ \<Rightarrow> g\<lparr>g_dead := True\<rparr>
      | Inr srv \<Rightarrow> g\<lparr>g_srv := srv, g_tcp := TBatch n\<rparr>)"

definition udp_next :: "vprog \<Rightarrow> vprog" where
  "udp_next g =
     (let g = (if g_tcp g = TFreed \<and> g_udp g \<in> {UCheck, UTally} then g\<lparr>g_stale := True\<rparr> else g) in
      case g_udp g of
        UCheck \<Rightarrow> g\<lparr>g_udp := (if g_do_work g then USleep else UEnd)\<rparr>
      | USleep \<Rightarrow> g\<lparr>g_udp := UTally\<rparr>
      | UTally \<Rightarrow>
          (case tally (v_votes (g_srv g)) of
             None \<Rightarrow> g\<lparr>g_oob := True\<rparr>
           | Some score \<Rightarrow> g\<lparr>g_udp := USend (winner_of score)\<rparr>)
      | USend winner \<Rightarrow> g\<lparr>g_udp := UCheck, g_packets := g_packets g @ [udp_text winner]\<rparr>
      | UEnd \<Rightarrow> g)"

inductive vprog_step :: "vprog \<Rightarrow> vprog \<Rightarrow> bool" where
  top: "\<not> g_dead g \<Longrightarrow> g_tcp g = TTop \<Longrightarrow> vprog_step g (tcp_top g)"
| interrupted: "\<not> g_dead g \<Longrightarrow> g_tcp g = TWait \<Longrightarrow> vprog_step g (g\<lparr>g_tcp := TTop\<rparr>)"
| events: "\<not> g_dead g \<Longrightarrow> g_tcp g = TWait \<Longrightarrow> 0 < n \<Longrightarrow> n \<le> MAX_EVENTS \<Longrightarrow>
     vprog_step g (g\<lparr>g_tcp := TBatch n\<rparr>)"
| event: "\<not> g_dead g \<Longrightarrow> g_tcp g = TBatch (Suc n) \<Longrightarrow> kernel_event (g_srv g) e \<Longrightarrow>
     vprog_step g (tcp_handle e n g)"
| batch_end: "\<not> g_dead g \<Longrightarrow> g_tcp g = TBatch 0 \<Longrightarrow> vprog_step g (g\<lparr>g_tcp := TTop\<rparr>)"
| free_votes: "\<not> g_dead g \<Longrightarrow> g_tcp g = TClosed \<Longrightarrow> vprog_step g (g\<lparr>g_tcp := TFreed\<rparr>)"
| leave: "\<not> g_dead g \<Longrightarrow> g_tcp g = TFreed \<Longrightarrow> vprog_step g (g\<lparr>g_tcp := TExit\<rparr>)"
| udp: "\<not> g_dead g \<Longrightarrow> g_tcp g \<noteq> TExit \<Longrightarrow> g_udp g \<noteq> UEnd \<Longrightarrow> vprog_step g (udp_next g)"
| sigint: "\<not> g_dead g \<Longrightarrow> g_tcp g \<noteq> TExit \<Longrightarrow> vprog_step g (g\<lparr>g_glob := False\<rparr>)"












subsection \<open>Properties\<close>

text \<open>
  C3: one \<open>epoll\<close> event. In a state with the invariant, and for any event the kernel can deliver,
  the handler calls \<open>ERR\<close> exactly on the lethal events (an \<open>accept\<close> that returns \<open>EAGAIN\<close> is one:
  its descriptor \<open>-1\<close> goes on to \<open>epoll_ctl\<close>); otherwise it keeps the invariant and does to the
  election what the specification says: seats, impostors, votes and departures.
\<close>

theorem vote_handler_refines:
  assumes "vote_inv s" and "kernel_event s e"
  shows "if lethal s e then \<exists>m. handle_event e s = ERR m
     else \<exists>s'. handle_event e s = Inr s' \<and> vote_inv s' \<and> election_of s' = spec_event e (election_of s)"
proof (cases "handle_event e s")
  case (Inl m)
  have "lethal s e"
  proof (cases e)
    case (Incoming acc)
    with Inl assms show ?thesis by (cases acc) (auto simp: epoll_add_def)
  next
    case (FromClient fd rd wr)
    show ?thesis
    proof (cases rd)
      case (SysErr x)
      with FromClient Inl show ?thesis by (auto split: if_splits)
    next
      case (SysOk bs)
      with FromClient Inl assms receive_byte_fails [of s fd _ wr] show ?thesis
        by (cases bs; cases wr) (auto simp: close_client_ok)
    qed
  qed (use Inl in simp)
  with Inl show ?thesis by simp
next
  case (Inr s')
  have "\<not> lethal s e"
  proof (cases "(s, e)" rule: lethal.cases)
    case (3 _ fd c cs x)
    with Inr assms receive_byte_fails [of s fd c "SysErr x"] show ?thesis by auto
  qed (use Inr in \<open>auto simp: epoll_add_def split: if_splits\<close>)
  with Inr handle_event_refines [OF assms Inr] show ?thesis by simp
qed

theorem vote_handler_refines_witness:
  "\<exists>s'. handle_event (FromClient 5 (SysOk ''4'') (SysOk 24)) (server_start\<lparr>v_conns := [5]\<rparr>) = Inr s' \<and>
     seated (election_of s') = [5 \<mapsto> 4] \<and> online (election_of s') = {5}"
proof -
  let ?s = "server_start\<lparr>v_conns := [5]\<rparr>" and ?e = "FromClient 5 (SysOk ''4'') (SysOk 24)"
  have inv: "vote_inv ?s" using vote_inv_start by (auto simp: vote_inv_def server_start_def)
  have k: "kernel_event ?s ?e" by simp
  have seats: "seat_map (replicate MAX_EVENTS (-1)) = Map.empty"
    by (auto simp: seat_map_def fun_eq_iff)
  have four: "schar (CHR ''4'') = 52" by (simp add: schar_def Let_def)
  from vote_handler_refines [OF inv k] show ?thesis
    by (auto simp: spec_byte_def digit_in_simps four election_of_def server_start_def seats)
qed

text \<open>
  C32: the winner. With every vote a candidate or 0, the tally stays inside \<open>score\<close>, the scores add
  up to the number of electors who have voted, nobody is announced exactly when nobody has
  voted, and otherwise the announced candidate is the first one with the most supporters.
\<close>

theorem vote_winner:
  assumes "set vs \<subseteq> {0..3}"
  shows "\<exists>score. tally vs = Some score \<and> sum_list score = length (filter (\<lambda>v. v > 0) vs) \<and>
     (winner_of score = -1 \<longleftrightarrow> set vs \<subseteq> {0}) \<and>
     (winner_of score \<noteq> -1 \<longrightarrow>
        (\<exists>w \<in> {1, 2, 3}. winner_of score = int w \<and>
           (\<forall>c \<in> {1, 2, 3}. supporters vs c \<le> supporters vs w \<and> (c < w \<longrightarrow> supporters vs c < supporters vs w))))"
proof -
  have none: "supporters vs 1 = 0 \<and> supporters vs 2 = 0 \<and> supporters vs 3 = 0 \<longleftrightarrow> set vs \<subseteq> {0}"
    using assms by (induction vs) (auto simp: supporters_def)
  show ?thesis
    using tally_ok [OF assms] supporters_total [OF assms] none
    by (intro exI [of _ "[supporters vs 1, supporters vs 2, supporters vs 3]"])
      (auto simp: winner_of_3)
qed

theorem vote_winner_witness:
  "\<exists>score. tally [0, 2, 0, 3, 2, 0, 0] = Some score \<and> sum_list score = 3 \<and> winner_of score = 2"
proof -
  have "tally [0, 2, 0, 3, 2, 0, 0] = Some [0, 2, 1]"
    by (simp add: tally_ok supporters_def)
  with vote_winner [of "[0, 2, 0, 3, 2, 0, 0]"] show ?thesis by (auto simp: winner_of_3)
qed



text \<open>
  \<open>main\<close> does not join the UDP thread. There is a run in which SIGINT ends the TCP thread while
  the UDP thread is in \<open>msleep\<close>, and the UDP thread then locks a destroyed mutex and reads the
  votes \<open>main\<close> has already freed.
\<close>

lemma vote_use_after_free:
  "\<exists>g. vprog_step\<^sup>*\<^sup>* vprog_start g \<and> g_stale g \<and> g_udp g = USend (-1)"
proof -
  let ?g1 = "udp_next (udp_next vprog_start)"
  let ?g2 = "?g1\<lparr>g_glob := False\<rparr>"
  let ?g3 = "tcp_top ?g2"
  let ?g4 = "?g3\<lparr>g_tcp := TFreed\<rparr>"
  let ?g5 = "udp_next ?g4"
  have t: "tally (replicate 7 0) = Some [0, 0, 0]"
    using tally_ok [of "replicate 7 0"] by (simp add: supporters_def)
  note defs = vprog_start_def udp_next_def server_start_def MAX_EVENTS_def tcp_top_def t winner_of_3 Let_def
  have "vprog_step vprog_start (udp_next vprog_start)" by (rule vprog_step.udp) (simp_all add: defs)
  moreover have "vprog_step (udp_next vprog_start) ?g1" by (rule vprog_step.udp) (simp_all add: defs)
  moreover have "vprog_step ?g1 ?g2" by (rule vprog_step.sigint) (simp_all add: defs)
  moreover have "vprog_step ?g2 ?g3" by (rule vprog_step.top) (simp_all add: defs)
  moreover have "vprog_step ?g3 ?g4" by (rule vprog_step.free_votes) (simp_all add: defs)
  moreover have "vprog_step ?g4 ?g5" by (rule vprog_step.udp) (simp_all add: defs)
  ultimately have "vprog_step\<^sup>*\<^sup>* vprog_start ?g5"
    by (meson converse_rtranclp_into_rtranclp rtranclp.rtrancl_refl)
  moreover have "g_stale ?g5 \<and> g_udp ?g5 = USend (-1)" by (simp add: defs)
  ultimately show ?thesis by blast
qed

end
