(* ===== verification/Wire.thy ===== *)
theory Wire
  imports Prelude
begin

section \<open>Integers on the wire\<close>

text \<open>
  The network programs of \<open>sop2/lab04\<close> put 32-bit integers into their buffers with \<open>htonl\<close> and
  take them out with \<open>ntohl\<close>: four bytes, the most significant first.
\<close>

definition put32 :: "32 word \<Rightarrow> string" where
  "put32 w = map (\<lambda>k. char_of (unat w div 256 ^ k mod 256)) [3, 2, 1, 0]"

fun get32 :: "string \<Rightarrow> 32 word" where
  "get32 (a # b # c # d # rest) =
     word_of_nat (((of_char a * 256 + of_char b) * 256 + of_char c) * 256 + of_char d)"
| "get32 _ = 0"

lemma length_put32 [simp]: "length (put32 w) = 4"
  by (simp add: put32_def)

lemma four_digits:
  "((n div 256 ^ 3 mod 256 * 256 + n div 256 ^ 2 mod 256) * 256 + n div 256 ^ 1 mod 256) * 256
     + n div 256 ^ 0 mod 256 = n" if "n < 2 ^ 32" for n :: nat
proof -
  have top: "n div 256 ^ 3 mod 256 = n div 256 ^ 3"
    using that by (intro mod_less) (simp add: less_mult_imp_div_less)
  have step: "n div 256 ^ Suc k * 256 + n div 256 ^ k mod 256 = n div 256 ^ k" for k
  proof -
    have "n div 256 ^ Suc k = n div 256 ^ k div 256"
      by (simp only: power_Suc2 div_mult2_eq)
    then show ?thesis by simp
  qed
  show ?thesis
    using top step [of 2] step [of 1] step [of 0]
    by (simp only: numeral_3_eq_3 numeral_2_eq_2 One_nat_def power_0 div_by_Suc_0)
qed

lemma get32_put32 [simp]: "get32 (put32 w @ rest) = w"
proof -
  have "unat w < 2 ^ 32" using unsigned_less [of w] by simp
  from four_digits [OF this] show ?thesis
    by (simp add: put32_def del: power_numeral)
qed

lemma get32_append: "4 \<le> length xs \<Longrightarrow> get32 (xs @ ys) = get32 xs"
  by (induction xs rule: get32.induct) simp_all

lemma get32_take: "4 \<le> n \<Longrightarrow> 4 \<le> length xs \<Longrightarrow> get32 (take n xs) = get32 xs"
  using get32_append [of "take n xs" "drop n xs"] by simp

end
