(* ===== verification/UdpTransfer.thy ===== *)
theory UdpTransfer
  imports SopIO Wire
begin

section \<open>The file transfer over UDP\<close>

text \<open>
  \<open>sop2/lab04/udp_test\<close>: the client cuts a file into chunks of 568 bytes and sends each of them
  until the server echoes its number, at most six times; the server prints the chunks of up to
  five clients in order. First the two programs, then the pair of them over a network that
  loses, repeats and reorders datagrams.
\<close>

subsection \<open>The server\<close>

definition MAXBUF :: nat where "MAXBUF = 576"
definition MAXADDR :: nat where "MAXADDR = 5"

text \<open>An IPv4 address and a port.\<close>

type_synonym sockaddr = "32 word \<times> 16 word"

record conn =
  c_free :: bool
  c_chunkNo :: int
  c_addr :: sockaddr

text \<open>The scan of \<open>findIndex\<close>, from index \<open>i\<close> on, with the last free slot seen so far.\<close>

fun scan_conns :: "sockaddr \<Rightarrow> conn list \<Rightarrow> nat \<Rightarrow> nat option \<Rightarrow> nat option \<times> nat option" where
  "scan_conns addr [] i empt = (None, empt)"
| "scan_conns addr (c # con) i empt =
     (if c_free c then scan_conns addr con (i + 1) (Some i)
      else if c_addr c = addr then (Some i, empt)
      else scan_conns addr con (i + 1) empt)"

definition findIndex :: "sockaddr \<Rightarrow> conn list \<Rightarrow> nat option \<times> conn list" where
  "findIndex addr con =
     (case scan_conns addr con 0 None of
        (None, Some e) \<Rightarrow> (Some e, con[e := \<lparr>c_free = False, c_chunkNo = 0, c_addr = addr\<rparr>])
      | (pos, _) \<Rightarrow> (pos, con))"

text \<open>
  A \<open>printf\<close> of the server: its number, whether it is the last part, and the bytes \<open>%s\<close> was
  pointed at.
\<close>

datatype part = Part (part_from: sockaddr) (part_no: int) (part_last: bool) (part_bytes: string)

text \<open>What \<open>%s\<close> shows of the rest of the buffer; without a NUL in it, it reads on past the buffer.\<close>

definition shown :: "string \<Rightarrow> string option" where
  "shown bytes = (if NUL \<in> set bytes then Some (cstr bytes) else None)"

definition chunk_no :: "string \<Rightarrow> int" where
  "chunk_no buf = sint (get32 buf)"

definition chunk_last :: "string \<Rightarrow> bool" where
  "chunk_last buf \<longleftrightarrow> get32 (drop 4 buf) \<noteq> 0"

definition chunk_text :: "string \<Rightarrow> string" where
  "chunk_text buf = drop 8 buf"

text \<open>\<open>recvfrom\<close> overwrites the start of the buffer with what arrived.\<close>

definition recv_into :: "string \<Rightarrow> string \<Rightarrow> string" where
  "recv_into buf d = take MAXBUF d @ drop (length d) buf"

text \<open>
  One turn of \<open>doServer\<close> with the datagram in \<open>buf\<close> from \<open>addr\<close>; \<open>snd\<close> is what \<open>sendto\<close> would
  return. The result is the table, what is printed and what is sent back.
\<close>

definition doServer_turn ::
  "sockaddr \<Rightarrow> string \<Rightarrow> unit sysres \<Rightarrow> conn list \<Rightarrow> (conn list \<times> part list \<times> string option) or_err" where
  "doServer_turn addr buf snd_res con =
     (case findIndex addr con of
        (None, con) \<Rightarrow> Inr (con, [], None)
      | (Some i, con) \<Rightarrow>
          let chunkNo = chunk_no buf; last = chunk_last buf in
          if chunkNo > c_chunkNo (con ! i) + 1 then Inr (con, [], None)
          else
            let (con, out) =
              (if chunkNo = c_chunkNo (con ! i) + 1
               then (con[i := (con ! i)\<lparr>c_free := last \<or> c_free (con ! i), c_chunkNo := c_chunkNo (con ! i) + 1\<rparr>],
                     [Part addr chunkNo last (chunk_text buf)])
               else (con, [])) in
            (case snd_res of
               SysOk _ \<Rightarrow> Inr (con, out, Some buf)
             | SysErr e \<Rightarrow>
                 if e = EPIPE then Inr (con[i := (con ! i)\<lparr>c_free := True\<rparr>], out, None) else ERR ''send''))"

definition doServer_start :: "conn list \<Rightarrow> conn list" where
  "doServer_start con = map (\<lambda>c. c\<lparr>c_free := True\<rparr>) con"

subsection \<open>The client\<close>

text \<open>
  \<open>TxLoad\<close>: in front of \<open>bulk_read\<close> of the next chunk; \<open>TxSend\<close>: in front of \<open>sendto\<close>;
  \<open>TxWait\<close>: in \<open>recv\<close>; then the two ways out of \<open>doClient\<close>.
\<close>

datatype client_pc = TxLoad | TxSend | TxWait | TxDone | TxGiveUp

record client =
  x_file :: string
  x_buf :: string
  x_buf2 :: string
  x_size :: nat
  x_chunkNo :: int
  x_counter :: nat
  x_pc :: client_pc

definition OFFSET :: nat where "OFFSET = 8"

definition client_start :: "string \<Rightarrow> client" where
  "client_start file = \<lparr>x_file = file, x_buf = replicate MAXBUF NUL,
     x_buf2 = replicate MAXBUF NUL, x_size = 0, x_chunkNo = 0,
     x_counter = 0, x_pc = TxLoad\<rparr>"

text \<open>
  The read and the header of a chunk: the number, the flag, the bytes, and zeros up to the end.
  \<open>last\<close> is never reset, but the loop ends with the first short chunk.
\<close>

definition make_chunk :: "int \<Rightarrow> string \<Rightarrow> string" where
  "make_chunk no bytes =
     put32 (word_of_int no) @ put32 (if length bytes < MAXBUF - OFFSET then 1 else 0) @ bytes @
       replicate (MAXBUF - OFFSET - length bytes) NUL"

definition load_chunk :: "client \<Rightarrow> client" where
  "load_chunk x =
     (let bytes = take (MAXBUF - OFFSET) (x_file x) in
      x\<lparr>x_file := drop (MAXBUF - OFFSET) (x_file x), x_size := length bytes,
        x_chunkNo := x_chunkNo x + 1, x_buf := make_chunk (x_chunkNo x + 1) bytes,
        x_buf2 := replicate MAXBUF NUL, x_counter := 0, x_pc := TxSend\<rparr>)"

definition send_chunk :: "client \<Rightarrow> client" where
  "send_chunk x = x\<lparr>x_counter := x_counter x + 1, x_pc := TxWait\<rparr>"

text \<open>
  \<open>sendAndConfirm\<close> returns with a datagram in \<open>buf2\<close>, or after SIGALRM with \<open>buf2\<close> as it was; then
  the tests of the two inner conditions.
\<close>

definition confirm :: "client \<Rightarrow> client" where
  "confirm x =
     (if get32 (x_buf2 x) \<noteq> word_of_int (x_chunkNo x)
      then if x_counter x \<le> 5 then x\<lparr>x_pc := TxSend\<rparr> else x\<lparr>x_pc := TxGiveUp\<rparr>
      else if x_size x = MAXBUF - OFFSET then x\<lparr>x_pc := TxLoad\<rparr>
      else x\<lparr>x_pc := TxDone\<rparr>)"

definition recv_reply :: "string \<Rightarrow> client \<Rightarrow> client" where
  "recv_reply d x = confirm (x\<lparr>x_buf2 := recv_into (x_buf2 x) d\<rparr>)"

subsection \<open>The table of clients as a map\<close>

definition active :: "conn \<Rightarrow> sockaddr \<Rightarrow> bool" where
  "active c a \<longleftrightarrow> \<not> c_free c \<and> c_addr c = a"

definition slots :: "conn list \<Rightarrow> sockaddr \<Rightarrow> int set" where
  "slots con a = {c_chunkNo (con ! i) | i. i < length con \<and> active (con ! i) a}"

definition uniq :: "conn list \<Rightarrow> bool" where
  "uniq con \<longleftrightarrow> (\<forall>i j a. i < length con \<and> j < length con \<and> active (con ! i) a \<and> active (con ! j) a \<longrightarrow> i = j)"

lemma uniqD:
  "uniq con \<Longrightarrow> active (con ! i) a \<Longrightarrow> active (con ! j) a \<Longrightarrow> i < length con \<Longrightarrow> j < length con \<Longrightarrow> i = j"
  unfolding uniq_def by blast

lemma active_same: "active c a \<Longrightarrow> active c b \<Longrightarrow> a = b"
  by (simp add: active_def)

lemma scan_Some:
  "scan_conns a con i e = (Some p, e') \<Longrightarrow> \<exists>k < length con. p = i + k \<and> active (con ! k) a"
proof (induction a con i e rule: scan_conns.induct)
  case (2 a c con i e)
  show ?case
  proof (cases "\<not> c_free c \<and> c_addr c = a")
    case True
    with "2.prems" show ?thesis by (auto simp: active_def)
  next
    case False
    with 2 obtain k where "k < length con" "p = i + 1 + k" "active (con ! k) a"
      by (auto split: if_splits)
    then show ?thesis by (intro exI [of _ "Suc k"]) simp
  qed
qed simp

lemma scan_None:
  "scan_conns a con i e = (None, e') \<Longrightarrow>
     (\<forall>c \<in> set con. \<not> active c a) \<and>
     (e' = e \<and> (\<forall>c \<in> set con. \<not> c_free c) \<or> (\<exists>k < length con. e' = Some (i + k) \<and> c_free (con ! k)))"
proof (induction a con i e rule: scan_conns.induct)
  case (2 a c con i e)
  then have na: "\<not> active c a" by (auto simp: active_def split: if_splits)
  let ?rest = "\<lambda>e. e' = e \<and> (\<forall>c \<in> set con. \<not> c_free c) \<or>
     (\<exists>k < length con. e' = Some (i + 1 + k) \<and> c_free (con ! k))"
  show ?case
  proof (cases "c_free c")
    case True
    with 2 have n: "\<forall>c \<in> set con. \<not> active c a" and "?rest (Some i)" by auto
    then have "\<exists>k < length (c # con). e' = Some (i + k) \<and> c_free ((c # con) ! k)"
    proof (elim disjE exE conjE)
      fix k assume "k < length con" "e' = Some (i + 1 + k)" "c_free (con ! k)"
      then show ?thesis by (intro exI [of _ "Suc k"]) simp
    qed (use True in \<open>auto intro: exI [of _ 0]\<close>)
    with na n show ?thesis by simp
  next
    case False
    with 2 na have n: "\<forall>c \<in> set con. \<not> active c a" and "?rest e" by (auto simp: active_def)
    from this(2) have "e' = e \<and> (\<forall>d \<in> set (c # con). \<not> c_free d) \<or>
        (\<exists>k < length (c # con). e' = Some (i + k) \<and> c_free ((c # con) ! k))"
    proof (elim disjE exE conjE)
      fix k assume "k < length con" "e' = Some (i + 1 + k)" "c_free (con ! k)"
      then show ?thesis by (intro disjI2 exI [of _ "Suc k"]) simp
    qed (use False in simp)
    with na n show ?thesis by simp
  qed
qed simp

text \<open>One slot changes and stays with its address: nothing else does.\<close>

lemma slot_update:
  assumes "uniq con" and "i < length con" and "active (con ! i) a \<or> c_free (con ! i) \<and> slots con a = {}"
    and "\<not> c_free c \<longrightarrow> c_addr c = a"
  shows "uniq (con[i := c])" "a' \<noteq> a \<Longrightarrow> slots (con[i := c]) a' = slots con a'"
    "slots (con[i := c]) a = (if c_free c then {} else {c_chunkNo c})"
proof -
  have others: "\<not> active (con ! j) a" if "j < length con" "j \<noteq> i" for j
    using assms(1-3) that uniqD [of con i a j] by (auto simp: slots_def)
  have notb: "\<not> active (con ! i) b" if "b \<noteq> a" for b
    using assms(3) that active_same [of "con ! i" a b] by (auto simp: active_def)
  have c: "active c b \<longleftrightarrow> \<not> c_free c \<and> b = a" for b
    using assms(4) by (auto simp: active_def)
  show "uniq (con[i := c])"
    unfolding uniq_def
  proof (intro allI impI, elim conjE)
    fix j k b
    assume j: "j < length (con[i := c])" "active (con[i := c] ! j) b"
      and k: "k < length (con[i := c])" "active (con[i := c] ! k) b"
    show "j = k"
    proof (cases "j = i \<or> k = i")
      case True
      with j k assms(2) have "active c b" by auto
      then have "b = a" using c [of b] by blast
      with True j k others show ?thesis by (metis length_list_update nth_list_update_neq)
    next
      case False
      with j k uniqD [OF assms(1), of j b k] show ?thesis by simp
    qed
  qed
  show "slots (con[i := c]) a' = slots con a'" if "a' \<noteq> a"
  proof -
    have "active (con[i := c] ! j) a' = active (con ! j) a' \<and>
        (active (con ! j) a' \<longrightarrow> con[i := c] ! j = con ! j)" if "j < length con" for j
      using that \<open>a' \<noteq> a\<close> notb c by (cases "j = i") auto
    then show ?thesis unfolding slots_def by (intro Collect_cong) (metis length_list_update)
  qed
  have "active (con[i := c] ! j) a \<longleftrightarrow> j = i \<and> \<not> c_free c" if "j < length con" for j
    using that others c [of a] by (cases "j = i") auto
  then show "slots (con[i := c]) a = (if c_free c then {} else {c_chunkNo c})"
    using assms(2) by (auto simp: slots_def intro!: exI [of _ i])
qed

lemma findIndex_spec:
  assumes "uniq con"
  obtains "findIndex a con = (None, con)" "slots con a = {}" "\<forall>c \<in> set con. \<not> c_free c"
  | i con' where "findIndex a con = (Some i, con')" "i < length con'" "length con' = length con"
      "uniq con'" "active (con' ! i) a" "\<And>b. b \<noteq> a \<Longrightarrow> slots con' b = slots con b"
      "slots con' a = {c_chunkNo (con' ! i)}"
      "slots con a = {c_chunkNo (con' ! i)} \<or> slots con a = {} \<and> c_chunkNo (con' ! i) = 0"
proof -
  obtain pos e where scan: "scan_conns a con 0 None = (pos, e)" by fastforce
  show thesis
  proof (cases pos)
    case (Some p)
    with scan_Some scan have p: "p < length con" "active (con ! p) a" by fastforce+
    have "slots con a = {c_chunkNo (con ! p)}"
    proof -
      have "j = p" if "j < length con" "active (con ! j) a" for j
        by (rule uniqD [OF assms that(2) p(2) that(1) p(1)])
      with p(1,2) show ?thesis unfolding slots_def by blast
    qed
    then show thesis
      by (intro that(2) [of p con]) (use scan Some p assms in \<open>simp_all add: findIndex_def\<close>)
  next
    case None
    note sn = scan_None [OF scan [unfolded None]]
    then have empty: "slots con a = {}" by (auto simp: slots_def)
    show thesis
    proof (cases e)
      case None
      with sn scan \<open>pos = None\<close> empty that(1) show thesis by (auto simp: findIndex_def)
    next
      case (Some k)
      with sn have k: "k < length con" "c_free (con ! k)" by auto
      let ?c = "\<lparr>c_free = False, c_chunkNo = 0, c_addr = a\<rparr>"
      have u: "active (con ! k) a \<or> c_free (con ! k) \<and> slots con a = {}" using k empty by simp
      note upd = slot_update [OF assms k(1) u, of ?c]
      show thesis
        by (intro that(2) [of k "con[k := ?c]"])
          (use scan Some \<open>pos = None\<close> k upd empty in \<open>simp_all add: findIndex_def active_def\<close>)
    qed
  qed
qed

text \<open>
  One turn, as seen by the map: the sender's slot is opened at 0 if there is room; a chunk from
  the future is dropped without an answer; the next chunk is printed, and its slot closed if it
  is the last one; it and every earlier chunk are echoed. Other senders' slots do not change.
\<close>

definition turn_ok ::
  "sockaddr \<Rightarrow> string \<Rightarrow> int set \<Rightarrow> int set \<Rightarrow> part list \<Rightarrow> string option \<Rightarrow> bool" where
  "turn_ok a buf old new out rep \<longleftrightarrow>
     (\<exists>c. (old = {c} \<or> old = {} \<and> c = 0) \<and>
        (if chunk_no buf > c + 1 then new = {c} \<and> out = [] \<and> rep = None
         else if chunk_no buf = c + 1
         then new = (if chunk_last buf then {} else {c + 1}) \<and> rep = Some buf \<and>
              out = [Part a (c + 1) (chunk_last buf) (chunk_text buf)]
         else new = {c} \<and> out = [] \<and> rep = Some buf))"

lemma doServer_turn_spec:
  assumes "uniq con"
  obtains "doServer_turn a buf (SysOk u) con = Inr (con, [], None)" "slots con a = {}"
      "\<forall>c \<in> set con. \<not> c_free c"
  | con' out rep where "doServer_turn a buf (SysOk u) con = Inr (con', out, rep)" "uniq con'"
      "\<And>b. b \<noteq> a \<Longrightarrow> slots con' b = slots con b"
      "turn_ok a buf (slots con a) (slots con' a) out rep"
      "out \<noteq> [] \<Longrightarrow> chunk_last buf \<Longrightarrow> \<exists>c \<in> set con'. c_free c"
proof (cases rule: findIndex_spec [OF assms, of a])
  case 1
  then show thesis by (intro that(1)) (simp_all add: doServer_turn_def)
next
  case (2 i con1)
  let ?c = "c_chunkNo (con1 ! i)"
  let ?new = "(con1 ! i)\<lparr>c_free := chunk_last buf, c_chunkNo := ?c + 1\<rparr>"
  note upd = slot_update [OF 2(4,2), of a ?new]
  have nf: "\<not> c_free (con1 ! i)" "c_addr (con1 ! i) = a" using 2(5) by (simp_all add: active_def)
  consider "chunk_no buf > ?c + 1" | "chunk_no buf = ?c + 1" | "chunk_no buf < ?c + 1" by linarith
  then show thesis
  proof cases
    case 2
    have t: "doServer_turn a buf (SysOk u) con =
        Inr (con1[i := ?new], [Part a (?c + 1) (chunk_last buf) (chunk_text buf)], Some buf)"
      using \<open>findIndex a con = (Some i, con1)\<close> 2 nf by (simp add: doServer_turn_def Let_def)
    have "?new \<in> set (con1[i := ?new])" using \<open>i < length con1\<close> by (rule set_update_memI)
    then have "chunk_last buf \<Longrightarrow> \<exists>c \<in> set (con1[i := ?new]). c_free c"
      by (intro bexI [of _ ?new]) simp_all
    then show thesis
      by (intro that(2) [OF t]) (use upd nf 2 \<open>active (con1 ! i) a\<close> \<open>\<And>b. b \<noteq> a \<Longrightarrow> slots con1 b = slots con b\<close>
          \<open>slots con a = {?c} \<or> slots con a = {} \<and> ?c = 0\<close> in \<open>auto simp: turn_ok_def intro!: exI [of _ ?c]\<close>)
  next
    case 1
    have t: "doServer_turn a buf (SysOk u) con = Inr (con1, [], None)"
      using \<open>findIndex a con = (Some i, con1)\<close> 1 by (simp add: doServer_turn_def Let_def)
    show thesis
      by (rule that(2) [OF t]) (use 1 2 in \<open>auto simp: turn_ok_def intro!: exI [of _ ?c]\<close>)
  next
    case 3
    have t: "doServer_turn a buf (SysOk u) con = Inr (con1, [], Some buf)"
      using \<open>findIndex a con = (Some i, con1)\<close> 3 by (simp add: doServer_turn_def Let_def)
    show thesis
      by (rule that(2) [OF t]) (use 3 2 in \<open>auto simp: turn_ok_def intro!: exI [of _ ?c]\<close>)
  qed
qed

subsection \<open>The chunks of a file\<close>

function chunks_from :: "int \<Rightarrow> string \<Rightarrow> string list" where
  "chunks_from m bs =
     make_chunk (m + 1) (take (MAXBUF - OFFSET) bs) #
       (if length bs < MAXBUF - OFFSET then [] else chunks_from (m + 1) (drop (MAXBUF - OFFSET) bs))"
  by auto
termination
  by (relation "measure (\<lambda>(m, bs). length bs)") (auto simp: MAXBUF_def OFFSET_def)

declare chunks_from.simps [simp del]

definition chunks :: "string \<Rightarrow> string list" where
  "chunks bs = chunks_from 0 bs"

lemma length_make_chunk:
  "length bytes \<le> MAXBUF - OFFSET \<Longrightarrow> length (make_chunk m bytes) = MAXBUF"
  by (simp add: make_chunk_def MAXBUF_def OFFSET_def)

lemma make_chunk_fields:
  "get32 (make_chunk m bytes) = word_of_int m"
  "chunk_last (make_chunk m bytes) = (length bytes < MAXBUF - OFFSET)"
  "chunk_text (make_chunk m bytes) = bytes @ replicate (MAXBUF - OFFSET - length bytes) NUL"
  by (simp_all add: make_chunk_def chunk_last_def chunk_text_def)

lemma length_chunks_from: "length (chunks_from m bs) = length bs div (MAXBUF - OFFSET) + 1"
proof (induction m bs rule: chunks_from.induct)
  case (1 m bs)
  show ?case
  proof (cases "length bs < MAXBUF - OFFSET")
    case False
    with 1 show ?thesis
      by (subst chunks_from.simps) (simp add: MAXBUF_def OFFSET_def le_div_geq)
  qed (simp add: chunks_from.simps)
qed

lemma nth_chunks_from:
  "k < length (chunks_from m bs) \<Longrightarrow>
     chunks_from m bs ! k = make_chunk (m + int k + 1) (take (MAXBUF - OFFSET) (drop (k * (MAXBUF - OFFSET)) bs))"
proof (induction m bs arbitrary: k rule: chunks_from.induct)
  case (1 m bs)
  show ?case
  proof (cases k)
    case 0
    then show ?thesis by (simp add: chunks_from.simps [of m bs])
  next
    case (Suc j)
    with "1.prems" have "\<not> length bs < MAXBUF - OFFSET"
      and j: "j < length (chunks_from (m + 1) (drop (MAXBUF - OFFSET) bs))"
      by (auto simp: chunks_from.simps [of m bs] split: if_splits)
    with "1.IH" [OF this] Suc show ?thesis
      by (simp add: chunks_from.simps [of m bs] add.assoc add.commute [of "j * (MAXBUF - OFFSET)"])
  qed
qed

lemma nth_chunks:
  "k < length (chunks bs) \<Longrightarrow>
     chunks bs ! k = make_chunk (int k + 1) (take (MAXBUF - OFFSET) (drop (k * (MAXBUF - OFFSET)) bs))"
  using nth_chunks_from [of k 0 bs] by (simp add: chunks_def)

lemma length_chunks: "length (chunks bs) = length bs div (MAXBUF - OFFSET) + 1"
  by (simp add: chunks_def length_chunks_from)

subsection \<open>Both programs and the network between them\<close>

text \<open>
  \<open>n_to_server\<close> and \<open>n_to_client\<close> hold every datagram ever sent: the network delivers any of them,
  any number of times, in any order, or not at all. Other clients send the server whatever they
  like, from addresses of their own.
\<close>

record transfer =
  n_client :: client
  n_table :: "conn list"
  n_buf :: string \<comment> \<open>the server's \<open>buf\<close>\<close>
  n_to_server :: "string list"
  n_to_client :: "string list"
  n_out :: "part list"

definition transfer_start :: "conn list \<Rightarrow> string \<Rightarrow> string \<Rightarrow> transfer" where
  "transfer_start con buf bs =
     \<lparr>n_client = client_start bs, n_table = doServer_start con, n_buf = buf, n_to_server = [],
      n_to_client = [], n_out = []\<rparr>"

definition serve :: "sockaddr \<Rightarrow> sockaddr \<Rightarrow> string \<Rightarrow> transfer \<Rightarrow> transfer option" where
  "serve me a d n =
     (let buf = recv_into (n_buf n) d in
      case doServer_turn a buf (SysOk ()) (n_table n) of
        Inl _ \<Rightarrow> None
      | Inr (con, out, rep) \<Rightarrow>
          Some (n\<lparr>n_table := con, n_buf := buf, n_out := n_out n @ out,
                  n_to_client := n_to_client n @ (case rep of Some r \<Rightarrow> if a = me then [r] else [] | None \<Rightarrow> [])\<rparr>))"

inductive transfer_step :: "sockaddr \<Rightarrow> transfer \<Rightarrow> transfer \<Rightarrow> bool" for me where
  load: "x_pc (n_client n) = TxLoad \<Longrightarrow> transfer_step me n (n\<lparr>n_client := load_chunk (n_client n)\<rparr>)"
| send: "x_pc (n_client n) = TxSend \<Longrightarrow>
     transfer_step me n (n\<lparr>n_client := send_chunk (n_client n),
        n_to_server := n_to_server n @ [x_buf (n_client n)]\<rparr>)"
| reply: "x_pc (n_client n) = TxWait \<Longrightarrow> d \<in> set (n_to_client n) \<Longrightarrow>
     transfer_step me n (n\<lparr>n_client := recv_reply d (n_client n)\<rparr>)"
| timeout: "x_pc (n_client n) = TxWait \<Longrightarrow>
     transfer_step me n (n\<lparr>n_client := confirm (n_client n)\<rparr>)"
| arrive: "d \<in> set (n_to_server n) \<Longrightarrow> serve me me d n = Some n' \<Longrightarrow> transfer_step me n n'"
| other: "a \<noteq> me \<Longrightarrow> serve me a d n = Some n' \<Longrightarrow> transfer_step me n n'"

subsection \<open>The invariant\<close>

definition mine :: "sockaddr \<Rightarrow> part list \<Rightarrow> part list" where
  "mine me out = filter (\<lambda>p. part_from p = me) out"

text \<open>What the server prints for the first \<open>k\<close> chunks.\<close>

definition parts :: "sockaddr \<Rightarrow> string \<Rightarrow> part list" where
  "parts me bs =
     map (\<lambda>k. Part me (int k + 1) (k + 1 = length (chunks bs)) (chunk_text (chunks bs ! k)))
       [0..<length (chunks bs)]"

definition client_inv :: "string \<Rightarrow> nat \<Rightarrow> client \<Rightarrow> bool" where
  "client_inv bs p x \<longleftrightarrow>
     (\<exists>k \<le> length (chunks bs). x_chunkNo x = int k \<and> x_file x = drop (k * (MAXBUF - OFFSET)) bs \<and>
        length (x_buf2 x) = MAXBUF \<and>
        (get32 (x_buf2 x) = 0 \<or> x_buf2 x \<in> set (take p (chunks bs))) \<and>
        (if x_pc x = TxLoad then k < length (chunks bs) \<and> k \<le> p
         else 0 < k \<and> k \<le> p + 1 \<and> x_buf x = chunks bs ! (k - 1) \<and>
           (x_size x = MAXBUF - OFFSET \<longleftrightarrow> k < length (chunks bs))) \<and>
        (x_pc x = TxDone \<longrightarrow> length (chunks bs) \<le> p))"

definition server_inv :: "sockaddr \<Rightarrow> string \<Rightarrow> int set \<Rightarrow> part list \<Rightarrow> bool" where
  "server_inv me bs slot out \<longleftrightarrow>
     (if length out < length (chunks bs)
      then out = take (length out) (parts me bs) \<and>
        (slot = {int (length out)} \<or> length out = 0 \<and> slot = {})
      else take (length (chunks bs)) out = parts me bs)"

definition transfer_inv :: "sockaddr \<Rightarrow> string \<Rightarrow> transfer \<Rightarrow> bool" where
  "transfer_inv me bs n \<longleftrightarrow>
     (let p = length (mine me (n_out n)) in
        uniq (n_table n) \<and> length (n_buf n) = MAXBUF \<and> client_inv bs p (n_client n) \<and>
        set (n_to_server n) \<subseteq> set (take (nat (x_chunkNo (n_client n))) (chunks bs)) \<and>
        set (n_to_client n) \<subseteq> set (take p (chunks bs)) \<and>
        server_inv me bs (slots (n_table n) me) (mine me (n_out n)))"

subsection \<open>The invariant is kept\<close>

text \<open>Files whose chunk numbers fit into \<open>int32_t\<close>.\<close>

definition small_file :: "string \<Rightarrow> bool" where
  "small_file bs \<longleftrightarrow> length (chunks bs) < 2 ^ 31"

lemma sint_small: "0 \<le> i \<Longrightarrow> i < 2 ^ 31 \<Longrightarrow> sint (word_of_int i :: 32 word) = i"
  by (simp add: sint_fits)

lemma word_small_eq:
  assumes "0 \<le> i" "i < 2 ^ 31" "0 \<le> j" "j < 2 ^ 31"
  shows "(word_of_int i :: 32 word) = word_of_int j \<longleftrightarrow> i = j"
  using sint_small [OF assms(1,2)] sint_small [OF assms(3,4)] by metis

lemma chunks_nth_fields:
  assumes "small_file bs" and "j < length (chunks bs)"
  shows "get32 (chunks bs ! j) = word_of_int (int j + 1)" "chunk_no (chunks bs ! j) = int j + 1"
    "chunk_last (chunks bs ! j) \<longleftrightarrow> j + 1 = length (chunks bs)" "length (chunks bs ! j) = MAXBUF"
proof -
  show g: "get32 (chunks bs ! j) = word_of_int (int j + 1)"
    using assms(2) by (simp add: nth_chunks make_chunk_fields)
  show "chunk_no (chunks bs ! j) = int j + 1"
    using assms sint_small [of "int j + 1"] by (simp only: chunk_no_def g) (simp add: small_file_def)
  let ?n = "MAXBUF - OFFSET"
  have "0 < ?n" by (simp add: MAXBUF_def OFFSET_def)
  then have "length bs < (j + 1) * ?n \<longleftrightarrow> length bs div ?n < j + 1"
    by (simp add: div_less_iff_less_mult)
  then show "chunk_last (chunks bs ! j) \<longleftrightarrow> j + 1 = length (chunks bs)"
    using assms(2) \<open>0 < ?n\<close> by (auto simp: nth_chunks make_chunk_fields length_chunks)
  show "length (chunks bs ! j) = MAXBUF"
    using assms(2) by (simp add: nth_chunks length_make_chunk)
qed

lemma in_take_chunks:
  "d \<in> set (take p (chunks bs)) \<longleftrightarrow> (\<exists>j. j < p \<and> j < length (chunks bs) \<and> d = chunks bs ! j)"
  by (auto simp: in_set_conv_nth)

lemma recv_into_full: "length d = MAXBUF \<Longrightarrow> length buf = MAXBUF \<Longrightarrow> recv_into buf d = d"
  by (simp add: recv_into_def)

lemma length_recv_into: "length buf = MAXBUF \<Longrightarrow> length (recv_into buf d) = MAXBUF"
  by (simp add: recv_into_def)

lemma client_inv_mono: "client_inv bs p x \<Longrightarrow> p \<le> p' \<Longrightarrow> client_inv bs p' x"
  using set_take_subset_set_take [of p p' "chunks bs"] unfolding client_inv_def by fastforce

lemma client_inv_load:
  assumes "client_inv bs p x" and "x_pc x = TxLoad" and "small_file bs"
  shows "client_inv bs p (load_chunk x)"
proof -
  obtain k where k: "x_chunkNo x = int k" "k < length (chunks bs)" "k \<le> p"
      "x_file x = drop (k * (MAXBUF - OFFSET)) bs"
    using assms(1,2) by (auto simp: client_inv_def)
  have buf: "x_buf (load_chunk x) = chunks bs ! k"
    using k by (simp add: load_chunk_def nth_chunks)
  have "x_size (load_chunk x) = MAXBUF - OFFSET \<longleftrightarrow> \<not> chunk_last (chunks bs ! k)"
    using k by (auto simp: load_chunk_def nth_chunks make_chunk_fields)
  then have size: "x_size (load_chunk x) = MAXBUF - OFFSET \<longleftrightarrow> k + 1 < length (chunks bs)"
    using k(2) by (auto simp: chunks_nth_fields [OF assms(3)])
  have "get32 (replicate MAXBUF NUL) = 0" by (simp add: MAXBUF_def numeral_eq_Suc)
  moreover have "x_chunkNo (load_chunk x) = int (k + 1)" "x_pc (load_chunk x) = TxSend"
    "x_file (load_chunk x) = drop ((k + 1) * (MAXBUF - OFFSET)) bs" "x_buf2 (load_chunk x) = replicate MAXBUF NUL"
    using k by (simp_all add: load_chunk_def Let_def add.commute)
  ultimately show ?thesis
    unfolding client_inv_def using k buf size by (intro exI [of _ "k + 1"]) simp
qed

lemma client_inv_confirm:
  assumes "client_inv bs p x" and "x_pc x = TxWait" and "small_file bs"
  shows "client_inv bs p (confirm x)"
proof -
  obtain k where k: "k \<le> length (chunks bs)" "x_chunkNo x = int k" "0 < k" "k \<le> p + 1"
      and b: "get32 (x_buf2 x) = 0 \<or> x_buf2 x \<in> set (take p (chunks bs))"
      and size: "x_size x = MAXBUF - OFFSET \<longleftrightarrow> k < length (chunks bs)"
    using assms(1,2) by (auto simp: client_inv_def)
  have acked: "k \<le> p" if eq: "get32 (x_buf2 x) = word_of_int (int k)"
  proof -
    have "(word_of_int (int k) :: 32 word) \<noteq> word_of_int 0"
      using word_small_eq [of "int k" 0] k assms(3) by (simp add: small_file_def)
    with eq b have "x_buf2 x \<in> set (take p (chunks bs))" by auto
    then obtain j where j: "j < p" "j < length (chunks bs)" "x_buf2 x = chunks bs ! j"
      by (auto simp: in_take_chunks)
    with eq have "(word_of_int (int j + 1) :: 32 word) = word_of_int (int k)"
      by (simp add: chunks_nth_fields [OF assms(3)])
    then have "int j + 1 = int k"
      using word_small_eq [of "int j + 1" "int k"] j k assms(3) by (simp add: small_file_def)
    with j show ?thesis by simp
  qed
  show ?thesis
    using assms(1,2) k size acked unfolding client_inv_def confirm_def
    by (elim exE conjE, intro exI [of _ k]) auto
qed

lemma client_inv_reply:
  assumes "client_inv bs p x" and "x_pc x = TxWait" and "small_file bs"
    and "d \<in> set (take p (chunks bs))"
  shows "client_inv bs p (recv_reply d x)"
proof -
  have "length d = MAXBUF" using assms(4) chunks_nth_fields [OF assms(3)] by (auto simp: in_take_chunks)
  moreover have "length (x_buf2 x) = MAXBUF" using assms(1) by (auto simp: client_inv_def)
  ultimately have r: "recv_into (x_buf2 x) d = d" by (simp add: recv_into_full)
  have "client_inv bs p (x\<lparr>x_buf2 := d\<rparr>)"
    using assms(1,4) \<open>length d = MAXBUF\<close> unfolding client_inv_def by auto
  from client_inv_confirm [OF this] show ?thesis
    using assms(2,3) by (simp add: recv_reply_def r)
qed

lemma length_parts [simp]: "length (parts me bs) = length (chunks bs)"
  by (simp add: parts_def)

lemma turn_ok_from: "turn_ok a buf old new out rep \<Longrightarrow> p \<in> set out \<Longrightarrow> part_from p = a"
  by (auto simp: turn_ok_def split: if_splits)

text \<open>A chunk of the client arrives, of number at most one past what the server has printed.\<close>

lemma server_inv_turn:
  assumes small: "small_file bs" and inv: "server_inv me bs old out"
    and j: "j < length (chunks bs)" "j \<le> length out"
    and t: "turn_ok me (chunks bs ! j) old new out' rep"
  shows "server_inv me bs new (out @ out')"
    and "rep = Some r \<Longrightarrow> r \<in> set (take (length (out @ out')) (chunks bs))"
proof -
  note fields = chunks_nth_fields [OF small j(1)]
  let ?N = "length (chunks bs)"
  have "server_inv me bs new (out @ out') \<and>
      (rep = None \<or> rep = Some (chunks bs ! j) \<and> j < length (out @ out'))"
  proof (cases "length out < ?N")
    case True
    let ?p = "length out"
    from True inv have out: "out = take ?p (parts me bs)"
      and old: "old = {int ?p} \<or> ?p = 0 \<and> old = {}" by (auto simp: server_inv_def)
    from t old have c: "if int j > int ?p then new = {int ?p} \<and> out' = [] \<and> rep = None
         else if j = ?p
         then new = (if j + 1 = ?N then {} else {int ?p + 1}) \<and> rep = Some (chunks bs ! j) \<and>
              out' = [Part me (int ?p + 1) (j + 1 = ?N) (chunk_text (chunks bs ! j))]
         else new = {int ?p} \<and> out' = [] \<and> rep = Some (chunks bs ! j)"
      by (auto simp: turn_ok_def fields split: if_splits)
    show ?thesis
    proof (cases "j = ?p")
      case jp: True
      with c have new: "new = (if j + 1 = ?N then {} else {int ?p + 1})" "rep = Some (chunks bs ! j)"
        and out': "out' = [parts me bs ! ?p]" using True by (simp_all add: parts_def)
      have "out @ out' = take (Suc ?p) (parts me bs)"
        using out out' True by (simp add: take_Suc_conv_app_nth)
      then show ?thesis using new out' jp True by (auto simp: server_inv_def)
    next
      case False
      with c j True out show ?thesis by (simp add: server_inv_def split: if_splits)
    qed
  next
    case False
    with inv t show ?thesis using j
      by (auto simp: server_inv_def turn_ok_def split: if_splits)
  qed
  then show "server_inv me bs new (out @ out')"
    and "rep = Some r \<Longrightarrow> r \<in> set (take (length (out @ out')) (chunks bs))"
    using j by (auto simp: in_take_chunks)
qed

lemma transfer_inv_arrive:
  assumes small: "small_file bs" and inv: "transfer_inv me bs n"
    and d: "d \<in> set (n_to_server n)" and run: "serve me me d n = Some n'"
  shows "transfer_inv me bs n'"
proof -
  let ?p = "length (mine me (n_out n))"
  from inv obtain k where k: "x_chunkNo (n_client n) = int k" "k \<le> ?p + 1 \<or> k \<le> ?p"
    by (auto simp: transfer_inv_def client_inv_def Let_def split: if_splits)
  with inv d have "d \<in> set (take k (chunks bs))" by (auto simp: transfer_inv_def Let_def)
  then obtain j where j: "j < k" "j < length (chunks bs)" "d = chunks bs ! j"
    by (auto simp: in_take_chunks)
  have u: "uniq (n_table n)" and buf: "recv_into (n_buf n) d = d"
    using inv chunks_nth_fields(4) [OF small j(2)] j(3)
    by (simp_all add: transfer_inv_def Let_def recv_into_full)
  have len: "length d = MAXBUF" using chunks_nth_fields(4) [OF small j(2)] j(3) by simp
  show ?thesis
  proof (cases rule: doServer_turn_spec [OF u, of me d "()"])
    case 1
    with run buf have "n' = n\<lparr>n_buf := d\<rparr>" by (simp add: serve_def)
    with inv len show ?thesis by (simp add: transfer_inv_def Let_def)
  next
    case (2 con' out rep)
    have m: "mine me (n_out n @ out) = mine me (n_out n) @ out"
      using turn_ok_from [OF 2(4)] by (simp add: mine_def)
    have srv: "server_inv me bs (slots (n_table n) me) (mine me (n_out n))"
      using inv by (simp add: transfer_inv_def Let_def)
    have jp: "j \<le> ?p" using j k by auto
    note s = server_inv_turn [OF small srv j(2) jp 2(4) [unfolded j(3)]]
    from run 2(1) buf have n': "n' = n\<lparr>n_table := con', n_buf := d, n_out := n_out n @ out,
        n_to_client := n_to_client n @ (case rep of Some r \<Rightarrow> [r] | None \<Rightarrow> [])\<rparr>"
      by (auto simp: serve_def split: option.splits)
    have le: "set (take ?p (chunks bs)) \<subseteq> set (take (?p + length out) (chunks bs))"
      by (rule set_take_subset_set_take) simp
    have "client_inv bs (?p + length out) (n_client n)"
      using inv by (auto simp: transfer_inv_def Let_def intro: client_inv_mono)
    with inv s 2(2) le len show ?thesis
      by (auto simp: n' transfer_inv_def m Let_def split: option.splits)
  qed
qed

lemma transfer_inv_other:
  assumes inv: "transfer_inv me bs n" and a: "a \<noteq> me" and run: "serve me a d n = Some n'"
  shows "transfer_inv me bs n'"
proof -
  let ?d = "recv_into (n_buf n) d"
  have u: "uniq (n_table n)" and len: "length ?d = MAXBUF"
    using inv by (simp_all add: transfer_inv_def Let_def length_recv_into)
  show ?thesis
  proof (cases rule: doServer_turn_spec [OF u, of a ?d "()"])
    case 1
    with run have "n' = n\<lparr>n_buf := ?d\<rparr>" by (simp add: serve_def Let_def)
    with inv len show ?thesis by (simp add: transfer_inv_def Let_def)
  next
    case (2 con' out rep)
    have m: "mine me (n_out n @ out) = mine me (n_out n)"
      using turn_ok_from [OF 2(4)] a by (auto simp: mine_def filter_empty_conv)
    from run 2(1) a have n': "n' = n\<lparr>n_table := con', n_buf := ?d, n_out := n_out n @ out\<rparr>"
      by (auto simp: serve_def Let_def split: option.splits)
    from inv len 2(2,3) a show ?thesis by (simp add: n' transfer_inv_def m Let_def)
  qed
qed

lemma transfer_inv_step:
  assumes small: "small_file bs" and inv: "transfer_inv me bs n" and step: "transfer_step me n n'"
  shows "transfer_inv me bs n'"
  using step
proof cases
  case load
  have "set (take (nat (x_chunkNo (n_client n))) (chunks bs))
      \<subseteq> set (take (nat (x_chunkNo (load_chunk (n_client n)))) (chunks bs))"
    by (rule set_take_subset_set_take) (simp add: load_chunk_def Let_def)
  moreover have "client_inv bs (length (mine me (n_out n))) (load_chunk (n_client n))"
    using inv load by (intro client_inv_load [OF _ _ small]) (auto simp: transfer_inv_def Let_def)
  ultimately show ?thesis using inv load by (auto simp: transfer_inv_def Let_def)
next
  case send
  have c: "client_inv bs (length (mine me (n_out n))) (n_client n)"
    using inv by (simp add: transfer_inv_def Let_def)
  with send obtain k where "x_chunkNo (n_client n) = int k" "0 < k" "k \<le> length (chunks bs)"
    "x_buf (n_client n) = chunks bs ! (k - 1)" by (auto simp: client_inv_def)
  then have "x_buf (n_client n) \<in> set (take (nat (x_chunkNo (n_client n))) (chunks bs))"
    by (auto simp: in_take_chunks intro!: exI [of _ "k - 1"])
  moreover have "client_inv bs (length (mine me (n_out n))) (send_chunk (n_client n))"
    using c send unfolding client_inv_def send_chunk_def by auto
  ultimately show ?thesis using inv send
    by (auto simp: transfer_inv_def Let_def send_chunk_def)
next
  case (reply d)
  have same: "x_chunkNo (recv_reply d (n_client n)) = x_chunkNo (n_client n)"
    by (simp add: recv_reply_def confirm_def)
  have "client_inv bs (length (mine me (n_out n))) (recv_reply d (n_client n))"
    using inv reply by (intro client_inv_reply [OF _ _ small]) (auto simp: transfer_inv_def Let_def)
  with inv reply same show ?thesis by (simp add: transfer_inv_def Let_def)
next
  case timeout
  have same: "x_chunkNo (confirm (n_client n)) = x_chunkNo (n_client n)"
    by (simp add: confirm_def)
  have "client_inv bs (length (mine me (n_out n))) (confirm (n_client n))"
    using inv timeout by (intro client_inv_confirm [OF _ _ small]) (auto simp: transfer_inv_def Let_def)
  with inv timeout same show ?thesis by (simp add: transfer_inv_def Let_def)
next
  case (arrive d)
  then show ?thesis by (intro transfer_inv_arrive [OF small inv])
next
  case (other a d)
  then show ?thesis by (intro transfer_inv_other [OF inv])
qed

lemma transfer_inv_start:
  assumes "length buf = MAXBUF"
  shows "transfer_inv me bs (transfer_start con buf bs)"
proof -
  have "slots (doServer_start con) me = {}" and "uniq (doServer_start con)"
    by (auto simp: doServer_start_def slots_def uniq_def active_def)
  moreover have "get32 (replicate MAXBUF NUL) = 0" by (simp add: MAXBUF_def numeral_eq_Suc)
  moreover have "chunks bs \<noteq> []" by (simp add: chunks_def chunks_from.simps)
  ultimately show ?thesis using assms
    by (simp add: transfer_inv_def transfer_start_def client_start_def client_inv_def server_inv_def
        mine_def parts_def)
qed

definition transfer_init :: "string \<Rightarrow> transfer \<Rightarrow> bool" where
  "transfer_init bs n \<longleftrightarrow>
     small_file bs \<and> (\<exists>con buf. length buf = MAXBUF \<and> n = transfer_start con buf bs)"

interpretation transfer_sys:
  invariant_system "transfer_init bs" "transfer_step me" "\<lambda>n. small_file bs \<and> transfer_inv me bs n"
  for bs me
  by unfold_locales (auto simp: transfer_init_def intro: transfer_inv_start transfer_inv_step)

subsection \<open>The chunks carry the file\<close>

definition payloads :: "string list \<Rightarrow> string" where
  "payloads ds = concat (map chunk_text ds)"

lemma payloads_chunks_from:
  "\<exists>k < MAXBUF. payloads (chunks_from m bs) = bs @ replicate k NUL"
proof (induction m bs rule: chunks_from.induct)
  case (1 m bs)
  show ?case
  proof (cases "length bs < MAXBUF - OFFSET")
    case True
    then show ?thesis
      by (subst chunks_from.simps)
        (auto simp: payloads_def make_chunk_fields MAXBUF_def OFFSET_def intro!: exI [of _ "568 - length bs"])
  next
    case False
    with 1 obtain k where "k < MAXBUF"
      "payloads (chunks_from (m + 1) (drop (MAXBUF - OFFSET) bs)) = drop (MAXBUF - OFFSET) bs @ replicate k NUL"
      by blast
    with False show ?thesis
      by (subst chunks_from.simps)
        (auto simp: payloads_def make_chunk_fields min_absorb2 intro!: exI [of _ k] simp flip: append_assoc)
  qed
qed

lemma parts_bytes: "map part_bytes (parts me bs) = map chunk_text (chunks bs)"
  by (rule nth_equalityI) (simp_all add: parts_def)

subsection \<open>Properties\<close>

text \<open>
  C4: the transfer over an unreliable network. Whatever the network loses, repeats or reorders and
  whatever other clients do, what the server prints for the client is a prefix of the chunks of
  its file, in order, or begins with all of them; and when \<open>doClient\<close> ends without giving up, it
  begins with all of them, and their bytes are the file followed by less than a buffer of zeros.
\<close>

theorem udp_transfer_in_order:
  assumes "transfer_init bs n0" and "(transfer_step me)\<^sup>*\<^sup>* n0 n"
  shows "(\<exists>m. take m (mine me (n_out n)) = take m (parts me bs) \<and>
        (m = length (mine me (n_out n)) \<or> m = length (parts me bs))) \<and>
     (x_pc (n_client n) = TxDone \<longrightarrow>
        (\<exists>k extra. map part_bytes (mine me (n_out n)) = map chunk_text (chunks bs) @ extra \<and>
           k < MAXBUF \<and> payloads (chunks bs) = bs @ replicate k NUL))"
proof (intro conjI impI)
  have inv: "transfer_inv me bs n" using transfer_sys.inv_reachable [OF assms] by simp
  let ?out = "mine me (n_out n)"
  have srv: "server_inv me bs (slots (n_table n) me) ?out"
    using inv by (simp add: transfer_inv_def Let_def)
  show "\<exists>m. take m ?out = take m (parts me bs) \<and> (m = length ?out \<or> m = length (parts me bs))"
  proof (cases "length ?out < length (chunks bs)")
    case True
    with srv show ?thesis by (intro exI [of _ "length ?out"]) (simp add: server_inv_def)
  next
    case False
    with srv show ?thesis by (intro exI [of _ "length (chunks bs)"]) (simp add: server_inv_def)
  qed
  assume "x_pc (n_client n) = TxDone"
  then have "length (chunks bs) \<le> length ?out"
    using inv by (auto simp: transfer_inv_def client_inv_def Let_def)
  with srv have all: "take (length (chunks bs)) ?out = parts me bs" by (simp add: server_inv_def)
  have "map part_bytes ?out = map part_bytes (take (length (chunks bs)) ?out @ drop (length (chunks bs)) ?out)"
    by simp
  also have "\<dots> = map chunk_text (chunks bs) @ map part_bytes (drop (length (chunks bs)) ?out)"
    by (simp only: map_append all parts_bytes)
  finally show "\<exists>k extra. map part_bytes ?out = map chunk_text (chunks bs) @ extra \<and>
        k < MAXBUF \<and> payloads (chunks bs) = bs @ replicate k NUL"
    using payloads_chunks_from [of 0 bs] by (auto simp: chunks_def)
qed

text \<open>A transfer of the empty file that ends, for the witness.\<close>

lemma empty_file_transfer:
  "\<exists>n0 n. transfer_init '''' n0 \<and> (transfer_step me)\<^sup>*\<^sup>* n0 n \<and> x_pc (n_client n) = TxDone"
proof -
  let ?con = "[\<lparr>c_free = True, c_chunkNo = 0, c_addr = me\<rparr>]"
  let ?n0 = "transfer_start ?con (replicate MAXBUF NUL) ''''"
  let ?d = "make_chunk 1 ''''"
  have len: "length ?d = MAXBUF" by (simp add: length_make_chunk)
  have no: "get32 ?d = 1" "chunk_no ?d = 1" "chunk_last ?d"
    using sint_small [of 1] by (simp_all add: make_chunk_fields chunk_no_def MAXBUF_def OFFSET_def)
  let ?n1 = "?n0\<lparr>n_client := load_chunk (n_client ?n0)\<rparr>"
  let ?n2 = "?n1\<lparr>n_client := send_chunk (n_client ?n1), n_to_server := n_to_server ?n1 @ [x_buf (n_client ?n1)]\<rparr>"
  note start = transfer_start_def client_start_def doServer_start_def
  have 1: "transfer_step me ?n0 ?n1" by (rule transfer_step.load) (simp add: start)
  have 2: "transfer_step me ?n1 ?n2"
    by (rule transfer_step.send) (simp add: load_chunk_def Let_def)
  obtain n3 where n3: "serve me me ?d ?n2 = Some n3" "n_to_client n3 = [?d]" "n_client n3 = n_client ?n2"
    by (simp add: serve_def Let_def recv_into_full [OF len] start doServer_turn_def findIndex_def no)
  have 3: "transfer_step me ?n2 n3"
    by (rule transfer_step.arrive [OF _ n3(1)]) (simp add: load_chunk_def Let_def start)
  let ?n4 = "n3\<lparr>n_client := recv_reply ?d (n_client n3)\<rparr>"
  have 4: "transfer_step me n3 ?n4"
    by (rule transfer_step.reply) (simp_all add: n3 send_chunk_def)
  have "x_pc (n_client ?n4) = TxDone"
    by (simp add: recv_reply_def confirm_def recv_into_full [OF len] no n3 send_chunk_def load_chunk_def
        Let_def start) (simp add: MAXBUF_def OFFSET_def)
  moreover have "transfer_init '''' ?n0"
    unfolding transfer_init_def by (intro conjI exI [of _ ?con] exI [of _ "replicate MAXBUF NUL"])
      (simp_all add: small_file_def length_chunks)
  moreover have "(transfer_step me)\<^sup>*\<^sup>* ?n0 ?n4"
    using 1 2 3 4 by (meson converse_rtranclp_into_rtranclp rtranclp.rtrancl_refl)
  ultimately show ?thesis by blast
qed

theorem udp_transfer_in_order_witness:
  "\<exists>n0 n k. transfer_init '''' n0 \<and> (transfer_step (1, 2))\<^sup>*\<^sup>* n0 n \<and> x_pc (n_client n) = TxDone \<and>
     payloads (chunks '''') = replicate k NUL \<and> take 1 (map part_bytes (mine (1, 2) (n_out n))) = map chunk_text (chunks '''')"
proof -
  obtain n0 n where n: "transfer_init '''' n0" "(transfer_step (1, 2))\<^sup>*\<^sup>* n0 n" "x_pc (n_client n) = TxDone"
    using empty_file_transfer [of "(1, 2)"] by blast
  have "length (chunks '''') = 1" by (simp add: length_chunks)
  moreover obtain k extra where
    "map part_bytes (mine (1, 2) (n_out n)) = map chunk_text (chunks '''') @ extra"
    "payloads (chunks '''') = '''' @ replicate k NUL"
    using udp_transfer_in_order [OF n(1,2)] n(3) by blast
  ultimately show ?thesis using n
    by (intro exI [of _ n0] exI [of _ n] exI [of _ k]) simp
qed

text \<open>
  C31: one turn of the server, for a table in which no two slots belong to one sender: it answers
  and prints as the map from senders to chunk numbers says, keeps that property of the table,
  and leaves every other sender's slot alone; it does nothing exactly when all slots are taken
  by others.
\<close>

theorem udp_server_turn:
  assumes "uniq con"
  shows "\<exists>con' out rep. doServer_turn a buf (SysOk u) con = Inr (con', out, rep) \<and> uniq con' \<and>
     \<not> (\<exists>b. b \<noteq> a \<and> slots con' b \<noteq> slots con b) \<and>
     (turn_ok a buf (slots con a) (slots con' a) out rep \<or>
      con' = con \<and> out = [] \<and> rep = None \<and> slots con a = {} \<and> \<not> (\<exists>c \<in> set con. c_free c))"
proof (cases rule: doServer_turn_spec [OF assms, of a buf u])
  case 1
  with assms show ?thesis by blast
next
  case (2 con' out rep)
  then show ?thesis by blast
qed

text \<open>
  C37: the echo of the last chunk must not be lost. The server frees the slot with the last chunk;
  when the client repeats it, a file of one chunk is printed a second time, and for a longer
  file the server opens a new slot at 0, never answers, and the slot stays taken.
\<close>

theorem udp_last_echo_lost:
  assumes "uniq con" and "slots con a = {n - 1} \<or> n = 1 \<and> slots con a = {} \<and> (\<exists>c \<in> set con. c_free c)"
    and "chunk_no buf = n" and "chunk_last buf" and "1 \<le> n"
  shows "\<exists>con1 con2 out2 rep2.
     doServer_turn a buf (SysOk ()) con = Inr (con1, [Part a n True (chunk_text buf)], Some buf) \<and>
     slots con1 a = {} \<and> doServer_turn a buf (SysOk ()) con1 = Inr (con2, out2, rep2) \<and>
     (if n = 1 then out2 = [Part a n True (chunk_text buf)] else out2 = [] \<and> rep2 = None \<and> slots con2 a = {0})"
proof -
  have n: "chunk_no buf = n" "chunk_last buf" "1 \<le> n" by (rule assms)+
  have c: "c = n - 1" if "slots con a = {c} \<or> slots con a = {} \<and> c = 0" for c
    using assms(2) that by auto
  show ?thesis
  proof (cases rule: doServer_turn_spec [OF assms(1), of a buf "()"])
    case 1
    with assms(2) show ?thesis by auto
  next
    case (2 con1 out rep)
    from 2(4) c n have one: "slots con1 a = {}" "out = [Part a n True (chunk_text buf)]" "rep = Some buf"
      by (auto simp: turn_ok_def split: if_splits)
    show ?thesis
    proof (cases rule: doServer_turn_spec [OF 2(2), of a buf "()"])
      case 1
      with 2(5) one n show ?thesis by auto
    next
      case two: (2 con2 out2 rep2)
      from two(4) one(1) n have "if n = 1 then out2 = [Part a n True (chunk_text buf)]
          else out2 = [] \<and> rep2 = None \<and> slots con2 a = {0}"
        by (auto simp: turn_ok_def split: if_splits)
      with 2(1) one two(1) show ?thesis by auto
    qed
  qed
qed

definition one_slot :: "conn list" where
  "one_slot = [\<lparr>c_free = False, c_chunkNo = 1, c_addr = (1, 2)\<rparr>]"

lemma one_slot_facts: "uniq one_slot" "slots one_slot (1, 2) = {1}"
  by (auto simp: uniq_def slots_def one_slot_def active_def)

theorem udp_server_turn_witness:
  "uniq one_slot \<and> (\<exists>con' out rep.
     doServer_turn (1, 2) (make_chunk 2 ''ab'') (SysOk ()) one_slot = Inr (con', out, rep) \<and> uniq con')"
  using udp_server_turn [OF one_slot_facts(1), of "(1, 2)" "make_chunk 2 ''ab''" "()"] one_slot_facts(1) by blast

theorem udp_last_echo_lost_witness:
  "\<exists>con1 con2. slots con1 (1, 2) = {} \<and> slots con2 (1, 2) = {0} \<and>
     doServer_turn (1, 2) (make_chunk 2 ''ab'') (SysOk ()) con1 = Inr (con2, [], None)"
proof -
  have no: "chunk_no (make_chunk 2 ''ab'') = 2" "chunk_last (make_chunk 2 ''ab'')"
    using sint_small [of 2] by (simp_all add: chunk_no_def make_chunk_fields MAXBUF_def OFFSET_def)
  have s: "slots one_slot (1, 2) = {2 - 1}" using one_slot_facts(2) by simp
  from udp_last_echo_lost [OF one_slot_facts(1) disjI1 [OF s] no] show ?thesis by auto
qed

text \<open>
  The \<open>printf\<close> of \<open>doServer\<close> runs past its buffer. A chunk of a text file that is not the last
  one has no NUL in its 568 bytes, so \<open>%s\<close> has no terminator inside \<open>buf\<close>.
\<close>

lemma udp_print_unterminated:
  assumes "NUL \<notin> set bs" and "k + 1 < length (chunks bs)"
  shows "shown (chunk_text (chunks bs ! k)) = None"
proof -
  let ?n = "MAXBUF - OFFSET"
  have "0 < ?n" by (simp add: MAXBUF_def OFFSET_def)
  have "k + 1 \<le> length bs div ?n" using assms(2) by (simp add: length_chunks)
  then have "(k + 1) * ?n \<le> length bs" using \<open>0 < ?n\<close> by (simp add: less_eq_div_iff_mult_less_eq)
  then have len: "length (take ?n (drop (k * ?n) bs)) = ?n" by simp
  have "NUL \<notin> set (take ?n (drop (k * ?n) bs))"
    using assms(1) by (meson in_set_dropD in_set_takeD)
  with len assms(2) show ?thesis
    by (simp add: nth_chunks make_chunk_fields shown_def del: length_take)
qed

lemma udp_print_unterminated_example:
  "shown (chunk_text (chunks (replicate 600 (CHR ''a'')) ! 0)) = None"
  by (rule udp_print_unterminated) (simp_all add: length_chunks MAXBUF_def OFFSET_def)

end
