(* ===== verification/Calculator.thy ===== *)
theory Calculator
  imports SopIO Wire "HOL-Library.Signed_Division"
begin

section \<open>The calculator service\<close>

text \<open>
  \<open>sop2/lab04/tcp_test\<close>: a client sends five 32-bit integers in network order (operands, result,
  operator, status), the server fills in the result and the status and sends them back. The
  buffers are the twenty bytes of \<open>int32_t data[5]\<close>.
\<close>

subsection \<open>The server\<close>

definition field :: "string \<Rightarrow> nat \<Rightarrow> 32 word" where
  "field data i = get32 (drop (4 * i) data)"

definition five :: "32 word \<Rightarrow> 32 word \<Rightarrow> 32 word \<Rightarrow> 32 word \<Rightarrow> 32 word \<Rightarrow> string" where
  "five a b c d e = put32 a @ put32 b @ put32 c @ put32 d @ put32 e"

text \<open>
  \<open>op1 / op2\<close> on \<open>int32_t\<close>: truncated, and \<open>None\<close> where the processor traps. Sums, differences and
  products wrap, as in the generated code.
\<close>

definition quotient :: "32 word \<Rightarrow> 32 word \<Rightarrow> 32 word option" where
  "quotient a b =
     (let q = sint a sdiv sint b in if - (2 ^ 31) \<le> q \<and> q < 2 ^ 31 then Some (word_of_int q) else None)"

definition calculate :: "string \<Rightarrow> string option" where
  "calculate data =
     (let op1 = field data 0; op2 = field data 1; c = char_of_int (sint (field data 3));
          result = (if c = CHR ''+'' then Some (op1 + op2, 1)
                    else if c = CHR ''-'' then Some (op1 - op2, 1)
                    else if c = CHR ''*'' then Some (op1 * op2, 1)
                    else if c = CHR ''/'' then
                      (if op2 = 0 then Some (-1, 0) else map_option (\<lambda>q. (q, 1)) (quotient op1 op2))
                    else Some (-1, 0)) in
      map_option (\<lambda>(result, status). five (field data 0) (field data 1) result (field data 3) status) result)"

text \<open>
  One entry of \<open>events\<close>: what \<open>accept\<close>, \<open>bulk_read\<close> of twenty bytes and \<open>bulk_write\<close> return. The
  value is what the client gets back, if anything; a trap ends the process like an \<open>ERR\<close>.
\<close>

type_synonym connection = "int sysres \<times> string sysres \<times> nat sysres"

definition serve_client :: "connection \<Rightarrow> string option or_err" where
  "serve_client conn =
     (case conn of (acc, rd, wr) \<Rightarrow>
        bind_err (add_new_client acc) (\<lambda>client_socket.
          case client_socket of
            SysErr _ \<Rightarrow> ERR ''bulk_read''
          | SysOk fd \<Rightarrow>
              (case rd of
                 SysErr _ \<Rightarrow> ERR ''bulk_read''
               | SysOk data \<Rightarrow>
                   if length data = 20
                   then (case calculate data of
                           None \<Rightarrow> ERR ''SIGFPE''
                         | Some data' \<Rightarrow>
                             (case wr of
                                SysErr e \<Rightarrow> if e \<noteq> EPIPE then ERR ''bulk_write'' else Inr None
                              | SysOk _ \<Rightarrow> Inr (Some data')))
                   else Inr None)))"

fun serve_batch :: "connection list \<Rightarrow> string option list or_err" where
  "serve_batch [] = Inr []"
| "serve_batch (c # cs) =
     bind_err (serve_client c) (\<lambda>r. bind_err (serve_batch cs) (\<lambda>rs. Inr (r # rs)))"

text \<open>
  What \<open>epoll_pwait\<close> returns, and whether SIGINT has been handled before it does; the loop tests
  \<open>do_work\<close> before each call. Without a further return it stays in \<open>epoll_pwait\<close>: \<open>None\<close>.
\<close>

datatype wake = Events "connection list" | WakeErr int

fun doServer :: "bool \<Rightarrow> (wake \<times> bool) list \<Rightarrow> string option list or_err option" where
  "doServer do_work [] = (if do_work then None else Some (Inr []))"
| "doServer do_work ((w, sigint) # ws) =
     (if \<not> do_work then Some (Inr [])
      else
        (case w of
           WakeErr e \<Rightarrow> if e = EINTR then doServer (\<not> sigint) ws else Some (ERR ''epoll_pwait'')
         | Events cs \<Rightarrow>
             (case serve_batch cs of
                Inl m \<Rightarrow> Some (ERR m)
              | Inr rs \<Rightarrow>
                  (case doServer (\<not> sigint) ws of
                     Some (Inr rs') \<Rightarrow> Some (Inr (rs @ rs'))
                   | r \<Rightarrow> r))))"

subsection \<open>The client\<close>

definition first_char :: "string \<Rightarrow> char" where
  "first_char s = (case s of [] \<Rightarrow> NUL | c # _ \<Rightarrow> c)"

definition prepare_request :: "string list \<Rightarrow> string" where
  "prepare_request argv =
     five (word_of_int (atoi (argv ! 3))) (word_of_int (atoi (argv ! 4))) 0
       (word_of_int (schar (first_char (argv ! 5)))) 1"

definition print_answer :: "string \<Rightarrow> string" where
  "print_answer data =
     (if field data 4 \<noteq> 0
      then show_int (sint (field data 0)) @ '' '' @ [char_of_int (sint (field data 3))] @ '' '' @
        show_int (sint (field data 1)) @ '' = '' @ show_int (sint (field data 2)) @ [LF]
      else ''Impossible operation'' @ [LF])"

text \<open>\<open>main\<close> of the client with a connection that carries both messages; \<open>reply\<close> is the server.\<close>

definition tcp_client :: "string list \<Rightarrow> (string \<Rightarrow> string option) \<Rightarrow> string or_err" where
  "tcp_client argv reply =
     (if length argv \<noteq> 6 then ERR ''usage''
      else (case reply (prepare_request argv) of
              None \<Rightarrow> ERR ''bulk_read''
            | Some data \<Rightarrow> if length data < 20 then ERR ''bulk_read'' else Inr (print_answer data)))"

text \<open>A server that accepts, reads and writes without errors.\<close>

definition good_server :: "string \<Rightarrow> string option" where
  "good_server data =
     (case doServer True [(Events [(SysOk 5, SysOk data, SysOk 20)], True)] of
        Some (Inr [r]) \<Rightarrow> r
      | _ \<Rightarrow> None)"

subsection \<open>Buffers and quotients\<close>

lemma length_five [simp]: "length (five a b c d e) = 20"
  by (simp add: five_def)

lemma field_five [simp]:
  "field (five a b c d e) 0 = a" "field (five a b c d e) (Suc 0) = b" "field (five a b c d e) 2 = c"
  "field (five a b c d e) 3 = d" "field (five a b c d e) 4 = e"
proof -
  have "field (five a b c d e) 4 = get32 (put32 e @ [])" by (simp add: field_def five_def del: get32_put32)
  then show "field (five a b c d e) 4 = e" by (simp only: get32_put32)
qed (simp_all add: field_def five_def)

lemma sdiv_bounds:
  assumes "- (2 ^ 31) \<le> x" and "x < 2 ^ 31"
  shows "- (2 ^ 31) \<le> x sdiv y \<and> x sdiv y \<le> (2 ^ 31 :: int)"
proof -
  have "\<bar>x\<bar> div \<bar>y\<bar> \<le> \<bar>x\<bar>" 
    using zdiv_mono2 [of "\<bar>x\<bar>" 1 "\<bar>y\<bar>"] by (cases "y = 0") simp_all
  then have le: "\<bar>x\<bar> div \<bar>y\<bar> \<le> 2 ^ 31" using assms by simp
  have pos: "0 \<le> \<bar>x\<bar> div \<bar>y\<bar>" by (cases "y = 0") (simp_all add: pos_imp_zdiv_nonneg_iff)
  have "x sdiv y = sgn x * sgn y * (\<bar>x\<bar> div \<bar>y\<bar>)" by (simp add: signed_divide_int_def)
  then show ?thesis using le pos by (auto simp: sgn_if)
qed

text \<open>The value of an \<open>int32_t\<close> that a mathematical result is stored into.\<close>

definition wrap32 :: "int \<Rightarrow> int" where
  "wrap32 r = (r + 2 ^ 31) mod 2 ^ 32 - 2 ^ 31"

lemma sint_wrap32: "sint (word_of_int r :: 32 word) = wrap32 r"
  by (simp add: wrap32_def signed_of_int signed_take_bit_eq_take_bit_shift take_bit_eq_mod)

lemma wrap32_id: "- (2 ^ 31) \<le> r \<Longrightarrow> r < 2 ^ 31 \<Longrightarrow> wrap32 r = r"
  by (simp add: wrap32_def)

text \<open>What the service is for; \<open>None\<close> where the operation is impossible.\<close>

definition calc_spec :: "char \<Rightarrow> int \<Rightarrow> int \<Rightarrow> int option" where
  "calc_spec c x y =
     (if c = CHR ''+'' then Some (x + y)
      else if c = CHR ''-'' then Some (x - y)
      else if c = CHR ''*'' then Some (x * y)
      else if c = CHR ''/'' \<and> y \<noteq> 0 then Some (x sdiv y)
      else None)"

lemma sint_ops:
  "sint (word_of_int x + word_of_int y :: 32 word) = wrap32 (x + y)"
  "sint (word_of_int x - word_of_int y :: 32 word) = wrap32 (x - y)"
  "sint (word_of_int x * word_of_int y :: 32 word) = wrap32 (x * y)"
  by (simp_all only: sint_wrap32 [symmetric] wi_hom_add wi_hom_sub wi_hom_mult)

definition int32 :: "int \<Rightarrow> bool" where
  "int32 x \<longleftrightarrow> - (2 ^ 31) \<le> x \<and> x < 2 ^ 31"

lemma sint_int32: "int32 x \<Longrightarrow> sint (word_of_int x :: 32 word) = x"
  by (simp add: sint_fits int32_def)

lemma word_zero_int32: "int32 y \<Longrightarrow> (word_of_int y :: 32 word) = 0 \<longleftrightarrow> y = 0"
  using sint_int32 [of y] by fastforce

lemma schar_int32: "sint (word_of_int (schar c) :: 32 word) = schar c"
  using schar_bounds [of c] by (intro sint_int32) (simp add: int32_def)

lemma calculate_spec:
  assumes "int32 x" and "int32 y"
  shows "calculate (five (word_of_int x) (word_of_int y) 0 (word_of_int (schar c)) 1) =
     (case calc_spec c x y of
        None \<Rightarrow> Some (five (word_of_int x) (word_of_int y) (-1) (word_of_int (schar c)) 0)
      | Some r \<Rightarrow> if c = CHR ''/'' \<and> r = 2 ^ 31 then None
                  else Some (five (word_of_int x) (word_of_int y) (word_of_int r) (word_of_int (schar c)) 1))"
proof -
  have "quotient (word_of_int x) (word_of_int y) =
      (if x sdiv y = 2 ^ 31 then None else Some (word_of_int (x sdiv y)))"
    using sdiv_bounds [of x y] assms
    by (auto simp: quotient_def Let_def sint_int32 int32_def)
  then show ?thesis
    by (auto simp: calculate_def Let_def schar_int32 calc_spec_def word_zero_int32 [OF assms(2)]
        simp flip: wi_hom_add wi_hom_sub wi_hom_mult)
qed

subsection \<open>Properties\<close>

text \<open>
  C6: client and server together. For operands that fit \<open>int32_t\<close> the client prints the operands,
  the operator and the mathematical result, wrapped to \<open>int32_t\<close>; an unknown operator or a zero
  divisor prints that the operation is impossible; and the one quotient that does not fit
  kills the server, so the client's read fails.
\<close>

theorem calc_session:
  assumes "length argv = 6" and "atoi (argv ! 3) = x" and "atoi (argv ! 4) = y"
    and "int32 x" and "int32 y" and "first_char (argv ! 5) = c"
  shows "tcp_client argv good_server =
     (case calc_spec c x y of
        None \<Rightarrow> Inr (''Impossible operation'' @ [LF])
      | Some r \<Rightarrow>
          if c = CHR ''/'' \<and> r = 2 ^ 31 then ERR ''bulk_read''
          else Inr (show_int x @ '' '' @ [c] @ '' '' @ show_int y @ '' = '' @ show_int (wrap32 r) @ [LF]))"
proof -
  have req: "prepare_request argv = five (word_of_int x) (word_of_int y) 0 (word_of_int (schar c)) 1"
    using assms by (simp add: prepare_request_def)
  have reply: "good_server data = (if length data = 20 then calculate data else None)" for data
    by (simp add: good_server_def serve_client_def split: option.splits)
  have xy: "wrap32 x = x" "wrap32 y = y" using assms(4,5) by (simp_all add: int32_def wrap32_id)
  show ?thesis
    using calculate_spec [OF assms(4,5), of c] assms(1)
    by (simp add: tcp_client_def req reply print_answer_def sint_wrap32 xy
        schar_int32 [unfolded sint_wrap32] split: option.splits)
qed

theorem calc_session_witness:
  "tcp_client [''c'', ''h'', ''p'', ''12'', ''-5'', ''/''] good_server = Inr (''12 / -5 = -2'' @ [LF])"
proof -
  have "atoi ''12'' = 12" "atoi ''-5'' = -5"
    by (simp_all add: atoi_def is_blank_def digits_value_def is_digit_def)
  moreover have "decimal 12 = ''12''" by (simp add: decimal.simps cstr_simps)
  ultimately show ?thesis
    by (subst calc_session [where x = 12 and y = "-5" and c = "CHR ''/''"])
      (simp_all add: int32_def first_char_def calc_spec_def signed_divide_int_def wrap32_def show_int_def cstr_simps)
qed

text \<open>
  One request kills the server for everyone. Whatever was served before in the batch, a client
  that asks for \<open>INT_MIN / -1\<close> ends \<open>doServer\<close> with SIGFPE, and the clients after it and all later
  events get no answer.
\<close>

lemma calc_remote_crash:
  assumes "serve_batch before = Inr rs"
    and "data = five (word_of_int (- (2 ^ 31))) (word_of_int (-1)) r (word_of_int (schar (CHR ''/''))) st"
  shows "doServer True ((Events (before @ (SysOk fd, SysOk data, wr) # after), b) # ws) = Some (ERR ''SIGFPE'')"
proof -
  have i: "sint (word_of_int (- (2 ^ 31)) :: 32 word) = - (2 ^ 31)" "sint (word_of_int (-1) :: 32 word) = -1"
    by (rule sint_int32, simp add: int32_def)+
  have "(word_of_int (-1) :: 32 word) \<noteq> 0" by simp
  with i have "calculate data = None"
    by (simp add: assms(2) calculate_def Let_def schar_int32 quotient_def signed_divide_int_def
        del: word_of_int_neg_1 of_int_minus of_int_numeral)
  then have c: "serve_client (SysOk fd, SysOk data, wr) = ERR ''SIGFPE''"
    by (simp add: serve_client_def assms(2))
  have "serve_batch (before @ (SysOk fd, SysOk data, wr) # after) = ERR ''SIGFPE''"
    using assms(1) by (induction before arbitrary: rs) (auto simp: c bind_err_Inr_iff)
  then show ?thesis by simp
qed

lemma calc_remote_crash_example:
  "doServer True [(Events [(SysOk 7, SysOk (five (word_of_int (- (2 ^ 31))) (word_of_int (-1)) 0
     (word_of_int (schar (CHR ''/''))) 1), SysOk 20)], False)] = Some (ERR ''SIGFPE'')"
  using calc_remote_crash [of "[]" "[]" _ 0 1 7 "SysOk 20" "[]" False "[]"] by simp

end
