(* ===== verification/SharedMem.thy ===== *)
theory SharedMem
  imports Prelude
begin

section \<open>Two processes and a page of shared memory\<close>

text \<open>
  \<open>sop2/lab03/prod_cons/prod_cons.c\<close>: a producer and a consumer over a buffer of ten numbers, with
  a mutex and two condition variables, and \<open>sop2/lab03/dying/dying.c\<close>: a counter under a robust
  mutex whose second user is killed inside its critical section.
\<close>

subsection \<open>The buffer of \<open>prod_cons.c\<close>\<close>

definition BUFFER_SIZE :: nat where "BUFFER_SIZE = 10"
definition ITERATIONS :: nat where "ITERATIONS = 20"

record context_t =
  ctx_items :: "int list"
  ctx_in :: nat
  ctx_out :: nat
  ctx_size :: nat

definition ctx_zero :: context_t where
  "ctx_zero = \<lparr>ctx_items = replicate BUFFER_SIZE 0, ctx_in = 0, ctx_out = 0, ctx_size = 0\<rparr>"

text \<open>The critical sections after their \<open>while\<close> loops; \<open>None\<close> where the loop waits.\<close>

definition ctx_put :: "context_t \<Rightarrow> int \<Rightarrow> context_t option" where
  "ctx_put c new_item =
     (if ctx_size c \<ge> BUFFER_SIZE then None
      else Some (c\<lparr>ctx_items := (ctx_items c)[ctx_in c := new_item],
                  ctx_in := (ctx_in c + 1) mod BUFFER_SIZE, ctx_size := ctx_size c + 1\<rparr>))"

definition ctx_get :: "context_t \<Rightarrow> (int \<times> context_t) option" where
  "ctx_get c =
     (if ctx_size c = 0 then None
      else Some (ctx_items c ! ctx_out c,
                 c\<lparr>ctx_out := (ctx_out c + 1) mod BUFFER_SIZE, ctx_size := ctx_size c - 1\<rparr>))"

definition ctx_content :: "context_t \<Rightarrow> int list" where
  "ctx_content c = ring (ctx_items c) BUFFER_SIZE (ctx_out c) (ctx_size c)"

definition ctx_wf :: "context_t \<Rightarrow> bool" where
  "ctx_wf c \<longleftrightarrow> length (ctx_items c) = BUFFER_SIZE \<and> ctx_out c < BUFFER_SIZE \<and>
     ctx_size c \<le> BUFFER_SIZE \<and> ctx_in c = (ctx_out c + ctx_size c) mod BUFFER_SIZE"

lemma length_ctx_content [simp]: "length (ctx_content c) = ctx_size c"
  by (simp add: ctx_content_def)

lemma ctx_wf_zero: "ctx_wf ctx_zero" "ctx_content ctx_zero = []"
  by (simp_all add: ctx_wf_def ctx_zero_def BUFFER_SIZE_def ctx_content_def)

lemma ctx_put_room:
  assumes "ctx_wf c" and "ctx_size c < BUFFER_SIZE"
  shows "\<exists>c'. ctx_put c x = Some c' \<and> ctx_wf c' \<and> ctx_content c' = ctx_content c @ [x]"
  using assms ring_push [of "ctx_items c" BUFFER_SIZE "ctx_size c" "ctx_out c" x]
  by (auto simp: ctx_put_def ctx_wf_def ctx_content_def mod_simps)

lemma ctx_get_first:
  assumes "ctx_wf c" and "ctx_content c = x # xs"
  shows "\<exists>c'. ctx_get c = Some (x, c') \<and> ctx_wf c' \<and> ctx_content c' = xs"
proof -
  have size: "0 < ctx_size c" using assms(2) length_ctx_content [of c] by simp
  have out: "ctx_out c < BUFFER_SIZE" using assms(1) by (simp add: ctx_wf_def)
  have pos: "0 < BUFFER_SIZE" by (simp add: BUFFER_SIZE_def)
  have "ctx_content c = ctx_items c ! ctx_out c #
      ring (ctx_items c) BUFFER_SIZE (Suc (ctx_out c) mod BUFFER_SIZE) (ctx_size c - 1)"
    using ring_pop [OF size out] by (simp add: ctx_content_def)
  with assms size pos ring_end_pop [of "ctx_size c" "ctx_out c" BUFFER_SIZE] show ?thesis
    by (auto simp: ctx_get_def ctx_content_def ctx_wf_def)
qed

interpretation ctxq: bounded_fifo ctx_put ctx_get ctx_content ctx_wf BUFFER_SIZE
proof
  fix c x
  assume "ctx_wf c" "length (ctx_content c) = BUFFER_SIZE"
  then show "ctx_put c x = None" by (simp add: ctx_put_def)
next
  fix c x
  assume "ctx_wf c" "length (ctx_content c) < BUFFER_SIZE"
  then show "\<exists>c'. ctx_put c x = Some c' \<and> ctx_wf c' \<and> ctx_content c' = ctx_content c @ [x]"
    by (simp add: ctx_put_room)
next
  fix c
  assume "ctx_wf c" "ctx_content c = []"
  then show "ctx_get c = None" using length_ctx_content [of c] by (simp add: ctx_get_def)
next
  fix c
  assume "ctx_wf c"
  then show "length (ctx_content c) \<le> BUFFER_SIZE" by (simp add: ctx_wf_def)
qed (rule ctx_get_first)

subsection \<open>Producer and consumer\<close>

text \<open>
  A process in front of \<open>pthread_mutex_lock\<close> (or awake again inside \<open>pthread_cond_wait\<close>) with its
  loop counter, waiting on its condition variable, or done with its loop; the producer then waits
  for the child and destroys the mutex.
\<close>

datatype proc = Run nat | Waiting nat | Joining | Gone

record prodcons =
  pc_ctx :: context_t
  pc_prod :: proc
  pc_cons :: proc
  pc_produced :: "int list"
  pc_consumed :: "int list"

definition pc_start :: prodcons where
  "pc_start = \<lparr>pc_ctx = ctx_zero, pc_prod = Run 0, pc_cons = Run 0, pc_produced = [], pc_consumed = []\<rparr>"

text \<open>\<open>pthread_cond_signal\<close>: wakes the other process if it waits.\<close>

fun signalled :: "proc \<Rightarrow> proc" where
  "signalled (Waiting i) = Run i"
| "signalled p = p"

definition producer :: "nat \<Rightarrow> prodcons \<Rightarrow> prodcons" where
  "producer i s =
     (case ctx_put (pc_ctx s) (int i) of
        None \<Rightarrow> s\<lparr>pc_prod := Waiting i\<rparr>
      | Some c \<Rightarrow> s\<lparr>pc_ctx := c, pc_produced := pc_produced s @ [int i], pc_cons := signalled (pc_cons s),
                    pc_prod := (if i + 1 < ITERATIONS then Run (i + 1) else Joining)\<rparr>)"

definition consumer :: "nat \<Rightarrow> prodcons \<Rightarrow> prodcons" where
  "consumer i s =
     (case ctx_get (pc_ctx s) of
        None \<Rightarrow> s\<lparr>pc_cons := Waiting i\<rparr>
      | Some (item, c) \<Rightarrow> s\<lparr>pc_ctx := c, pc_consumed := pc_consumed s @ [item], pc_prod := signalled (pc_prod s),
                    pc_cons := (if i + 1 < ITERATIONS then Run (i + 1) else Gone)\<rparr>)"

text \<open>\<open>spurious\<close> says whether \<open>pthread_cond_wait\<close> may return without a signal, as POSIX allows.\<close>

inductive pc_step :: "bool \<Rightarrow> prodcons \<Rightarrow> prodcons \<Rightarrow> bool" for spurious where
  produce: "pc_prod s = Run i \<Longrightarrow> pc_step spurious s (producer i s)"
| consume: "pc_cons s = Run i \<Longrightarrow> pc_step spurious s (consumer i s)"
| join: "pc_prod s = Joining \<Longrightarrow> pc_cons s = Gone \<Longrightarrow> pc_step spurious s (s\<lparr>pc_prod := Gone\<rparr>)"
| wake_prod: "spurious \<Longrightarrow> pc_prod s = Waiting i \<Longrightarrow> pc_step spurious s (s\<lparr>pc_prod := Run i\<rparr>)"
| wake_cons: "spurious \<Longrightarrow> pc_cons s = Waiting i \<Longrightarrow> pc_step spurious s (s\<lparr>pc_cons := Run i\<rparr>)"

inductive_cases pc_stepE: "pc_step spurious s t"

text \<open>How often a process has gone round its loop.\<close>

fun rounds :: "proc \<Rightarrow> nat" where
  "rounds (Run i) = i"
| "rounds (Waiting i) = i"
| "rounds _ = ITERATIONS"

definition busy :: "proc \<Rightarrow> bool" where
  "busy p \<longleftrightarrow> (\<exists>i < ITERATIONS. p = Run i \<or> p = Waiting i)"

definition pc_inv :: "prodcons \<Rightarrow> bool" where
  "pc_inv s \<longleftrightarrow> ctx_wf (pc_ctx s) \<and>
     (busy (pc_prod s) \<or> pc_prod s = Joining \<or> pc_prod s = Gone \<and> pc_cons s = Gone) \<and>
     (busy (pc_cons s) \<or> pc_cons s = Gone) \<and>
     rounds (pc_cons s) \<le> rounds (pc_prod s) \<and>
     pc_produced s = map int [0..<rounds (pc_prod s)] \<and>
     pc_consumed s = map int [0..<rounds (pc_cons s)] \<and>
     ctx_content (pc_ctx s) = map int [rounds (pc_cons s)..<rounds (pc_prod s)] \<and>
     ((\<exists>i. pc_prod s = Waiting i) \<longrightarrow> ctx_size (pc_ctx s) = BUFFER_SIZE) \<and>
     ((\<exists>i. pc_cons s = Waiting i) \<longrightarrow> ctx_size (pc_ctx s) = 0)"

lemma busy_simps [simp]:
  "busy (Run i) \<longleftrightarrow> i < ITERATIONS" "busy (Waiting i) \<longleftrightarrow> i < ITERATIONS"
  "\<not> busy Joining" "\<not> busy Gone"
  by (auto simp: busy_def)

lemma signalled_simps [simp]:
  "rounds (signalled p) = rounds p" "busy (signalled p) = busy p" "signalled p \<noteq> Waiting i"
  "signalled p = Gone \<longleftrightarrow> p = Gone" "signalled p = Joining \<longleftrightarrow> p = Joining"
  by (cases p; simp)+

lemma rounds_next: "rounds (if i + 1 < ITERATIONS then Run (i + 1) else p) =
    (if i + 1 < ITERATIONS then i + 1 else rounds p)"
  by simp

lemma pc_inv_start: "pc_inv pc_start"
  by (simp add: pc_inv_def pc_start_def ctx_wf_zero ITERATIONS_def)

lemma pc_inv_producer:
  assumes inv: "pc_inv s" and pc: "pc_prod s = Run i"
  shows "pc_inv (producer i s)"
proof (cases "ctx_put (pc_ctx s) (int i)")
  case None
  moreover have "ctx_size (pc_ctx s) \<le> BUFFER_SIZE"
    using inv by (simp add: pc_inv_def ctx_wf_def)
  ultimately have "ctx_size (pc_ctx s) = BUFFER_SIZE"
    by (simp add: ctx_put_def split: if_splits)
  with None inv pc show ?thesis by (auto simp: producer_def pc_inv_def)
next
  case (Some c)
  with inv have c: "ctx_wf c" "ctx_content c = ctx_content (pc_ctx s) @ [int i]"
    using ctxq.enq_SomeD [of "pc_ctx s" "int i" c] by (simp_all add: pc_inv_def)
  have i: "i < ITERATIONS" and le: "rounds (pc_cons s) \<le> i"
    using inv pc by (simp_all add: pc_inv_def)
  define p where "p = (if i + 1 < ITERATIONS then Run (i + 1) else Joining)"
  have r: "rounds p = Suc i" "busy p \<or> p = Joining" "\<And>j. p \<noteq> Waiting j"
    using i by (auto simp: p_def)
  have "map int [rounds (pc_cons s)..<i] @ [int i] = map int [rounds (pc_cons s)..<Suc i]"
    using le by simp
  moreover have "producer i s = s\<lparr>pc_ctx := c, pc_produced := pc_produced s @ [int i],
      pc_cons := signalled (pc_cons s), pc_prod := p\<rparr>"
    using Some by (simp add: producer_def p_def)
  ultimately show ?thesis using inv pc c le r by (simp add: pc_inv_def) blast
qed

lemma pc_inv_consumer:
  assumes inv: "pc_inv s" and pc: "pc_cons s = Run i"
  shows "pc_inv (consumer i s)"
proof (cases "ctx_get (pc_ctx s)")
  case None
  with inv have "ctx_content (pc_ctx s) = []"
    using ctxq.deq_None_iff [of "pc_ctx s"] by (simp add: pc_inv_def)
  then have "ctx_size (pc_ctx s) = 0" by (metis length_ctx_content list.size(3))
  with None inv pc show ?thesis by (auto simp: consumer_def pc_inv_def)
next
  case (Some r)
  then obtain item c where get: "ctx_get (pc_ctx s) = Some (item, c)" by (cases r) auto
  with inv have c: "ctx_wf c" "ctx_content (pc_ctx s) = item # ctx_content c"
    using ctxq.deq_SomeD [of "pc_ctx s" item c] by (simp_all add: pc_inv_def)
  have i: "i < ITERATIONS" and le: "i \<le> rounds (pc_prod s)"
    and content: "ctx_content (pc_ctx s) = map int [i..<rounds (pc_prod s)]"
    using inv pc by (simp_all add: pc_inv_def)
  from c(2) content have "i < rounds (pc_prod s)" by (cases "i < rounds (pc_prod s)") auto
  then have "[i..<rounds (pc_prod s)] = i # [Suc i..<rounds (pc_prod s)]" by (rule upt_conv_Cons)
  with c(2) content have item: "item = int i" "ctx_content c = map int [Suc i..<rounds (pc_prod s)]"
    by simp_all
  define p where "p = (if i + 1 < ITERATIONS then Run (i + 1) else Gone)"
  have r: "rounds p = Suc i" "busy p \<or> p = Gone" "\<And>j. p \<noteq> Waiting j"
    using i by (auto simp: p_def)
  have "consumer i s = s\<lparr>pc_ctx := c, pc_consumed := pc_consumed s @ [item],
      pc_prod := signalled (pc_prod s), pc_cons := p\<rparr>"
    using get by (simp add: consumer_def p_def)
  moreover have "pc_cons s \<noteq> Gone" using pc by simp
  ultimately show ?thesis using inv pc c(1) item r \<open>i < rounds (pc_prod s)\<close>
    by (simp add: pc_inv_def) blast
qed

lemma pc_inv_step: "pc_inv s \<Longrightarrow> pc_step spurious s t \<Longrightarrow> pc_inv t"
proof (erule pc_stepE)
  fix i
  assume "pc_inv s" "t = producer i s" "pc_prod s = Run i"
  then show ?thesis by (simp add: pc_inv_producer)
next
  fix i
  assume "pc_inv s" "t = consumer i s" "pc_cons s = Run i"
  then show ?thesis by (simp add: pc_inv_consumer)
qed (auto simp: pc_inv_def)

text \<open>
  What is left to do: two for every round, and one for a process that runs. A signal gives one
  back, but the round it ends is worth two.
\<close>

fun proc_rank :: "proc \<Rightarrow> nat" where
  "proc_rank (Run i) = 2 * (ITERATIONS - i) + 1"
| "proc_rank (Waiting i) = 2 * (ITERATIONS - i)"
| "proc_rank Joining = 1"
| "proc_rank Gone = 0"

definition pc_rank :: "prodcons \<Rightarrow> nat" where
  "pc_rank s = proc_rank (pc_prod s) + proc_rank (pc_cons s)"

lemma proc_rank_signalled: "proc_rank (signalled p) \<le> Suc (proc_rank p)"
  by (cases p) simp_all

lemma pc_rank_step: "pc_inv s \<Longrightarrow> pc_step False s t \<Longrightarrow> pc_rank t < pc_rank s"
proof (erule pc_stepE)
  fix i
  assume inv: "pc_inv s" and t: "t = producer i s" and pc: "pc_prod s = Run i"
  then have "i < ITERATIONS" by (simp add: pc_inv_def)
  with t pc proc_rank_signalled [of "pc_cons s"] show ?thesis
    by (auto simp: producer_def pc_rank_def split: option.splits)
next
  fix i
  assume inv: "pc_inv s" and t: "t = consumer i s" and pc: "pc_cons s = Run i"
  then have "i < ITERATIONS" by (simp add: pc_inv_def)
  with t pc proc_rank_signalled [of "pc_prod s"] show ?thesis
    by (auto simp: consumer_def pc_rank_def split: option.splits)
qed (auto simp: pc_rank_def)

interpretation pc_sys: invariant_system "\<lambda>s. s = pc_start" "pc_step spurious" pc_inv for spurious
  by unfold_locales (auto intro: pc_inv_step simp: pc_inv_start)

interpretation pc_term: terminating_system "\<lambda>s. s = pc_start" "pc_step False" pc_inv pc_rank
  by unfold_locales (rule pc_rank_step)

text \<open>A state without a step is the end: no signal is ever lost.\<close>

lemma pc_stuck_final:
  assumes inv: "pc_inv s" and stuck: "\<And>t. \<not> pc_step spurious s t"
  shows "pc_prod s = Gone \<and> pc_cons s = Gone"
proof -
  have noprod: "pc_prod s \<noteq> Run i" and nocons: "pc_cons s \<noteq> Run i" for i
    using stuck pc_step.produce pc_step.consume by blast+
  have nojoin: "\<not> (pc_prod s = Joining \<and> pc_cons s = Gone)"
    using stuck pc_step.join by blast
  have size: "ctx_size (pc_ctx s) = rounds (pc_prod s) - rounds (pc_cons s)"
    using inv by (metis diff_zero length_ctx_content length_map length_upt pc_inv_def)
  show ?thesis
    using inv noprod nocons nojoin size
    by (cases "pc_prod s"; cases "pc_cons s") (auto simp: pc_inv_def BUFFER_SIZE_def)
qed

subsection \<open>The counter under a robust mutex\<close>

definition DYING_ITERATIONS :: nat where "DYING_ITERATIONS = 10000000"

text \<open>
  The mutex: free, held by a process, or left behind by a dead one. A process is in front of
  \<open>pthread_mutex_lock\<close> or inside its critical section, with its loop counter; it is done with its
  loop, has called \<open>exit(1)\<close>, or was killed. The parent then waits for the child, prints and ends.
\<close>

datatype owner = Free | Parent | Child | OwnerDead
datatype dproc = Outside nat | Inside nat | LoopDone | Failed | Killed | Finished

record dying =
  d_owner :: owner
  d_counter :: int
  d_parent :: dproc
  d_child :: dproc
  d_printed :: "int option"

definition dying_start :: dying where
  "dying_start = \<lparr>d_owner = Free, d_counter = 0, d_parent = Outside 0, d_child = Outside 0, d_printed = None\<rparr>"

text \<open>
  The producer: \<open>EOWNERDEAD\<close> makes it the owner, and \<open>pthread_mutex_consistent\<close> repairs the mutex.
  \<open>None\<close> where it cannot move.
\<close>

definition dying_producer :: "dying \<Rightarrow> dying option" where
  "dying_producer s =
     (case d_parent s of
        Outside i \<Rightarrow>
          if i < DYING_ITERATIONS then
            (if d_owner s = Free \<or> d_owner s = OwnerDead
             then Some (s\<lparr>d_owner := Parent, d_parent := Inside i\<rparr>) else None)
          else Some (s\<lparr>d_parent := LoopDone\<rparr>)
      | Inside i \<Rightarrow> Some (s\<lparr>d_counter := d_counter s + 1, d_owner := Free, d_parent := Outside (i + 1)\<rparr>)
      | LoopDone \<Rightarrow>
          if d_child s \<in> {Failed, Killed, Finished}
          then Some (s\<lparr>d_parent := Finished, d_printed := Some (d_counter s)\<rparr>) else None
      | _ \<Rightarrow> None)"

text \<open>The consumer: any error of the lock ends it; its fourth round kills it with the mutex held.\<close>

definition dying_consumer :: "dying \<Rightarrow> dying option" where
  "dying_consumer s =
     (case d_child s of
        Outside i \<Rightarrow>
          if i < DYING_ITERATIONS then
            (case d_owner s of
               Free \<Rightarrow> Some (s\<lparr>d_owner := Child, d_child := Inside i\<rparr>)
             | OwnerDead \<Rightarrow> Some (s\<lparr>d_owner := OwnerDead, d_child := Failed\<rparr>)
             | _ \<Rightarrow> None)
          else Some (s\<lparr>d_child := Finished\<rparr>)
      | Inside i \<Rightarrow>
          (let s = s\<lparr>d_counter := d_counter s - 1\<rparr> in
           if i = 3 then Some (s\<lparr>d_owner := OwnerDead, d_child := Killed\<rparr>)
           else Some (s\<lparr>d_owner := Free, d_child := Outside (i + 1)\<rparr>))
      | _ \<Rightarrow> None)"

inductive dying_step :: "dying \<Rightarrow> dying \<Rightarrow> bool" where
  producer: "dying_producer s = Some t \<Longrightarrow> dying_step s t"
| consumer: "dying_consumer s = Some t \<Longrightarrow> dying_step s t"

inductive_simps dying_step_iff: "dying_step s t"

fun dying_rounds :: "dproc \<Rightarrow> nat" where
  "dying_rounds (Outside i) = i"
| "dying_rounds (Inside i) = i"
| "dying_rounds Killed = 4"
| "dying_rounds _ = DYING_ITERATIONS"

fun inside :: "dproc \<Rightarrow> bool" where
  "inside (Inside i) = True"
| "inside _ = False"

fun parent_ok :: "dproc \<Rightarrow> bool" where
  "parent_ok (Outside i) = (i \<le> DYING_ITERATIONS)"
| "parent_ok (Inside i) = (i < DYING_ITERATIONS)"
| "parent_ok p = (p = LoopDone \<or> p = Finished)"

fun child_ok :: "dproc \<Rightarrow> bool" where
  "child_ok (Outside i) = (i \<le> 3)"
| "child_ok (Inside i) = (i \<le> 3)"
| "child_ok p = (p = Killed)"

definition dying_inv :: "dying \<Rightarrow> bool" where
  "dying_inv s \<longleftrightarrow>
     d_counter s = int (dying_rounds (d_parent s)) - int (dying_rounds (d_child s)) \<and>
     parent_ok (d_parent s) \<and> child_ok (d_child s) \<and>
     (d_owner s = Parent \<longleftrightarrow> inside (d_parent s)) \<and> (d_owner s = Child \<longleftrightarrow> inside (d_child s)) \<and>
     (d_owner s = OwnerDead \<longrightarrow> d_child s = Killed) \<and>
     (d_parent s = Finished \<longrightarrow> d_child s = Killed) \<and>
     d_printed s = (if d_parent s = Finished then Some (d_counter s) else None)"

lemma many_iterations: "4 \<le> DYING_ITERATIONS"
  by (simp add: DYING_ITERATIONS_def)

lemma dying_inv_start: "dying_inv dying_start"
  by (simp add: dying_inv_def dying_start_def)

lemma dying_inv_producer:
  assumes inv: "dying_inv s" and run: "dying_producer s = Some t"
  shows "dying_inv t"
proof (cases "d_parent s")
  case (Outside i)
  show ?thesis
  proof (cases "i < DYING_ITERATIONS")
    case True
    with run Outside have t: "t = s\<lparr>d_owner := Parent, d_parent := Inside i\<rparr>"
      and o: "d_owner s = Free \<or> d_owner s = OwnerDead"
      by (auto simp: dying_producer_def split: if_splits)
    with inv Outside True show ?thesis by (auto simp: dying_inv_def)
  next
    case False
    with run Outside have "t = s\<lparr>d_parent := LoopDone\<rparr>" by (simp add: dying_producer_def)
    with inv Outside False show ?thesis by (simp add: dying_inv_def)
  qed
next
  case (Inside i)
  with run have "t = s\<lparr>d_counter := d_counter s + 1, d_owner := Free, d_parent := Outside (i + 1)\<rparr>"
    by (simp add: dying_producer_def)
  with inv Inside show ?thesis by (auto simp: dying_inv_def)
next
  case LoopDone
  with run have t: "t = s\<lparr>d_parent := Finished, d_printed := Some (d_counter s)\<rparr>"
    and c: "d_child s \<in> {Failed, Killed, Finished}"
    by (simp_all add: dying_producer_def split: if_splits)
  from c inv have "d_child s = Killed" by (auto simp: dying_inv_def)
  with t inv LoopDone show ?thesis by (simp add: dying_inv_def)
qed (use run in \<open>simp_all add: dying_producer_def\<close>)

lemma dying_inv_consumer:
  assumes inv: "dying_inv s" and run: "dying_consumer s = Some t"
  shows "dying_inv t"
proof (cases "d_child s")
  case (Outside i)
  with inv have "i \<le> 3" by (simp add: dying_inv_def)
  then have "i < DYING_ITERATIONS" using many_iterations by simp
  with run Outside inv have "t = s\<lparr>d_owner := Child, d_child := Inside i\<rparr>" "d_owner s = Free"
    by (auto simp: dying_consumer_def dying_inv_def split: owner.splits)
  with inv Outside \<open>i \<le> 3\<close> show ?thesis by (simp add: dying_inv_def)
next
  case (Inside i)
  with inv have "i \<le> 3" and o: "d_owner s = Child" by (simp_all add: dying_inv_def)
  show ?thesis
  proof (cases "i = 3")
    case True
    with run Inside have "t = s\<lparr>d_counter := d_counter s - 1, d_owner := OwnerDead, d_child := Killed\<rparr>"
      by (simp add: dying_consumer_def)
    with inv Inside True o show ?thesis by (simp add: dying_inv_def)
  next
    case False
    with run Inside have "t = s\<lparr>d_counter := d_counter s - 1, d_owner := Free, d_child := Outside (i + 1)\<rparr>"
      by (simp add: dying_consumer_def Let_def)
    with inv Inside False \<open>i \<le> 3\<close> o show ?thesis by (simp add: dying_inv_def)
  qed
qed (use run inv in \<open>simp_all add: dying_consumer_def dying_inv_def\<close>)

lemma dying_inv_step: "dying_inv s \<Longrightarrow> dying_step s t \<Longrightarrow> dying_inv t"
  by (auto simp: dying_step_iff intro: dying_inv_producer dying_inv_consumer)

fun dproc_rank :: "dproc \<Rightarrow> nat" where
  "dproc_rank (Outside i) = 2 * (DYING_ITERATIONS - i) + 2"
| "dproc_rank (Inside i) = 2 * (DYING_ITERATIONS - i) + 1"
| "dproc_rank LoopDone = 1"
| "dproc_rank _ = 0"

definition dying_rank :: "dying \<Rightarrow> nat" where
  "dying_rank s = dproc_rank (d_parent s) + dproc_rank (d_child s)"

lemma dying_rank_step:
  assumes "dying_inv s" and "dying_step s t"
  shows "dying_rank t < dying_rank s"
proof -
  have "dying_rank t < dying_rank s" if "dying_producer s = Some t"
    using that assms(1)
    by (cases "d_parent s") (auto simp: dying_producer_def dying_rank_def dying_inv_def split: if_splits)
  moreover have "dying_rank t < dying_rank s" if "dying_consumer s = Some t"
    using that assms(1) many_iterations
    by (cases "d_child s")
      (auto simp: dying_consumer_def dying_rank_def dying_inv_def Let_def split: if_splits owner.splits)
  ultimately show ?thesis using assms(2) by (auto simp: dying_step_iff)
qed

interpretation dying_sys: terminating_system "\<lambda>s. s = dying_start" dying_step dying_inv dying_rank
  by unfold_locales (auto intro: dying_inv_step dying_rank_step simp: dying_inv_start)

lemma dying_stuck_final:
  assumes inv: "dying_inv s" and stuck: "\<And>t. \<not> dying_step s t"
  shows "d_parent s = Finished \<and> d_child s = Killed"
proof -
  have p: "dying_producer s = None" and c: "dying_consumer s = None"
    using stuck by (auto simp: dying_step_iff simp flip: not_None_eq) (metis not_None_eq)+
  have child: "d_child s = Killed \<or> d_owner s = Parent"
    using c inv many_iterations
    by (cases "d_child s"; cases "d_owner s")
      (auto simp: dying_consumer_def dying_inv_def Let_def split: if_splits)
  show ?thesis
    using p child inv
    by (cases "d_parent s"; cases "d_owner s")
      (auto simp: dying_producer_def dying_inv_def split: if_splits)
qed

subsection \<open>Properties\<close>

text \<open>
  C5: producer and consumer, with spurious wake-ups or without. In every reachable state the
  consumer has received a prefix of 0, 1, 2, ... and the buffer holds exactly what was produced
  and not yet consumed; and a state in which no process can move is the end of both, with all
  twenty numbers produced and consumed in order: no wake-up is lost.
\<close>

theorem prod_cons_in_order:
  assumes "(pc_step spurious)\<^sup>*\<^sup>* pc_start s"
  shows "pc_produced s = pc_consumed s @ ctx_content (pc_ctx s) \<and>
     pc_produced s = map int [0..<length (pc_produced s)] \<and> ctx_size (pc_ctx s) \<le> BUFFER_SIZE \<and>
     ((\<exists>t. pc_step spurious s t) \<or>
      pc_prod s = Gone \<and> pc_cons s = Gone \<and> pc_consumed s = map int [0..<20] \<and> pc_produced s = map int [0..<20])"
proof -
  have inv: "pc_inv s" using pc_sys.inv_reachable [OF _ assms] by simp
  have "map int [0..<b] = map int [0..<a] @ map int [a..<b]" if "a \<le> b" for a b
    using that upt_add_eq_append [of 0 a "b - a"] by simp
  then have "pc_produced s = pc_consumed s @ ctx_content (pc_ctx s)"
    using inv by (simp add: pc_inv_def)
  moreover have "pc_produced s = map int [0..<length (pc_produced s)]" "ctx_size (pc_ctx s) \<le> BUFFER_SIZE"
    using inv by (simp_all add: pc_inv_def ctx_wf_def)
  moreover have "pc_prod s = Gone \<and> pc_cons s = Gone" if "\<not> (\<exists>t. pc_step spurious s t)"
    using pc_stuck_final [OF inv] that by blast
  moreover have "pc_consumed s = map int [0..<20] \<and> pc_produced s = map int [0..<20]"
    if "pc_prod s = Gone" "pc_cons s = Gone"
    using inv that by (simp add: pc_inv_def ITERATIONS_def)
  ultimately show ?thesis by blast
qed

theorem prod_cons_in_order_witness:
  "(pc_step True)\<^sup>*\<^sup>* pc_start (producer 0 pc_start) \<and> ctx_content (pc_ctx (producer 0 pc_start)) = [0] \<and>
     (\<exists>t. pc_step True (producer 0 pc_start) t)"
proof -
  have r: "(pc_step True)\<^sup>*\<^sup>* pc_start (producer 0 pc_start)"
    by (rule r_into_rtranclp, rule pc_step.produce) (simp add: pc_start_def)
  have "pc_prod (producer 0 pc_start) = Run 1" "pc_produced (producer 0 pc_start) = [0]"
      "pc_consumed (producer 0 pc_start) = []"
    by (simp_all add: producer_def pc_start_def ctx_put_def ctx_zero_def BUFFER_SIZE_def ITERATIONS_def)
  with prod_cons_in_order [OF r] r show ?thesis by auto
qed

text \<open>
  Without spurious wake-ups every execution is finite, of at most 82 steps, and can only end
  with both processes gone and the twenty numbers consumed.
\<close>

lemma prod_cons_terminates:
  assumes "(pc_step False ^^ n) pc_start s"
  shows "n \<le> 82 \<and> (\<exists>t. (pc_step False)\<^sup>*\<^sup>* s t \<and> pc_prod t = Gone \<and> pc_cons t = Gone \<and>
     pc_consumed t = map int [0..<20])"
proof -
  have reach: "(pc_step False)\<^sup>*\<^sup>* pc_start s" using assms by (rule relpowp_imp_rtranclp)
  have inv: "pc_inv s" using pc_sys.inv_reachable [OF _ reach] by simp
  obtain t where t: "(pc_step False)\<^sup>*\<^sup>* s t" "\<forall>u. \<not> pc_step False t u"
    using pc_term.reach_final_aux [OF inv] by blast
  have invt: "pc_inv t" using pc_sys.inv_steps [OF t(1) inv] .
  have "pc_prod t = Gone \<and> pc_cons t = Gone" using pc_stuck_final [OF invt] t(2) by blast
  moreover have "pc_rank pc_start = 82" by (simp add: pc_rank_def pc_start_def ITERATIONS_def)
  ultimately show ?thesis
    using pc_term.run_length_bound [OF pc_inv_start assms] t(1) invt
    by (auto simp: pc_inv_def ITERATIONS_def)
qed

lemma prod_cons_terminates_example:
  "\<exists>t. (pc_step False)\<^sup>*\<^sup>* (consumer 0 pc_start) t \<and> pc_consumed t = map int [0..<20]"
proof -
  have "(pc_step False ^^ 1) pc_start (consumer 0 pc_start)"
    unfolding relpowp_1 by (rule pc_step.consume) (simp add: pc_start_def)
  from prod_cons_terminates [OF this] show ?thesis by blast
qed

text \<open>
  C34: the robust mutex. However the two processes interleave, the parent never fails, never hangs
  on the dead owner's mutex and ends after finitely many steps, and what it prints is always
  the ten million increments less the four decrements of the child.
\<close>

theorem dying_final_counter:
  assumes "dying_step\<^sup>*\<^sup>* dying_start s"
  shows "d_parent s \<noteq> Failed \<and> d_printed s \<in> {None, Some 9999996} \<and>
     (\<exists>t. dying_step\<^sup>*\<^sup>* s t \<and> d_printed t = Some 9999996 \<and> d_child t = Killed) \<and>
     ((\<exists>t. dying_step s t) \<or> d_printed s = Some 9999996)"
proof -
  have inv: "dying_inv s" using dying_sys.inv_reachable [OF _ assms] by simp
  have printed: "d_printed t = (if d_parent t = Finished then Some 9999996 else None)"
    if "dying_inv t" for t
    using that by (simp add: dying_inv_def DYING_ITERATIONS_def)
  obtain t where t: "dying_step\<^sup>*\<^sup>* s t" "\<forall>u. \<not> dying_step t u"
    using dying_sys.reach_final_aux [OF inv] by blast
  have invt: "dying_inv t" using dying_sys.inv_steps [OF t(1) inv] .
  have "d_parent t = Finished \<and> d_child t = Killed" using dying_stuck_final [OF invt] t(2) by blast
  then have "\<exists>t. dying_step\<^sup>*\<^sup>* s t \<and> d_printed t = Some 9999996 \<and> d_child t = Killed"
    using t(1) printed [OF invt] by auto
  moreover have "(\<exists>t. dying_step s t) \<or> d_printed s = Some 9999996"
    using dying_stuck_final [OF inv] printed [OF inv] by auto
  moreover have "d_parent s \<noteq> Failed" using inv by (auto simp: dying_inv_def)
  ultimately show ?thesis using printed [OF inv] by simp
qed

theorem dying_final_counter_witness:
  "\<exists>s. dying_step dying_start s \<and> d_owner s = Child \<and> (\<exists>t. dying_step\<^sup>*\<^sup>* s t \<and> d_printed t = Some 9999996)"
proof -
  let ?s = "dying_start\<lparr>d_owner := Child, d_child := Inside 0\<rparr>"
  have s: "dying_step dying_start ?s"
    by (rule dying_step.consumer) (simp add: dying_consumer_def dying_start_def DYING_ITERATIONS_def)
  from dying_final_counter [OF r_into_rtranclp [of dying_step, OF s]] s
  show ?thesis by (intro exI [of _ ?s]) auto
qed

end
