(* ===== verification/FileSplit.thy ===== *)
theory FileSplit
  imports Prelude
begin

section \<open>A file split among children\<close>

text \<open>
  Two programs cut a file into one piece per child: \<open>sop2/lab03/zad01/zad01.c\<close> counts letters into
  a shared array, and \<open>sop1/lab02/prelab/workshop/src/sop-l2.c\<close> changes the case of every other
  letter of each piece into a file of its own.
\<close>

subsection \<open>Counting letters (zad01.c)\<close>












subsection \<open>The pieces make up the file\<close>




definition letter :: "nat \<Rightarrow> char" where
  "letter j = char_of (97 + j)"

definition occurrences :: "nat \<Rightarrow> string \<Rightarrow> nat" where
  "occurrences j s = length (filter (\<lambda>c. schar c = 97 + int j) s)"

lemma occurrences_append [simp]: "occurrences j (s @ t) = occurrences j s + occurrences j t"
  by (simp add: occurrences_def)


lemma occurrences_take_Suc:
  "i < length s \<Longrightarrow> occurrences j (take (Suc i) s) =
     occurrences j (take i s) + (if schar (s ! i) = 97 + int j then 1 else 0)"
  by (simp add: take_Suc_conv_app_nth) (simp add: occurrences_def)

subsection \<open>Every interleaving counts every letter once\<close>






lemma schar_az: "schar (CHR ''a'') = 97" "schar (CHR ''z'') = 122"
  by (simp_all add: schar_def Let_def)






subsection \<open>Changing the case of every other letter (sop-l2.c)\<close>

text \<open>
  \<open>create_children\<close>: the pieces, with what \<open>moved_already\<close> counts; the child of number \<open>i\<close> writes
  to the file's name with \<open>-\<close> and the digit appended.
\<close>

definition per_child :: "nat \<Rightarrow> nat \<Rightarrow> nat" where
  "per_child filesz n = (filesz + n - 1) div n"

fun child_chunks :: "string \<Rightarrow> nat \<Rightarrow> nat \<Rightarrow> nat \<Rightarrow> nat \<Rightarrow> string list" where
  "child_chunks file_content per 0 i moved_already = []"
| "child_chunks file_content per (Suc left) i moved_already =
     (let filesz = length file_content;
          child_chunksz = (if filesz - moved_already \<ge> per then per else filesz - moved_already) in
      take child_chunksz (drop moved_already file_content) #
        child_chunks file_content per left (i + 1) (moved_already + child_chunksz))"

definition create_children :: "string \<Rightarrow> string \<Rightarrow> nat \<Rightarrow> (string \<times> string) list" where
  "create_children filename file_content n =
     zip (map (\<lambda>i. filename @ ''-'' @ [char_of_int (int i + 48)]) [0..<n])
       (child_chunks file_content (per_child (length file_content) n) n 0 0)"

text \<open>One letter of \<open>child_work\<close>: what is written and the next \<open>change\<close>.\<close>

definition toggle_char :: "char \<Rightarrow> bool \<Rightarrow> char \<times> bool" where
  "toggle_char c change =
     (if schar c \<ge> schar (CHR ''A'') \<and> schar c \<le> schar (CHR ''Z'')
      then (if change then char_of_int (schar c + 32) else c, \<not> change)
      else if schar c \<ge> schar (CHR ''a'') \<and> schar c \<le> schar (CHR ''z'')
      then (if change then char_of_int (schar c - 32) else c, \<not> change)
      else (c, change))"

text \<open>
  The writing loop. The second argument says, for each turn, whether SIGINT has been handled by
  the time of the test at its end (the sleep and the write are resumed when interrupted).
\<close>

fun toggle_loop :: "string \<Rightarrow> bool list \<Rightarrow> bool \<Rightarrow> string" where
  "toggle_loop [] sigs change = []"
| "toggle_loop (c # chunk) sigs change =
     (let (c', change') = toggle_char c change in
      case sigs of
        True # _ \<Rightarrow> [c']
      | False # sigs' \<Rightarrow> c' # toggle_loop chunk sigs' change'
      | [] \<Rightarrow> c' # toggle_loop chunk [] change')"

text \<open>
  Waiting for the start: each \<open>sigsuspend\<close> returns after a batch of handlers has run, and the
  last of them has set \<open>last_signal\<close>. \<open>None\<close>: the child waits in \<open>sigsuspend\<close> for ever.
\<close>

datatype sig = SIGINT | SIGUSR1

fun wait_for_start :: "sig option \<Rightarrow> sig list list \<Rightarrow> sig list list option" where
  "wait_for_start last_signal batches =
     (if last_signal = Some SIGUSR1 then Some batches
      else
        (case batches of
           [] \<Rightarrow> None
         | b # bs \<Rightarrow> wait_for_start (if b = [] then last_signal else Some (last b)) bs))"

declare wait_for_start.simps [simp del]

definition toggle_child :: "string \<Rightarrow> sig list list \<Rightarrow> bool list \<Rightarrow> string option" where
  "toggle_child chunk batches sigs =
     (case wait_for_start None batches of
        None \<Rightarrow> None
      | Some _ \<Rightarrow> Some (toggle_loop chunk sigs True))"

lemma concat_child_chunks:
  "moved \<le> length fc \<Longrightarrow>
     concat (child_chunks fc per m i moved) = take (m * per) (drop moved fc) \<and>
     length (child_chunks fc per m i moved) = m"
proof (induction m arbitrary: i moved)
  case (Suc m)
  let ?sz = "if length fc - moved \<ge> per then per else length fc - moved"
  have "moved + ?sz \<le> length fc" using Suc.prems by auto
  with Suc.IH [of "moved + ?sz" "i + 1"] show ?case
    by (auto simp: Let_def take_add add.commute)
qed simp

lemma per_child_enough: "0 < n \<Longrightarrow> sz \<le> n * per_child sz n"
proof -
  assume "0 < n"
  then have "sz + n - 1 < n * (per_child sz n + 1)"
    using dividend_less_times_div [of n "sz + n - 1"] by (simp add: per_child_def)
  then show ?thesis using \<open>0 < n\<close> by simp
qed

definition is_letter :: "char \<Rightarrow> bool" where
  "is_letter c \<longleftrightarrow> 65 \<le> schar c \<and> schar c \<le> 90 \<or> 97 \<le> schar c \<and> schar c \<le> 122"

definition swap_case :: "char \<Rightarrow> char" where
  "swap_case c =
     (if 65 \<le> schar c \<and> schar c \<le> 90 then char_of_int (schar c + 32)
      else if 97 \<le> schar c \<and> schar c \<le> 122 then char_of_int (schar c - 32) else c)"

lemma schar_AZ: "schar (CHR ''A'') = 65" "schar (CHR ''Z'') = 90"
  by (simp_all add: schar_def Let_def)

lemma toggle_char_alt:
  "toggle_char c change = (if is_letter c then (if change then swap_case c else c, \<not> change) else (c, change))"
  by (auto simp: toggle_char_def is_letter_def swap_case_def schar_az schar_AZ)

lemma schar_char_of_int: "0 \<le> i \<Longrightarrow> i < 128 \<Longrightarrow> schar (char_of_int i) = i"
proof -
  assume i: "0 \<le> i" "i < 128"
  have "(of_char (char_of (nat i)) :: nat) = nat i" using i by simp
  then have "(of_char (char_of (nat i)) :: int) = i"
    using i by (metis int_nat_eq of_nat_of_char)
  with i show ?thesis by (simp add: schar_def char_of_int_def)
qed

lemma swap_case_letter: "is_letter (swap_case c) = is_letter c" "swap_case (swap_case c) = c"
proof -
  consider "65 \<le> schar c \<and> schar c \<le> 90" | "97 \<le> schar c \<and> schar c \<le> 122" | "\<not> is_letter c"
    by (auto simp: is_letter_def)
  then show "is_letter (swap_case c) = is_letter c"
    by cases (auto simp: swap_case_def is_letter_def schar_char_of_int)
  consider "65 \<le> schar c \<and> schar c \<le> 90" | "97 \<le> schar c \<and> schar c \<le> 122" | "\<not> is_letter c"
    by (auto simp: is_letter_def)
  then show "swap_case (swap_case c) = c"
    by cases (auto simp: swap_case_def is_letter_def schar_char_of_int)
qed

text \<open>The specification: every other letter, counting from the first one if \<open>change\<close> holds.\<close>

definition letters_before :: "string \<Rightarrow> nat \<Rightarrow> nat" where
  "letters_before s i = length (filter is_letter (take i s))"

lemma toggle_loop_nth:
  "i < length s \<Longrightarrow> toggle_loop s [] change ! i =
     (if is_letter (s ! i) \<and> (even (letters_before s i) \<longleftrightarrow> change) then swap_case (s ! i) else s ! i)"
proof (induction s arbitrary: i change)
  case (Cons c s)
  then show ?case
    by (cases i) (auto simp: toggle_char_alt letters_before_def Let_def)
qed simp

lemma length_toggle_loop: "length (toggle_loop s [] change) = length s"
  by (induction s arbitrary: change) (simp_all add: case_prod_beta)

lemma toggle_loop_twice: "toggle_loop (toggle_loop s [] change) [] change = s"
  by (induction s arbitrary: change) (auto simp: toggle_char_alt swap_case_letter)

lemma toggle_loop_sigs: "True \<notin> set sigs \<Longrightarrow> toggle_loop s sigs change = toggle_loop s [] change"
  by (induction s sigs change rule: toggle_loop.induct) (auto split: list.splits bool.splits prod.splits)

lemma toggle_loop_interrupted:
  "k < length s \<Longrightarrow> toggle_loop s (replicate k False @ True # sigs) change = take (Suc k) (toggle_loop s [] change)"
proof (induction s arbitrary: k change)
  case (Cons c s)
  then show ?case by (cases k) (simp_all add: case_prod_beta)
qed simp

lemma wait_for_start_None: "(\<And>b. b \<in> set bs \<Longrightarrow> b \<noteq> [] \<Longrightarrow> last b \<noteq> SIGUSR1) \<Longrightarrow> l \<noteq> Some SIGUSR1 \<Longrightarrow>
    wait_for_start l bs = None"
proof (induction bs arbitrary: l)
  case Nil
  then show ?case by (simp add: wait_for_start.simps)
next
  case (Cons b bs)
  then show ?case by (subst wait_for_start.simps) auto
qed

subsection \<open>Properties\<close>


text \<open>
  C33: the workshop program without SIGINT. The pieces make up the file, one for each of the \<open>n\<close>
  children, who all write to different files; each child writes its piece with the case of the
  letters number 0, 2, 4, ... changed and nothing else, so that running the program on its own
  output restores the piece.
\<close>

theorem workshop_output:
  assumes "0 < n" and "n < 10" and "(out_name, chunk) \<in> set (create_children filename content n)"
    and "True \<notin> set sigs"
  shows "concat (map snd (create_children filename content n)) = content \<and>
     distinct (map fst (create_children filename content n)) \<and> length (create_children filename content n) = n \<and>
     (\<exists>out. toggle_child chunk [[SIGUSR1]] sigs = Some out \<and> length out = length chunk \<and>
        (\<forall>i < length chunk. out ! i =
           (if is_letter (chunk ! i) \<and> even (letters_before chunk i) then swap_case (chunk ! i) else chunk ! i)) \<and>
        toggle_child out [[SIGUSR1]] sigs = Some chunk)"
proof -
  have len: "length (child_chunks content (per_child (length content) n) n 0 0) = n"
    and cc: "concat (child_chunks content (per_child (length content) n) n 0 0) = content"
    using concat_child_chunks [of 0 content "per_child (length content) n" n 0]
      per_child_enough [OF assms(1), of "length content"] by simp_all
  have "concat (map snd (create_children filename content n)) = content"
    "length (create_children filename content n) = n"
    using len cc by (simp_all add: create_children_def)
  moreover have "distinct (map fst (create_children filename content n))"
  proof -
    have "inj_on (\<lambda>i. filename @ ''-'' @ [char_of_int (int i + 48)]) {0..<n}"
    proof (rule inj_onI)
      fix i j assume "i \<in> {0..<n}" "j \<in> {0..<n}"
        "filename @ ''-'' @ [char_of_int (int i + 48)] = filename @ ''-'' @ [char_of_int (int j + 48)]"
      then have "schar (char_of_int (int i + 48)) = schar (char_of_int (int j + 48))" "i < 10" "j < 10"
        using assms(2) by auto
      then show "i = j" by (simp add: schar_char_of_int)
    qed
    with len show ?thesis by (simp add: create_children_def distinct_map)
  qed
  moreover have "wait_for_start None [[SIGUSR1]] = Some []" by (simp add: wait_for_start.simps)
  ultimately show ?thesis
    by (simp add: toggle_child_def toggle_loop_sigs [OF assms(4)] length_toggle_loop toggle_loop_nth
        toggle_loop_twice)
qed

text \<open>
  The start signal can be lost. If SIGINT is handled after SIGUSR1 within one \<open>sigsuspend\<close>, or
  SIGUSR1 does not come any more, \<open>last_signal\<close> is not SIGUSR1 when the child looks, it waits for
  ever and writes nothing; and SIGINT during the writing leaves a file that ends with the
  character being written.
\<close>

lemma workshop_signals:
  assumes "\<not> (\<exists>b \<in> set batches. b \<noteq> [] \<and> last b = SIGUSR1)" and "k < length chunk"
  shows "toggle_child chunk ([SIGUSR1, SIGINT] # batches) sigs = None \<and>
     toggle_child chunk [[SIGUSR1]] (replicate k False @ True # sigs) =
       Some (take (k + 1) (toggle_loop chunk [] True))"
proof -
  have "wait_for_start None ([SIGUSR1, SIGINT] # batches) = None"
    using assms(1) by (intro wait_for_start_None) auto
  moreover have "wait_for_start None [[SIGUSR1]] = Some []" by (simp add: wait_for_start.simps)
  ultimately show ?thesis using toggle_loop_interrupted [OF assms(2), of sigs True]
    by (simp add: toggle_child_def)
qed



theorem workshop_output_witness:
  "toggle_child ''Ala ma kota'' [[SIGUSR1]] [] \<noteq> None \<and>
   concat (map snd (create_children ''f'' ''Ala ma kota'' 1)) = ''Ala ma kota''"
proof -
  have "create_children ''f'' ''Ala ma kota'' 1 = [(''f-0'', ''Ala ma kota'')]"
    by (simp add: create_children_def per_child_def char_of_int_def char_of_digits)
  then show ?thesis
    using workshop_output [of 1 "''f-0''" "''Ala ma kota''" "''f''" "''Ala ma kota''" "[]"] by auto
qed

lemma workshop_signals_example:
  "toggle_child ''12'' [[SIGUSR1, SIGINT], [SIGINT]] [] = None \<and>
   toggle_child ''12'' [[SIGUSR1]] [True] = Some ''1''"
proof -
  have "toggle_loop ''12'' [] True = ''12''" by (simp add: toggle_char_def schar_def Let_def)
  moreover have "\<not> (\<exists>b \<in> set [[SIGINT]]. b \<noteq> [] \<and> last b = SIGUSR1)" by simp
  ultimately show ?thesis
    using workshop_signals [of "[[SIGINT]]" 0 "''12''" "[]"] workshop_signals [of "[[SIGINT]]" 0 "''12''" "[True]"]
    by simp
qed

end
