(* ===== verification/CardRing.thy ===== *)
theory CardRing
  imports Wire
begin

section \<open>The card game on a ring of pipes\<close>

text \<open>
  \<open>sop2/lab01/zad05/zad05.c\<close>: \<open>n\<close> children sit in a ring and pass cards to the right through
  pipes, one at a time, until one of them holds a hand of one suit; it writes its number to a
  FIFO, and the parent ends the game with SIGUSR1. The parent's shuffle and deal, the encoding
  of the winner, and every process as interleaved actions.
\<close>

unbundle bit_operations_syntax

subsection \<open>Numbers in four bytes\<close>

definition encode_number :: "32 word \<Rightarrow> 32 word list" where
  "encode_number x =
     [x AND 0xff, drop_bit 8 x AND 0xff, drop_bit 16 x AND 0xff, drop_bit 24 x AND 0xff]"

fun decode_number :: "32 word list \<Rightarrow> 32 word" where
  "decode_number (b0 # b1 # b2 # b3 # _) = b0 + push_bit 8 b1 + push_bit 16 b2 + push_bit 24 b3"
| "decode_number _ = 0"

subsection \<open>Shuffle and deal\<close>

definition DECK_SZ :: nat where "DECK_SZ = 52"

definition new_deck :: "nat list" where
  "new_deck = [0..<DECK_SZ]"

text \<open>One exchange; \<open>r\<close> and \<open>r'\<close> are what the two calls of \<open>rand\<close> return.\<close>

definition swap_cards :: "nat \<Rightarrow> nat \<Rightarrow> nat list \<Rightarrow> nat list" where
  "swap_cards r r' deck =
     (let j = r mod DECK_SZ; k = r' mod DECK_SZ; tmp = deck ! j in deck[j := deck ! k, k := tmp])"

fun shuffle :: "(nat \<times> nat) list \<Rightarrow> nat list \<Rightarrow> nat list" where
  "shuffle [] deck = deck"
| "shuffle ((r, r') # rs) deck = shuffle rs (swap_cards r r' deck)"

text \<open>What the parent writes to child \<open>i\<close>.\<close>

definition dealt :: "nat \<Rightarrow> nat list \<Rightarrow> nat \<Rightarrow> nat list" where
  "dealt m deck i = map (\<lambda>j. deck ! (i * m + j)) [0..<m]"

subsection \<open>The children\<close>

fun check_win_loop :: "nat \<Rightarrow> nat list \<Rightarrow> bool" where
  "check_win_loop color [] = True"
| "check_win_loop color (c # cs) = (if c mod 4 \<noteq> color then False else check_win_loop color cs)"

definition check_win :: "nat list \<Rightarrow> bool" where
  "check_win hand = check_win_loop (hand ! 0 mod 4) (tl hand)"

text \<open>
  Where a child is: taking its cards from the parent's pipe; in front of \<open>rand\<close> and \<open>write\<close>; after
  the write of card \<open>j\<close>; after the test of \<open>last_signal\<close>; inside \<open>read\<close>; with a winning hand in
  front of \<open>open\<close> of the FIFO; gone, with the slot whose card it had passed on.
\<close>

datatype player =
  Dealing | Choose | Sent nat | BeforeRead nat | Reading nat | Won | Left "nat option"

datatype host = Polling | Killed | Closed

record ring_game =
  g_m :: nat
  g_inbox :: "nat list list" \<comment> \<open>the pipes from the parent\<close>
  g_hands :: "nat list list"
  g_pipes :: "nat list list" \<comment> \<open>pipe \<open>i\<close> is written by child \<open>i\<close>\<close>
  g_pc :: "player list"
  g_pending :: "bool list"
  g_last_signal :: "bool list"
  g_fifo :: "32 word list list"
  g_host :: host
  g_winner :: "32 word option"

definition ring_start :: "nat \<Rightarrow> nat \<Rightarrow> nat list \<Rightarrow> ring_game" where
  "ring_start n m deck =
     \<lparr>g_m = m, g_inbox = map (dealt m deck) [0..<n], g_hands = replicate n [], g_pipes = replicate n [],
      g_pc = replicate n Dealing, g_pending = replicate n False, g_last_signal = replicate n False,
      g_fifo = [], g_host = Polling, g_winner = None\<rparr>"

text \<open>\<open>child_fds_read[(i + 1) % n] = fds[0]\<close>: child \<open>i\<close> reads what its left neighbour writes.\<close>

definition left_of :: "ring_game \<Rightarrow> nat \<Rightarrow> nat" where
  "left_of g i = (i + length (g_pc g) - 1) mod length (g_pc g)"

datatype action =
    ADeal nat | ASend nat nat | ACheck nat | AEnter nat | ARead nat | AReport nat "32 word"
  | ADeliver nat | APoll | AInterrupt | AClose

definition set_pc :: "nat \<Rightarrow> player \<Rightarrow> ring_game \<Rightarrow> ring_game" where
  "set_pc i p g = g\<lparr>g_pc := (g_pc g)[i := p]\<rparr>"

definition set_hand :: "nat \<Rightarrow> nat list \<Rightarrow> ring_game \<Rightarrow> ring_game" where
  "set_hand i h g = g\<lparr>g_hands := (g_hands g)[i := h]\<rparr>"

definition set_pipe :: "nat \<Rightarrow> nat list \<Rightarrow> ring_game \<Rightarrow> ring_game" where
  "set_pipe i p g = g\<lparr>g_pipes := (g_pipes g)[i := p]\<rparr>"

text \<open>\<open>child_work\<close>, and the delivery of SIGUSR1 or SIGINT to a child; \<open>None\<close> where it cannot happen.\<close>

fun child_act :: "action \<Rightarrow> ring_game \<Rightarrow> ring_game option" where
  "child_act (ADeal i) g =
     (case (g_pc g ! i, g_inbox g ! i) of
        (Dealing, c # cs) \<Rightarrow>
          (let hand = g_hands g ! i @ [c]; g = set_hand i hand (g\<lparr>g_inbox := (g_inbox g)[i := cs]\<rparr>) in
           Some (if length hand < g_m g then g else set_pc i Choose g))
      | _ \<Rightarrow> None)"
| "child_act (ASend i r) g =
     (if g_pc g ! i = Choose
      then (let j = r mod g_m g in
            Some (set_pc i (Sent j) (set_pipe i (g_pipes g ! i @ [g_hands g ! i ! j]) g)))
      else None)"
| "child_act (ACheck i) g =
     (case g_pc g ! i of
        Sent j \<Rightarrow> Some (if g_last_signal g ! i then set_pc i (Left (Some j)) g
                       else set_pc i (BeforeRead j) (set_hand i ((g_hands g ! i)[j := 0]) g))
      | _ \<Rightarrow> None)"
| "child_act (AEnter i) g =
     (case g_pc g ! i of BeforeRead j \<Rightarrow> Some (set_pc i (Reading j) g) | _ \<Rightarrow> None)"
| "child_act (ARead i) g =
     (case (g_pc g ! i, g_pipes g ! left_of g i) of
        (Reading j, c # cs) \<Rightarrow>
          (let hand = (g_hands g ! i)[j := c] in
           Some (set_pc i (if check_win hand then Won else Choose)
             (set_hand i hand (set_pipe (left_of g i) cs g))))
      | _ \<Rightarrow> None)"
| "child_act (AReport i pid) g =
     (if g_pc g ! i = Won \<and> g_host g \<noteq> Closed
      then Some (set_pc i (Left None) (g\<lparr>g_fifo := g_fifo g @ [encode_number pid]\<rparr>)) else None)"
| "child_act (ADeliver i) g =
     (if g_pending g ! i
      then (let g = g\<lparr>g_pending := (g_pending g)[i := False], g_last_signal := (g_last_signal g)[i := True]\<rparr> in
            case g_pc g ! i of Reading j \<Rightarrow> Some (set_pc i (Left (Some j)) g) | _ \<Rightarrow> Some g)
      else None)"
| "child_act _ g = None"

text \<open>The end of \<open>parent_work\<close>: a winner in the FIFO, or SIGINT (sent to the children, too).\<close>

definition end_game :: "ring_game \<Rightarrow> ring_game" where
  "end_game g = g\<lparr>g_pending := replicate (length (g_pc g)) True, g_host := Killed\<rparr>"

fun parent_act :: "action \<Rightarrow> ring_game \<Rightarrow> ring_game option" where
  "parent_act APoll g =
     (case (g_host g, g_fifo g) of
        (Polling, buf # rest) \<Rightarrow> Some (end_game (g\<lparr>g_fifo := rest, g_winner := Some (decode_number buf)\<rparr>))
      | _ \<Rightarrow> None)"
| "parent_act AInterrupt g = (if g_host g = Polling then Some (end_game g) else None)"
| "parent_act AClose g = (if g_host g = Killed then Some (g\<lparr>g_host := Closed\<rparr>) else None)"
| "parent_act _ g = None"

fun actor :: "action \<Rightarrow> nat option" where
  "actor (ADeal i) = Some i" | "actor (ASend i _) = Some i" | "actor (ACheck i) = Some i"
| "actor (AEnter i) = Some i" | "actor (ARead i) = Some i" | "actor (AReport i _) = Some i"
| "actor (ADeliver i) = Some i" | "actor _ = None"

definition ring_act :: "action \<Rightarrow> ring_game \<Rightarrow> ring_game option" where
  "ring_act a g =
     (case actor a of
        Some i \<Rightarrow> if i < length (g_pc g) then child_act a g else None
      | None \<Rightarrow> parent_act a g)"

definition ring_step :: "ring_game \<Rightarrow> ring_game \<Rightarrow> bool" where
  "ring_step g h \<longleftrightarrow> (\<exists>a. ring_act a g = Some h)"

fun run_acts :: "action list \<Rightarrow> ring_game \<Rightarrow> ring_game option" where
  "run_acts [] g = Some g"
| "run_acts (a # as) g = (case ring_act a g of None \<Rightarrow> None | Some h \<Rightarrow> run_acts as h)"

lemma run_acts_steps: "run_acts as g = Some h \<Longrightarrow> ring_step\<^sup>*\<^sup>* g h"
proof (induction as arbitrary: g)
  case (Cons a as)
  then obtain u where "ring_act a g = Some u" "run_acts as u = Some h" by (auto split: option.splits)
  then have "ring_step g u" "ring_step\<^sup>*\<^sup>* u h" using Cons.IH unfolding ring_step_def by blast+
  then show ?case by (rule converse_rtranclp_into_rtranclp)
qed simp

subsection \<open>Round trip and permutation\<close>

lemma byte_mask: "(x AND 0xff :: 32 word) = take_bit 8 x"
  by (simp add: take_bit_eq_mask mask_eq_exp_minus_1)

lemma decode_encode: "decode_number (encode_number x) = x"
proof -


  have step: "push_bit k (take_bit 8 (drop_bit k x)) + take_bit k x = take_bit (k + 8) x" for k
  proof -
    have "push_bit k (take_bit 8 (drop_bit k x)) + take_bit k x =
        push_bit k (take_bit 8 (drop_bit k x)) OR take_bit k x"
      by (rule disjunctive_add) (auto simp: bit_simps)
    also have "\<dots> = take_bit (k + 8) x"
      by (rule bit_eqI) (auto simp: bit_simps)
    finally show ?thesis .
  qed
  have "take_bit 32 x = x" by (simp add: take_bit_word_eq_self)
  with step [of 24] step [of 16] step [of 8] show ?thesis
    by (simp add: encode_number_def byte_mask add.commute add.left_commute)
qed

lemma swap_cards_mset: "length deck = DECK_SZ \<Longrightarrow> mset (swap_cards r r' deck) = mset deck"
  by (simp add: swap_cards_def Let_def mset_swap_update DECK_SZ_def)

lemma length_swap_cards [simp]: "length (swap_cards r r' deck) = length deck"
  by (simp add: swap_cards_def Let_def)

lemma shuffle_mset: "length deck = DECK_SZ \<Longrightarrow> mset (shuffle rs deck) = mset deck \<and> length (shuffle rs deck) = DECK_SZ"
  by (induction rs deck rule: shuffle.induct) (auto simp: swap_cards_mset)

lemma concat_dealt:
  "k * m \<le> length deck \<Longrightarrow> concat (map (dealt m deck) [0..<k]) = take (k * m) deck"
proof (induction k)
  case (Suc k)
  have "dealt m deck k = take m (drop (k * m) deck)"
    using Suc.prems by (intro nth_equalityI) (simp_all add: dealt_def)
  with Suc show ?case by (simp add: take_add [symmetric] add.commute)
qed simp

lemma check_win_loop_iff: "check_win_loop color cs \<longleftrightarrow> (\<forall>c \<in> set cs. c mod 4 = color)"
  by (induction cs) auto

lemma check_win_iff:
  "hand \<noteq> [] \<Longrightarrow> check_win hand \<longleftrightarrow> (\<exists>color. \<forall>c \<in> set hand. c mod 4 = color)"
  by (cases hand) (auto simp: check_win_def check_win_loop_iff)

subsection \<open>No card is lost or doubled\<close>

text \<open>The slot of a hand whose card is on its way to the right neighbour.\<close>

fun hole :: "player \<Rightarrow> nat option" where
  "hole (Sent j) = Some j"
| "hole (BeforeRead j) = Some j"
| "hole (Reading j) = Some j"
| "hole (Left h) = h"
| "hole _ = None"

definition held :: "player \<times> nat list \<Rightarrow> nat multiset" where
  "held ph = (case hole (fst ph) of
     None \<Rightarrow> mset (snd ph)
   | Some j \<Rightarrow> mset (take j (snd ph)) + mset (drop (Suc j) (snd ph)))"

definition in_play :: "ring_game \<Rightarrow> nat multiset" where
  "in_play g = sum_list (map mset (g_inbox g)) + sum_list (map mset (g_pipes g)) +
     sum_list (map held (zip (g_pc g) (g_hands g)))"

definition seat_ok :: "nat \<Rightarrow> player \<Rightarrow> nat list \<Rightarrow> nat list \<Rightarrow> bool" where
  "seat_ok m p hand inbox \<longleftrightarrow>
     (if p = Dealing then length hand < m \<and> length hand + length inbox = m
      else length hand = m \<and> inbox = []) \<and>
     (\<forall>j. hole p = Some j \<longrightarrow> j < m) \<and>
     (p = Won \<or> p = Left None \<longrightarrow> check_win hand)"

definition ring_shape :: "nat \<Rightarrow> nat \<Rightarrow> ring_game \<Rightarrow> bool" where
  "ring_shape n m g \<longleftrightarrow> g_m g = m \<and> 0 < m \<and>
     length (g_pc g) = n \<and> length (g_hands g) = n \<and> length (g_inbox g) = n \<and> length (g_pipes g) = n \<and>
     length (g_pending g) = n \<and> length (g_last_signal g) = n \<and>
     (\<forall>i < n. seat_ok m (g_pc g ! i) (g_hands g ! i) (g_inbox g ! i))"

definition ring_inv :: "nat \<Rightarrow> nat \<Rightarrow> nat list \<Rightarrow> ring_game \<Rightarrow> bool" where
  "ring_inv n m deck g \<longleftrightarrow> ring_shape n m g \<and> in_play g = mset (take (n * m) deck)"

lemma mset_hole: "j < length h \<Longrightarrow> mset h = mset (take j h) + mset (drop (Suc j) h) + {#h ! j#}"
  by (metis (no_types, lifting) add.commute add_mset_add_single id_take_nth_drop mset.simps(2) mset_append
      union_mset_add_mset_right)

lemma held_hole: "j < length h \<Longrightarrow> hole p = Some j \<Longrightarrow> held (p, h) + {#h ! j#} = mset h"
  by (simp add: held_def mset_hole)

lemma held_hole_update: "hole p = Some j \<Longrightarrow> held (p, h[j := c]) = held (p, h)"
  by (simp add: held_def)

lemma held_same: "hole p = hole q \<Longrightarrow> held (p, h) = held (q, h)"
  by (simp add: held_def split: option.split)

lemma held_None: "hole p = None \<Longrightarrow> held (p, h) = mset h"
  by (simp add: held_def)

lemma zip_seat_update:
  "zip ((g_pc g)[i := p]) ((g_hands g)[i := h]) = (zip (g_pc g) (g_hands g))[i := (p, h)]"
  by (simp add: update_zip)

text \<open>One seat changes; the effect on the cards in play.\<close>

lemma seats_same:
  assumes "i < length ps" and "length hs = length ps" and "held (p, h) = held (ps ! i, hs ! i)"
  shows "sum_list (map held (zip (ps[i := p]) (hs[i := h]))) = sum_list (map held (zip ps hs))"
proof -
  have "zip (ps[i := p]) (hs[i := h]) = (zip ps hs)[i := (p, h)]" by (simp add: update_zip)
  with sum_list_map_update_add [of i "zip ps hs" held "(p, h)" "{#}"] assms show ?thesis by simp
qed

lemma seats_gain:
  assumes "i < length ps" and "length hs = length ps" and "held (p, h) = held (ps ! i, hs ! i) + x"
  shows "sum_list (map held (zip (ps[i := p]) (hs[i := h]))) = sum_list (map held (zip ps hs)) + x"
proof -
  have "zip (ps[i := p]) (hs[i := h]) = (zip ps hs)[i := (p, h)]" by (simp add: update_zip)
  with sum_list_map_update_add [of i "zip ps hs" held "(p, h)" x] assms show ?thesis by simp
qed

lemma seats_lose:
  assumes "i < length ps" and "length hs = length ps" and "held (ps ! i, hs ! i) = held (p, h) + x"
  shows "sum_list (map held (zip (ps[i := p]) (hs[i := h]))) + x = sum_list (map held (zip ps hs))"
proof -
  have "zip (ps[i := p]) (hs[i := h]) = (zip ps hs)[i := (p, h)]" by (simp add: update_zip)
  with sum_list_map_update_remove [of i "zip ps hs" held "(p, h)" x] assms show ?thesis by simp
qed

lemma rows_lose:
  "i < length xss \<Longrightarrow> xss ! i = c # cs \<Longrightarrow>
     sum_list (map mset (xss[i := cs])) + {#c#} = sum_list (map mset xss)"
  by (rule sum_list_map_update_remove) simp_all

lemma rows_gain:
  "i < length xss \<Longrightarrow>
     sum_list (map mset (xss[i := xss ! i @ [c]])) = sum_list (map mset xss) + {#c#}"
  by (rule sum_list_map_update_add) simp_all

lemma ring_inv_change:
  assumes inv: "ring_inv n m deck g" and i: "i < n"
    and same: "g_m g' = g_m g" "length (g_pipes g') = n" "length (g_pending g') = n" "length (g_last_signal g') = n"
    and upd: "g_pc g' = (g_pc g)[i := p]" "g_hands g' = (g_hands g)[i := h]" "g_inbox g' = (g_inbox g)[i := b]"
    and seat: "seat_ok m p h b" and cards: "in_play g' = in_play g"
  shows "ring_inv n m deck g'"
  using assms by (auto simp: ring_inv_def ring_shape_def nth_list_update)

lemma ring_facts:
  assumes "ring_inv n m deck g" and "i < n"
  shows "length (g_pc g) = n" "length (g_hands g) = n" "length (g_inbox g) = n" "length (g_pipes g) = n"
    "length (g_pending g) = n" "length (g_last_signal g) = n" "g_m g = m" "0 < m"
    "seat_ok m (g_pc g ! i) (g_hands g ! i) (g_inbox g ! i)" "left_of g i < n"
    "i < length (g_pc g)" "length (g_hands g) = length (g_pc g)"
  using assms by (auto simp: ring_inv_def ring_shape_def left_of_def)

lemmas set_defs = set_pc_def set_hand_def set_pipe_def

lemma ring_inv_deal:
  assumes inv: "ring_inv n m deck g" and i: "i < n" and run: "child_act (ADeal i) g = Some g'"
  shows "ring_inv n m deck g'"
proof -
  note len = ring_facts(1-8) [OF inv i] and seat = ring_facts(9) [OF inv i]
  note l = ring_facts(10) [OF inv i] and lens = ring_facts(11,12) [OF inv i]
  note change = ring_inv_change [OF inv i]
  from run obtain c cs where c: "g_pc g ! i = Dealing" "g_inbox g ! i = c # cs"
    by (auto split: player.splits list.splits)
  let ?h = "g_hands g ! i @ [c]"
  let ?p = "if length ?h < m then Dealing else Choose"
  have "seat_ok m ?p ?h cs" using seat c by (auto simp: seat_ok_def)
  moreover have "(g_pc g)[i := Dealing] = g_pc g" using c by (metis list_update_id)
  then have g': "g_pc g' = (g_pc g)[i := ?p]" "g_hands g' = (g_hands g)[i := ?h]"
    "g_inbox g' = (g_inbox g)[i := cs]" "g_pipes g' = g_pipes g" "g_m g' = g_m g"
    "g_pending g' = g_pending g" "g_last_signal g' = g_last_signal g"
    using run c len by (auto simp: set_defs Let_def list_update_same_conv)
  moreover have "in_play g' = in_play g"
    using rows_lose [of i "g_inbox g" c cs] seats_gain [OF lens, of ?p ?h "{#c#}"] i len c
    by (simp add: in_play_def g' held_None ac_simps)
  ultimately show ?thesis using len by (intro change [of g' ?p ?h cs]) simp_all
qed

lemma ring_inv_send:
  assumes inv: "ring_inv n m deck g" and i: "i < n" and run: "child_act (ASend i r) g = Some g'"
  shows "ring_inv n m deck g'"
proof -
  note len = ring_facts(1-8) [OF inv i] and seat = ring_facts(9) [OF inv i]
  note l = ring_facts(10) [OF inv i] and lens = ring_facts(11,12) [OF inv i]
  note change = ring_inv_change [OF inv i]
  let ?j = "r mod m"
  from run have c: "g_pc g ! i = Choose" by (auto split: if_splits)
  have j: "?j < m" "length (g_hands g ! i) = m" using seat c len by (simp_all add: seat_ok_def)
  have g': "g' = set_pc i (Sent ?j) (set_pipe i (g_pipes g ! i @ [g_hands g ! i ! ?j]) g)"
    using run c len by (simp add: Let_def)
  have "held (Choose, g_hands g ! i) = held (Sent ?j, g_hands g ! i) + {#g_hands g ! i ! ?j#}"
    using held_hole [of ?j "g_hands g ! i" "Sent ?j"] j by (simp add: held_None)
  then have "in_play g' = in_play g"
    using seats_lose [OF lens, of "Sent ?j" "g_hands g ! i" "{#g_hands g ! i ! ?j#}"]
      rows_gain [of i "g_pipes g" "g_hands g ! i ! ?j"] i len c
    by (simp add: in_play_def g' set_defs ac_simps)
  moreover have "seat_ok m (Sent ?j) (g_hands g ! i) (g_inbox g ! i)"
    using seat c j by (simp add: seat_ok_def)
  ultimately show ?thesis using len
    by (intro change [of g' "Sent ?j" "g_hands g ! i" "g_inbox g ! i"]) (simp_all add: g' set_defs)
qed

lemma ring_inv_check:
  assumes inv: "ring_inv n m deck g" and i: "i < n" and run: "child_act (ACheck i) g = Some g'"
  shows "ring_inv n m deck g'"
proof -
  note len = ring_facts(1-8) [OF inv i] and seat = ring_facts(9) [OF inv i]
  note l = ring_facts(10) [OF inv i] and lens = ring_facts(11,12) [OF inv i]
  note change = ring_inv_change [OF inv i]
  from run obtain j where c: "g_pc g ! i = Sent j"
    by (auto split: player.splits)
  have j: "j < m" "length (g_hands g ! i) = m" using seat c by (simp_all add: seat_ok_def)
  show ?thesis
  proof (cases "g_last_signal g ! i")
    case True
    then have g': "g' = set_pc i (Left (Some j)) g" using run c by simp
    have "in_play g' = in_play g"
      using seats_same [OF lens, of "Left (Some j)" "g_hands g ! i"] c held_same [of "Left (Some j)" "Sent j"]
      by (simp add: in_play_def g' set_defs)
    moreover have "seat_ok m (Left (Some j)) (g_hands g ! i) (g_inbox g ! i)"
      using seat c j by (simp add: seat_ok_def)
    ultimately show ?thesis using len
      by (intro change [of g' "Left (Some j)" "g_hands g ! i" "g_inbox g ! i"]) (simp_all add: g' set_defs)
  next
    case False
    let ?h = "(g_hands g ! i)[j := 0]"
    from False have g': "g' = set_pc i (BeforeRead j) (set_hand i ?h g)" using run c by simp
    have "held (BeforeRead j, ?h) = held (Sent j, g_hands g ! i)"
      using held_hole_update [of "BeforeRead j" j "g_hands g ! i" 0]
        held_same [of "BeforeRead j" "Sent j" "g_hands g ! i"] by simp
    then have "in_play g' = in_play g"
      using seats_same [OF lens, of "BeforeRead j" ?h] c by (simp add: in_play_def g' set_defs)
    moreover have "seat_ok m (BeforeRead j) ?h (g_inbox g ! i)"
      using seat c j by (simp add: seat_ok_def)
    ultimately show ?thesis using len
      by (intro change [of g' "BeforeRead j" ?h "g_inbox g ! i"]) (simp_all add: g' set_defs)
  qed
qed

lemma ring_inv_enter:
  assumes inv: "ring_inv n m deck g" and i: "i < n" and run: "child_act (AEnter i) g = Some g'"
  shows "ring_inv n m deck g'"
proof -
  note len = ring_facts(1-8) [OF inv i] and seat = ring_facts(9) [OF inv i]
  note l = ring_facts(10) [OF inv i] and lens = ring_facts(11,12) [OF inv i]
  note change = ring_inv_change [OF inv i]
  from run obtain j where c: "g_pc g ! i = BeforeRead j"
    by (auto split: player.splits)
  then have g': "g' = set_pc i (Reading j) g" using run by simp
  have "in_play g' = in_play g"
    using seats_same [OF lens, of "Reading j" "g_hands g ! i"] c held_same [of "Reading j" "BeforeRead j"]
    by (simp add: in_play_def g' set_defs)
  moreover have "seat_ok m (Reading j) (g_hands g ! i) (g_inbox g ! i)"
    using seat c by (simp add: seat_ok_def)
  ultimately show ?thesis using len
    by (intro change [of g' "Reading j" "g_hands g ! i" "g_inbox g ! i"]) (simp_all add: g' set_defs)
qed

lemma ring_inv_read:
  assumes inv: "ring_inv n m deck g" and i: "i < n" and run: "child_act (ARead i) g = Some g'"
  shows "ring_inv n m deck g'"
proof -
  note len = ring_facts(1-8) [OF inv i] and seat = ring_facts(9) [OF inv i]
  note l = ring_facts(10) [OF inv i] and lens = ring_facts(11,12) [OF inv i]
  note change = ring_inv_change [OF inv i]
  from run obtain j c cs where c: "g_pc g ! i = Reading j" "g_pipes g ! left_of g i = c # cs" by (auto split: player.splits list.splits)
  have j: "j < m" "length (g_hands g ! i) = m" using seat c by (simp_all add: seat_ok_def)
  let ?h = "(g_hands g ! i)[j := c]"
  let ?p = "if check_win ?h then Won else Choose"
  have g': "g' = set_pc i ?p (set_hand i ?h (set_pipe (left_of g i) cs g))"
    using run c by (simp add: Let_def)
  have "held (Reading j, ?h) + {#c#} = mset ?h" using held_hole [of j ?h "Reading j"] j by simp
  then have "held (?p, ?h) = held (Reading j, g_hands g ! i) + {#c#}"
    by (simp add: held_None held_hole_update)
  then have "in_play g' = in_play g"
    using seats_gain [OF lens, of ?p ?h "{#c#}"] rows_lose [of "left_of g i" "g_pipes g" c cs] l len c
    by (simp add: in_play_def g' set_defs ac_simps)
  moreover have "seat_ok m ?p ?h (g_inbox g ! i)" using seat c j by (simp add: seat_ok_def)
  ultimately show ?thesis using len
    by (intro change [of g' ?p ?h "g_inbox g ! i"]) (simp_all add: g' set_defs)
qed

lemma ring_inv_report:
  assumes inv: "ring_inv n m deck g" and i: "i < n" and run: "child_act (AReport i pid) g = Some g'"
  shows "ring_inv n m deck g'"
proof -
  note len = ring_facts(1-8) [OF inv i] and seat = ring_facts(9) [OF inv i]
  note l = ring_facts(10) [OF inv i] and lens = ring_facts(11,12) [OF inv i]
  note change = ring_inv_change [OF inv i]
  from run have c: "g_pc g ! i = Won" and
    g': "g' = set_pc i (Left None) (g\<lparr>g_fifo := g_fifo g @ [encode_number pid]\<rparr>)"
    by (auto split: if_splits)
  have "in_play g' = in_play g"
    using seats_same [OF lens, of "Left None" "g_hands g ! i"] c held_same [of "Left None" Won]
    by (simp add: in_play_def g' set_defs)
  moreover have "seat_ok m (Left None) (g_hands g ! i) (g_inbox g ! i)"
    using seat c by (simp add: seat_ok_def)
  ultimately show ?thesis using len
    by (intro change [of g' "Left None" "g_hands g ! i" "g_inbox g ! i"]) (simp_all add: g' set_defs)
qed

lemma ring_inv_deliver:
  assumes inv: "ring_inv n m deck g" and i: "i < n" and run: "child_act (ADeliver i) g = Some g'"
  shows "ring_inv n m deck g'"
proof -
  note len = ring_facts(1-8) [OF inv i] and seat = ring_facts(9) [OF inv i]
  note l = ring_facts(10) [OF inv i] and lens = ring_facts(11,12) [OF inv i]
  note change = ring_inv_change [OF inv i]

  let ?p = "case g_pc g ! i of Reading j \<Rightarrow> Left (Some j) | p \<Rightarrow> p"
  have g': "g_pc g' = (g_pc g)[i := ?p]" "g_hands g' = g_hands g" "g_inbox g' = g_inbox g"
    "g_pipes g' = g_pipes g" "g_m g' = g_m g" "g_pending g' = (g_pending g)[i := False]"
    "g_last_signal g' = (g_last_signal g)[i := True]"
    using run list_update_id [of "g_pc g" i]
    by (cases "g_pc g ! i"; force simp: Let_def set_defs split: if_splits)+
  have "held (?p, g_hands g ! i) = held (g_pc g ! i, g_hands g ! i)"
    by (rule held_same) (simp split: player.split)
  then have "in_play g' = in_play g"
    using seats_same [OF lens, of ?p "g_hands g ! i"] by (simp add: in_play_def g')
  moreover have "seat_ok m ?p (g_hands g ! i) (g_inbox g ! i)"
    using seat by (auto simp: seat_ok_def split: player.split)
  ultimately show ?thesis using len
    by (intro change [of g' ?p "g_hands g ! i" "g_inbox g ! i"]) (simp_all add: g')
qed

lemma ring_inv_act:
  assumes inv: "ring_inv n m deck g" and act: "ring_act a g = Some g'"
  shows "ring_inv n m deck g'"
proof (cases "actor a")
  case None
  then show ?thesis
    using inv act
    by (cases a) (auto simp: ring_act_def end_game_def ring_inv_def ring_shape_def in_play_def
        split: host.splits list.splits if_splits)
next
  case (Some i)
  then have i: "i < n" and run: "child_act a g = Some g'"
    using act inv by (auto simp: ring_act_def ring_inv_def ring_shape_def split: if_splits)
  note lemmas1 = ring_inv_deal ring_inv_send ring_inv_check ring_inv_enter ring_inv_read ring_inv_report
    ring_inv_deliver
  show ?thesis
    using Some run i by (cases a) (auto simp del: child_act.simps intro: lemmas1 [OF inv])
qed

lemma ring_inv_start:
  assumes "0 < m" and "n * m \<le> length deck"
  shows "ring_inv n m deck (ring_start n m deck)"
proof -
  have h: "sum_list (map held (zip (replicate n Dealing) (replicate n []))) = {#}"
    by (induction n) (simp_all add: held_def)
  have p: "sum_list (map mset (replicate n [])) = {#}" by (induction n) simp_all
  have "sum_list (map mset (map (dealt m deck) [0..<n])) = mset (take (n * m) deck)"
    using concat_dealt [OF assms(2)] by (metis mset_concat)
  with h p assms show ?thesis
    by (auto simp: ring_inv_def ring_shape_def ring_start_def seat_ok_def in_play_def dealt_def)
qed

interpretation ring_sys: invariant_system
  "\<lambda>g. 0 < m \<and> n * m \<le> length deck \<and> g = ring_start n m deck" ring_step "ring_inv n m deck" for n m deck
  by unfold_locales (auto simp: ring_step_def intro: ring_inv_start ring_inv_act)

lemma in_play_hand:
  assumes "ring_inv n m deck g" and "i < n" and "hole (g_pc g ! i) = None"
  shows "mset (g_hands g ! i) \<subseteq># in_play g"
proof -
  have i: "i < length (zip (g_pc g) (g_hands g))"
    using ring_facts [OF assms(1,2)] assms(2) by simp
  have "held (zip (g_pc g) (g_hands g) ! i) = mset (g_hands g ! i)"
    using i assms(3) by (simp add: held_None)
  moreover have "x \<in> set xs \<Longrightarrow> f x \<subseteq># sum_list (map f xs)" for x :: "player \<times> nat list" and f and xs
    by (induction xs) (auto intro: subset_mset.add_increasing2 subset_mset.add_increasing)
  ultimately have "mset (g_hands g ! i) \<subseteq># sum_list (map held (zip (g_pc g) (g_hands g)))"
    by (metis i nth_mem)
  then show ?thesis by (simp add: in_play_def subset_mset.add_increasing)
qed

subsection \<open>A child that waits for ever\<close>

definition deserted :: "ring_game \<Rightarrow> bool" where
  "deserted g \<longleftrightarrow> length (g_pc g) = 4 \<and> length (g_pipes g) = 4 \<and> length (g_pending g) = 4 \<and>
     g_pc g ! 0 = Reading 1 \<and> g_pc g ! 3 = Left (Some 0) \<and> g_pipes g ! 3 = [] \<and>
     \<not> g_pending g ! 0 \<and> g_host g \<noteq> Polling"

lemma deserted_act: "deserted g \<Longrightarrow> ring_act a g = Some h \<Longrightarrow> deserted h"
  by (cases a) (auto simp: deserted_def ring_act_def set_defs left_of_def nth_list_update Let_def
      intro!: gr0I split: if_splits player.splits list.splits host.splits)

interpretation desert_sys: invariant_system deserted ring_step deserted
  by unfold_locales (auto simp: ring_step_def intro: deserted_act)

text \<open>
  The schedule: children 3 and 0 take their cards, 3 passes one on and waits for another, 0 gets
  it and passes a second one on; SIGINT ends the game, 3 leaves its \<open>read\<close>, and 0 handles the
  signal between its test of \<open>last_signal\<close> and its own \<open>read\<close>.
\<close>

definition desert_run :: "action list" where
  "desert_run =
     [ADeal 3, ADeal 3, ADeal 3, ADeal 3, ADeal 0, ADeal 0, ADeal 0, ADeal 0,
      ASend 3 0, ACheck 3, AEnter 3, ASend 0 0, ACheck 0, AEnter 0, ARead 0, ASend 0 1, ACheck 0,
      AInterrupt, ADeliver 3, ADeliver 0, AEnter 0]"

lemma desert_run_ok:
  "case run_acts desert_run (ring_start 4 4 new_deck) of Some g \<Rightarrow> deserted g \<and> g_host g = Killed | None \<Rightarrow> False"
  by code_simp

lemma ring_reach:
  assumes "0 < m" and "n * m \<le> DECK_SZ" and "ring_step\<^sup>*\<^sup>* (ring_start n m (shuffle rs new_deck)) g"
  shows "ring_inv n m (shuffle rs new_deck) g \<and> distinct (take (n * m) (shuffle rs new_deck)) \<and>
     length (take (n * m) (shuffle rs new_deck)) = n * m \<and>
     set (take (n * m) (shuffle rs new_deck)) \<subseteq> {0..<DECK_SZ}"
proof -
  let ?deck = "shuffle rs new_deck"
  have deck: "mset ?deck = mset new_deck" "length ?deck = DECK_SZ"
    using shuffle_mset [of new_deck rs] by (simp_all add: new_deck_def)
  have "ring_inv n m ?deck g"
    using ring_sys.inv_reachable [OF _ assms(3), of m n ?deck] assms(1,2) deck by simp
  moreover have "distinct ?deck" using deck(1) by (metis distinct_upt mset_eq_imp_distinct_iff new_deck_def)
  moreover have "set ?deck = {0..<DECK_SZ}" using deck(1) by (metis mset_eq_setD new_deck_def set_upt)
  ultimately show ?thesis using assms(2) deck(2) set_take_subset [of "n * m" ?deck] by simp
qed

subsection \<open>Properties\<close>

text \<open>
  C9: the cards. Whatever the parent's random numbers and the order in which the processes run,
  signals included, the cards in the hands, on their way and not yet taken are always \<open>n * m\<close>
  different cards of the deck: none is lost and none is there twice.
\<close>

theorem ring_cards_conserved:
  assumes "0 < m" and "n * m \<le> DECK_SZ" and "ring_step\<^sup>*\<^sup>* (ring_start n m (shuffle rs new_deck)) g"
  shows "\<exists>cards. distinct cards \<and> length cards = n * m \<and> set cards \<subseteq> {0..<DECK_SZ} \<and> in_play g = mset cards"
  using ring_reach [OF assms] by (intro exI [of _ "take (n * m) (shuffle rs new_deck)"]) (auto simp: ring_inv_def)

text \<open>
  C30: a winner has won. A child that says that its ship sails, and whoever leaves through the FIFO,
  holds \<open>m\<close> different cards of the deck, all of one suit.
\<close>

theorem ring_winner:
  assumes "0 < m" and "n * m \<le> DECK_SZ" and "ring_step\<^sup>*\<^sup>* (ring_start n m (shuffle rs new_deck)) g"
    and "i < n" and "g_pc g ! i = Won \<or> g_pc g ! i = Left None"
  shows "length (g_hands g ! i) = m \<and> distinct (g_hands g ! i) \<and> set (g_hands g ! i) \<subseteq> {0..<DECK_SZ} \<and>
     (\<exists>suit < 4. set (g_hands g ! i) \<subseteq> {c. c mod 4 = suit})"
proof -
  let ?cards = "take (n * m) (shuffle rs new_deck)" and ?hand = "g_hands g ! i"
  note r = ring_reach [OF assms(1-3)]
  then have inv: "ring_inv n m (shuffle rs new_deck) g" by simp
  have "hole (g_pc g ! i) = None" using assms(5) by auto
  from in_play_hand [OF inv assms(4) this] have sub: "mset ?hand \<subseteq># mset ?cards"
    using inv by (simp add: ring_inv_def)
  have seat: "length ?hand = m" "check_win ?hand"
    using ring_facts(9) [OF inv assms(4)] assms(5) by (auto simp: seat_ok_def)
  then have "?hand \<noteq> []" using assms(1) by auto
  with seat(2) obtain suit where suit: "\<forall>c \<in> set ?hand. c mod 4 = suit" by (auto simp: check_win_iff)
  with \<open>?hand \<noteq> []\<close> have "suit < 4" by (cases ?hand) auto
  moreover have "distinct ?hand"
    using sub r by (blast intro: distinct_submset)
  moreover have "set ?hand \<subseteq> {0..<DECK_SZ}" using set_mset_mono [OF sub] r by auto
  ultimately show ?thesis using seat suit by blast
qed

text \<open>
  The winner's number. Decoding the four bytes gives the number that was encoded, and each of
  them fits an \<open>unsigned char\<close>.
\<close>

lemma ring_codec:
  "decode_number (encode_number x) = x \<and> length (encode_number x) = 4 \<and> list_all (\<lambda>b. b \<le> 255) (encode_number x)"
proof -
  have "x AND 0xff \<le> 255" for x :: "32 word" by (simp add: word_and_le1)
  then have "list_all (\<lambda>b. b \<le> 255) (encode_number x)" by (simp add: encode_number_def)
  then show ?thesis using decode_encode by (simp add: encode_number_def)
qed

text \<open>
  The game can fail to end. With four players of four cards there is a schedule after which the
  game is over, but child 0 waits in \<open>read\<close> for a left neighbour who has gone, has already
  handled its signal, and leaves in no continuation; the parent's \<open>wait\<close> then never returns.
\<close>

lemma ring_hangs:
  "\<exists>g. ring_step\<^sup>*\<^sup>* (ring_start 4 4 new_deck) g \<and> g_host g = Killed \<and>
     \<not> (\<exists>h left. ring_step\<^sup>*\<^sup>* g h \<and> g_pc h ! 0 = Left left)"
proof -
  obtain g where g: "run_acts desert_run (ring_start 4 4 new_deck) = Some g" and d: "deserted g \<and> g_host g = Killed"
    using desert_run_ok by (auto split: option.splits)
  have "deserted h" if "ring_step\<^sup>*\<^sup>* g h" for h
    using desert_sys.inv_steps [OF that] d by blast
  then have "\<not> (\<exists>h left. ring_step\<^sup>*\<^sup>* g h \<and> g_pc h ! 0 = Left left)"
    by (fastforce simp: deserted_def)
  with run_acts_steps [OF g] d show ?thesis by blast
qed

text \<open>Four players of four cards, after the first card has been taken, for the witnesses.\<close>

lemma first_card:
  "ring_step\<^sup>*\<^sup>* (ring_start 4 4 (shuffle [(3, 55)] new_deck)) g \<and> g_hands g ! 0 = [0]"
  if "ring_act (ADeal 0) (ring_start 4 4 (shuffle [(3, 55)] new_deck)) = Some g" for g
proof -
  have "ring_step\<^sup>*\<^sup>* (ring_start 4 4 (shuffle [(3, 55)] new_deck)) g"
    using run_acts_steps [of "[ADeal 0]"] that by simp
  moreover have "map_option (\<lambda>g. g_hands g ! 0) (ring_act (ADeal 0) (ring_start 4 4 (shuffle [(3, 55)] new_deck))) = Some [0]"
    by code_simp
  ultimately show ?thesis using that by simp
qed

theorem ring_cards_conserved_witness:
  "\<exists>g cards. ring_step\<^sup>*\<^sup>* (ring_start 4 4 (shuffle [(3, 55)] new_deck)) g \<and> g_hands g ! 0 = [0] \<and>
     distinct cards \<and> length cards = 16 \<and> in_play g = mset cards"
proof -
  have "ring_act (ADeal 0) (ring_start 4 4 (shuffle [(3, 55)] new_deck)) \<noteq> None" by code_simp
  then obtain g where g: "ring_act (ADeal 0) (ring_start 4 4 (shuffle [(3, 55)] new_deck)) = Some g" by blast
  note f = first_card [OF g]
  from ring_cards_conserved [of 4 4 "[(3, 55)]" g] f show ?thesis by (auto simp: DECK_SZ_def)
qed

text \<open>A game of one card each is won at once, for the witness.\<close>

definition win_run :: "action list" where
  "win_run = [ADeal 0, ADeal 1, ASend 0 0, ACheck 0, AEnter 0, ASend 1 0, ARead 0]"

lemma win_run_ok:
  "case run_acts win_run (ring_start 2 1 (shuffle [] new_deck)) of Some g \<Rightarrow> g_pc g ! 0 = Won \<and> g_hands g ! 0 = [1] | None \<Rightarrow> False"
  by code_simp

theorem ring_winner_witness:
  "\<exists>g. ring_step\<^sup>*\<^sup>* (ring_start 2 1 (shuffle [] new_deck)) g \<and> g_pc g ! 0 = Won \<and> distinct (g_hands g ! 0)"
proof -
  obtain g where g: "run_acts win_run (ring_start 2 1 (shuffle [] new_deck)) = Some g" "g_pc g ! 0 = Won"
    using win_run_ok by (auto split: option.splits)
  note r = run_acts_steps [OF g(1)]
  from ring_winner [OF _ _ r, of 0] g(2) r show ?thesis by (auto simp: DECK_SZ_def)
qed

end
