(* ===== verification/CardThreads.thy ===== *)
theory CardThreads
  imports Prelude
begin

section \<open>The card game of threads\<close>

text \<open>
  \<open>sop1/lab04/zad2/sop-mss.c\<close>: \<open>n\<close> threads with hands of four cards pass cards through the array
  \<open>card_to_take\<close>, one barrier per round, until one of them has a hand of one suit. The shuffle,
  the printing of hands, and the threads as interleaved steps.
\<close>

definition DECK_SIZE :: nat where "DECK_SIZE = 52"
definition HAND_SIZE :: nat where "HAND_SIZE = 4"
definition RAND_MAX :: nat where "RAND_MAX = 2147483647"

subsection \<open>The shuffle\<close>

text \<open>
  The loop from index \<open>i\<close> on; the list holds what the calls of \<open>rand\<close> return. \<open>None\<close> is an
  index out of the array.
\<close>

fun shuffle_loop :: "nat list \<Rightarrow> nat \<Rightarrow> nat \<Rightarrow> int list \<Rightarrow> int list option" where
  "shuffle_loop [] i n array = Some array"
| "shuffle_loop (r # rs) i n array =
     (if i < n - 1 then
        (let j = i + r div (RAND_MAX div (n - i) + 1) in
         if j < length array \<and> i < length array
         then (let t = array ! j in shuffle_loop rs (i + 1) n (array[j := array ! i, i := t]))
         else None)
      else Some array)"

definition shuffle :: "nat list \<Rightarrow> int list \<Rightarrow> nat \<Rightarrow> int list option" where
  "shuffle rs array n = (if n > 1 then shuffle_loop rs 0 n array else Some array)"

subsection \<open>Printing a hand\<close>

definition suits :: "string list" where
  "suits = ['' of Hearts'', '' of Diamonds'', '' of Clubs'', '' of Spades'']"

definition card_values :: "string list" where
  "card_values = [''2'', ''3'', ''4'', ''5'', ''6'', ''7'', ''8'', ''9'', ''10'', ''Jack'', ''Queen'', ''King'', ''Ace'']"

text \<open>
  What \<open>print_deck\<close> does: it returns without output, it prints a line, or it reads outside
  \<open>values\<close>. The text is what the calls of \<open>snprintf\<close> put into \<open>buffer\<close> one after the other
  (it is shown below to fit).
\<close>

datatype printed = Silent | Line string | OutOfBounds

fun deck_text :: "int list \<Rightarrow> string \<Rightarrow> printed" where
  "deck_text [] acc = Line (acc @ '']'')"
| "deck_text (c # cards) acc =
     (if c < 0 \<or> c > int DECK_SIZE then Silent
      else
        (let suit = nat (c mod 4); v = nat (c div 4) in
         if v < length card_values
         then deck_text cards (acc @ card_values ! v @ suits ! suit @ (if cards \<noteq> [] then '', '' else ''''))
         else OutOfBounds))"

definition print_deck :: "int list \<Rightarrow> printed" where
  "print_deck deck = (if length deck < 1 \<or> length deck > DECK_SIZE then Silent else deck_text deck ''['')"

subsection \<open>The threads\<close>

text \<open>
  A thread before the start; at the top of its loop; in front of \<open>*winner = id\<close>; in front of the
  critical section that gives a card; waiting in the barrier; in front of the test of \<open>*winner\<close>;
  in front of the critical section that takes a card; or gone.
\<close>

datatype player = Ready | Top | SetWinner | Give | Barrier nat | Test nat | Take nat | Exit

record table =
  t_hands :: "int list list"
  t_card_to_take :: "int list"
  t_winner :: nat
  t_ready :: bool
  t_pc :: "player list"
  t_wins :: "nat list" \<comment> \<open>who has printed that it wins\<close>

definition table_start :: "nat \<Rightarrow> int list \<Rightarrow> table" where
  "table_start n deck =
     \<lparr>t_hands = map (\<lambda>i. map (\<lambda>j. deck ! (i * HAND_SIZE + j)) [0..<HAND_SIZE]) [0..<n],
      t_card_to_take = replicate n 0, t_winner = 0, t_ready = False, t_pc = replicate n Ready, t_wins = []\<rparr>"

text \<open>The scan for a hand of one suit.\<close>

fun same_suit :: "int \<Rightarrow> int list \<Rightarrow> bool" where
  "same_suit c [] = True"
| "same_suit c (h # hand) = (if h mod 4 \<noteq> c then False else same_suit c hand)"

definition hand_ok :: "int list \<Rightarrow> bool" where
  "hand_ok hand = same_suit (hand ! 0 mod 4) (tl hand)"

definition move :: "nat \<Rightarrow> player \<Rightarrow> table \<Rightarrow> table" where
  "move i p t = t\<lparr>t_pc := (t_pc t)[i := p]\<rparr>"

text \<open>\<open>pthread_barrier_wait\<close>: the last of the \<open>n\<close> threads to come lets all of them go on.\<close>

fun in_barrier :: "player \<Rightarrow> bool" where
  "in_barrier (Barrier g) = True"
| "in_barrier _ = False"

fun release :: "player \<Rightarrow> player" where
  "release (Barrier g) = Test g"
| "release p = p"

definition barrier_wait :: "table \<Rightarrow> table" where
  "barrier_wait t = (if list_all in_barrier (t_pc t) then t\<lparr>t_pc := map release (t_pc t)\<rparr> else t)"

text \<open>One step of \<open>run_player\<close> for thread \<open>i\<close>; \<open>r\<close> is what \<open>rand_r\<close> returns.\<close>

definition run_player :: "nat \<Rightarrow> nat \<Rightarrow> table \<Rightarrow> table option" where
  "run_player i r t =
     (case t_pc t ! i of
        Ready \<Rightarrow> if t_ready t then Some (move i Top t) else None
      | Top \<Rightarrow> Some (move i (if hand_ok (t_hands t ! i) then SetWinner else Give) t)
      | SetWinner \<Rightarrow> Some (move i Give (t\<lparr>t_winner := i\<rparr>))
      | Give \<Rightarrow>
          (let to_give = r mod HAND_SIZE; n = length (t_pc t) in
           Some (barrier_wait (move i (Barrier to_give)
             (t\<lparr>t_card_to_take := (t_card_to_take t)[(i + 1) mod n := t_hands t ! i ! to_give]\<rparr>))))
      | Barrier _ \<Rightarrow> None
      | Test to_give \<Rightarrow>
          (if t_winner t \<noteq> 0
           then Some (move i Exit (if t_winner t = i then t\<lparr>t_wins := t_wins t @ [i]\<rparr> else t))
           else Some (move i (Take to_give) t))
      | Take to_give \<Rightarrow>
          Some (move i Top (t\<lparr>t_hands := (t_hands t)[i := (t_hands t ! i)[to_give := t_card_to_take t ! i]]\<rparr>))
      | Exit \<Rightarrow> None)"

text \<open>\<open>main\<close> sets \<open>ready\<close> and broadcasts.\<close>

inductive table_step :: "table \<Rightarrow> table \<Rightarrow> bool" where
  start: "table_step t (t\<lparr>t_ready := True\<rparr>)"
| player: "i < length (t_pc t) \<Longrightarrow> run_player i r t = Some u \<Longrightarrow> table_step t u"

inductive_cases table_stepE: "table_step t u"

fun run_table :: "(nat \<times> nat) list \<Rightarrow> table \<Rightarrow> table option" where
  "run_table [] t = Some t"
| "run_table ((i, r) # sched) t =
     (if i < length (t_pc t)
      then (case run_player i r t of None \<Rightarrow> None | Some u \<Rightarrow> run_table sched u) else None)"

lemma run_table_steps: "run_table sched t = Some u \<Longrightarrow> table_step\<^sup>*\<^sup>* t u"
proof (induction sched t rule: run_table.induct)
  case (2 i r sched t)
  then obtain v where "i < length (t_pc t)" "run_player i r t = Some v" "run_table sched v = Some u"
    by (auto split: if_splits option.splits)
  with 2 have "table_step t v" "table_step\<^sup>*\<^sup>* v u" by (auto intro: table_step.player)
  then show ?case by (rule converse_rtranclp_into_rtranclp)
qed simp

subsection \<open>The shuffle permutes\<close>

lemma rand_index:
  assumes "r \<le> RAND_MAX" and "0 < k"
  shows "r div (RAND_MAX div k + 1) < k"
proof -
  have "RAND_MAX < k * (RAND_MAX div k + 1)"
    using assms(2) dividend_less_times_div [of k RAND_MAX] by (simp add: algebra_simps)
  with assms(1) show ?thesis by (simp add: div_less_iff_less_mult)
qed

lemma shuffle_loop_ok:
  "length array = n \<Longrightarrow> list_all (\<lambda>r. r \<le> RAND_MAX) rs \<Longrightarrow>
     \<exists>array'. shuffle_loop rs i n array = Some array' \<and> mset array' = mset array"
proof (induction rs i n array rule: shuffle_loop.induct)
  case (2 r rs i n array)
  show ?case
  proof (cases "i < n - 1")
    case True
    let ?j = "i + r div (RAND_MAX div (n - i) + 1)"
    have j: "?j < length array" "i < length array"
      using rand_index [of r "n - i"] True "2.prems" by (auto simp: less_diff_conv2 less_diff_conv add.commute)
    let ?a = "array[?j := array ! i, i := array ! ?j]"
    have "mset ?a = mset array" using mset_swap_update [OF j] by simp
    moreover from "2.IH" [OF True refl _ refl] j "2.prems" obtain array'
      where "shuffle_loop rs (i + 1) n ?a = Some array'" "mset array' = mset ?a" by auto
    ultimately show ?thesis using True j by (simp add: Let_def)
  qed simp
qed simp

subsection \<open>What a hand looks like\<close>

definition card_name :: "int \<Rightarrow> string" where
  "card_name c = card_values ! nat (c div 4) @ suits ! nat (c mod 4)"

fun commas :: "string list \<Rightarrow> string" where
  "commas [] = ''''"
| "commas [x] = x"
| "commas (x # y # xs) = x @ '', '' @ commas (y # xs)"

lemma deck_text_ok:
  "set cards \<subseteq> {0..<int DECK_SIZE} \<Longrightarrow> deck_text cards acc = Line (acc @ commas (map card_name cards) @ '']'')"
proof (induction cards acc rule: deck_text.induct)
  case (2 c cards acc)
  then have "0 \<le> c" "c < 52" by (auto simp: DECK_SIZE_def)
  then have "nat (c div 4) < length card_values" by (simp add: card_values_def)
  with 2 \<open>0 \<le> c\<close> \<open>c < 52\<close> show ?case
    by (cases cards) (auto simp: DECK_SIZE_def card_name_def Let_def)
qed simp

lemma length_card_name: "0 \<le> c \<Longrightarrow> c < int DECK_SIZE \<Longrightarrow> length (card_name c) \<le> 17"
proof -
  assume c: "0 \<le> c" "c < int DECK_SIZE"
  have "length (card_values ! v) \<le> 5" if "v < 13" for v
    using that by (auto simp: card_values_def less_Suc_eq numeral_eq_Suc)
  moreover have "length (suits ! s) \<le> 12" if "s < 4" for s
    using that by (auto simp: suits_def less_Suc_eq numeral_eq_Suc)
  moreover have "nat (c div 4) < 13" "nat (c mod 4) < 4" using c by (auto simp: DECK_SIZE_def)
  ultimately have "length (card_values ! nat (c div 4)) \<le> 5" "length (suits ! nat (c mod 4)) \<le> 12" by blast+
  then show ?thesis by (simp add: card_name_def)
qed

lemma length_commas: "list_all (\<lambda>s. length s \<le> b) xs \<Longrightarrow> length (commas xs) \<le> (b + 2) * length xs"
  by (induction xs rule: commas.induct) auto

subsection \<open>Who can win\<close>

lemma same_suit_iff: "same_suit c hand \<longleftrightarrow> (\<forall>h \<in> set hand. h mod 4 = c)"
  by (induction hand) auto

definition no_zero :: "table \<Rightarrow> bool" where
  "no_zero t \<longleftrightarrow> 0 \<notin> set (t_wins t)"

lemma no_zero_step: "no_zero t \<Longrightarrow> table_step t u \<Longrightarrow> no_zero u"
  by (erule table_stepE)
    (auto simp: no_zero_def run_player_def move_def barrier_wait_def Let_def split: player.splits if_splits)

interpretation table_sys: invariant_system "\<lambda>t. t = table_start n deck" table_step no_zero for n deck
  by unfold_locales (simp add: no_zero_def table_start_def, rule no_zero_step)

text \<open>One thread gone and one in the barrier: the barrier never opens again.\<close>

definition stranded :: "nat \<Rightarrow> nat \<Rightarrow> table \<Rightarrow> bool" where
  "stranded x w t \<longleftrightarrow> x < length (t_pc t) \<and> w < length (t_pc t) \<and> t_pc t ! x = Exit \<and> (\<exists>g. t_pc t ! w = Barrier g)"

lemma stranded_move:
  "stranded x w t \<Longrightarrow> i \<noteq> x \<Longrightarrow> i \<noteq> w \<Longrightarrow> t_pc t' = t_pc t \<Longrightarrow> stranded x w (move i p t')"
  by (auto simp: stranded_def move_def)

lemma stranded_barrier: "stranded x w t \<Longrightarrow> stranded x w (barrier_wait t)"
  by (auto simp: stranded_def barrier_wait_def list_all_length)

lemma stranded_player:
  assumes "stranded x w t" and "run_player i r t = Some u"
  shows "stranded x w u"
proof -
  have ne: "i \<noteq> x" "i \<noteq> w" using assms by (auto simp: stranded_def run_player_def)
  show ?thesis
    using assms(2) ne
    by (cases "t_pc t ! i") (auto simp: run_player_def Let_def split: if_splits
        intro!: stranded_move [OF assms(1)] stranded_barrier)
qed

lemma stranded_step: "stranded x w t \<Longrightarrow> table_step t u \<Longrightarrow> stranded x w u"
proof (erule table_stepE)
  assume "stranded x w t" "u = t\<lparr>t_ready := True\<rparr>"
  then show "stranded x w u" by (simp add: stranded_def)
qed (rule stranded_player)

interpretation strand_sys: invariant_system "stranded x w" table_step "stranded x w" for x w
  by unfold_locales (assumption, rule stranded_step)

text \<open>
  The schedule of the race, for four players (thread 0 deals the card of suit 0 that thread 1
  lacks; thread 2 has tested \<open>*winner\<close> when thread 1 finds its hand complete and gives again).
\<close>

definition race_deck :: "int list" where
  "race_deck = [12, 1, 2, 3, 0, 4, 8, 5, 6, 7, 9, 10, 11, 13, 14, 15] @ map int [16..<52]"

definition race_run :: "(nat \<times> nat) list" where
  "race_run =
     [(0, 0), (1, 0), (2, 0), (3, 0), (0, 0), (1, 0), (2, 0), (3, 0),
      (0, 0), (1, 3), (2, 0), (3, 0),
      (2, 0), (1, 0), (1, 0), (1, 0), (1, 0), (1, 0), (2, 0), (2, 0), (2, 0), (0, 0), (3, 0)]"

lemma race_run_ok:
  "case run_table race_run ((table_start 4 race_deck)\<lparr>t_ready := True\<rparr>) of
     None \<Rightarrow> False | Some t \<Rightarrow> t_wins t = [] \<and> t_winner t = 1 \<and> t_pc t ! 0 = Exit \<and> t_pc t ! 1 = Barrier 0 \<and>
       length (t_pc t) = 4 \<and> t_card_to_take t = [11, 12, 0, 0] \<and> t_hands t = [[12, 1, 2, 3], [0, 4, 8, 12], [0, 7, 9, 10], [11, 13, 14, 15]]"
  by code_simp

lemma race_reach:
  "\<exists>t. table_step\<^sup>*\<^sup>* (table_start 4 race_deck) t \<and> t_wins t = [] \<and> t_winner t = 1 \<and> stranded 0 1 t \<and>
     t_card_to_take t = [11, 12, 0, 0] \<and> t_hands t = [[12, 1, 2, 3], [0, 4, 8, 12], [0, 7, 9, 10], [11, 13, 14, 15]]"
proof -
  obtain t where t: "run_table race_run ((table_start 4 race_deck)\<lparr>t_ready := True\<rparr>) = Some t"
    and f: "t_wins t = [] \<and> t_winner t = 1 \<and> t_pc t ! 0 = Exit \<and> t_pc t ! 1 = Barrier 0 \<and> length (t_pc t) = 4 \<and>
      t_card_to_take t = [11, 12, 0, 0] \<and> t_hands t = [[12, 1, 2, 3], [0, 4, 8, 12], [0, 7, 9, 10], [11, 13, 14, 15]]"
    using race_run_ok by (auto split: option.splits)
  have "table_step (table_start 4 race_deck) ((table_start 4 race_deck)\<lparr>t_ready := True\<rparr>)"
    by (rule table_step.start)
  then have "table_step\<^sup>*\<^sup>* (table_start 4 race_deck) t"
    using run_table_steps [OF t] by (rule converse_rtranclp_into_rtranclp)
  with f show ?thesis by (auto simp: stranded_def)
qed

subsection \<open>Properties\<close>

text \<open>
  \<open>shuffle\<close> stays inside the array and permutes it, whatever \<open>rand\<close> returns (its results are
  at most \<open>RAND_MAX\<close>).
\<close>

lemma shuffle_permutes:
  assumes "list_all (\<lambda>r. r \<le> RAND_MAX) rs"
  shows "\<exists>array'. shuffle rs array (length array) = Some array' \<and> mset array' = mset array"
  using shuffle_loop_ok [OF refl assms, where i = 0 and array = array] by (auto simp: shuffle_def)

lemma shuffle_permutes_example:
  "\<exists>array'. shuffle [RAND_MAX, 0] [7, 8, 9] 3 = Some array' \<and> mset array' = mset [7, 8, 9]"
  using shuffle_permutes [of "[RAND_MAX, 0]" "[7, 8, 9]"] by (simp add: numeral_3_eq_3)

text \<open>
  \<open>print_deck\<close>. For one to 52 cards of the deck it prints their names between brackets and
  separated by commas, which fits its buffer of 1024 bytes; but the guard \<open>card > DECK_SIZE\<close> lets
  52 pass, and then \<open>values\<close> is read outside its bounds.
\<close>

lemma print_deck_output:
  assumes "cards \<noteq> []" and "length cards < DECK_SIZE" and "set cards \<subseteq> {0..<int DECK_SIZE}"
  shows "print_deck cards = Line (''['' @ commas (map card_name cards) @ '']'') \<and>
     length (''['' @ commas (map card_name cards) @ '']'') < 1024 \<and>
     print_deck (cards @ [int DECK_SIZE]) = OutOfBounds"
proof (intro conjI)
  have len: "0 < length cards" using assms(1) by simp
  show "print_deck cards = Line (''['' @ commas (map card_name cards) @ '']'')"
    using deck_text_ok [OF assms(3)] assms(1,2) by (cases cards) (auto simp: print_deck_def)
  have "list_all (\<lambda>s. length s \<le> 17) (map card_name cards)"
    using assms(3) length_card_name by (auto simp: list_all_iff subset_iff)
  from length_commas [OF this] assms(2)
  show "length (''['' @ commas (map card_name cards) @ '']'') < 1024" by (simp add: DECK_SIZE_def)
  have "deck_text (cards @ [int DECK_SIZE]) acc = OutOfBounds" for acc
    using assms(3)
  proof (induction cards arbitrary: acc)
    case Nil
    then show ?case by (simp add: DECK_SIZE_def card_values_def)
  next
    case (Cons c cards)
    then have "0 \<le> c" "c < 52" by (auto simp: DECK_SIZE_def)
    then have "nat (c div 4) < length card_values" by (simp add: card_values_def)
    with Cons \<open>0 \<le> c\<close> \<open>c < 52\<close> show ?case by (simp add: DECK_SIZE_def Let_def)
  qed
  then show "print_deck (cards @ [int DECK_SIZE]) = OutOfBounds"
    using assms(2) len by (simp add: print_deck_def)
qed

lemma print_deck_output_example:
  "print_deck [0, 51] = Line ''[2 of Hearts, Ace of Spades]'' \<and> print_deck [0, 51, 52] = OutOfBounds"
proof -
  have n: "card_name 0 = ''2 of Hearts''" "card_name 51 = ''Ace of Spades''"
    by (simp_all add: card_name_def card_values_def suits_def)
  show ?thesis
    using print_deck_output [of "[0, 51]"] by (simp add: DECK_SIZE_def n)
qed

text \<open>
  Player 0 never wins. In every interleaving, whatever hand thread 0 has, it is never the one
  that prints that it wins: its number is the value that means that there is no winner.
\<close>

lemma player_0_never_wins:
  assumes "table_step\<^sup>*\<^sup>* (table_start n deck) t"
  shows "0 \<notin> set (t_wins t)"
  using table_sys.inv_reachable [OF refl assms] by (simp add: no_zero_def)

text \<open>
  C38: the race after the barrier. There is a deal and a schedule after which thread 1 has a hand
  of one suit and is the winner, but waits in the barrier for ever, so that nothing is ever
  announced by it and \<open>main\<close> never joins it; a card has disappeared from the game (5), and another
  is in two hands (0).
\<close>

theorem table_race:
  "\<exists>deck t. distinct deck \<and> length deck = DECK_SIZE \<and> table_step\<^sup>*\<^sup>* (table_start 4 deck) t \<and>
     hand_ok (t_hands t ! 1) \<and> t_winner t = 1 \<and> t_wins t = [] \<and>
     5 \<in> set (concat (t_hands (table_start 4 deck))) \<and>
     5 \<notin> set (concat (t_hands t)) \<union> set (t_card_to_take t) \<and>
     0 \<in> set (t_hands t ! 1) \<inter> set (t_hands t ! 2) \<and>
     \<not> (\<exists>u. table_step\<^sup>*\<^sup>* t u \<and> t_pc u ! 1 = Exit)"
proof -
  obtain t where t: "table_step\<^sup>*\<^sup>* (table_start 4 race_deck) t" "t_wins t = []" "t_winner t = 1" "stranded 0 1 t"
      "t_card_to_take t = [11, 12, 0, 0]"
      "t_hands t = [[12, 1, 2, 3], [0, 4, 8, 12], [0, 7, 9, 10], [11, 13, 14, 15]]"
    using race_reach by blast
  have "distinct race_deck \<and> length race_deck = DECK_SIZE \<and> 5 \<in> set (concat (t_hands (table_start 4 race_deck)))"
    by code_simp
  moreover have "\<not> (\<exists>u. table_step\<^sup>*\<^sup>* t u \<and> t_pc u ! 1 = Exit)"
    using strand_sys.inv_reachable [OF t(4)] by (fastforce simp: stranded_def)
  moreover have "hand_ok (t_hands t ! 1)" by (simp add: t(6) hand_ok_def)
  ultimately show ?thesis using t by (intro exI [of _ race_deck] exI [of _ t]) simp
qed

lemma player_0_never_wins_example:
  "\<exists>t. table_step\<^sup>*\<^sup>* (table_start 4 race_deck) t \<and> t_winner t = 1 \<and> 0 \<notin> set (t_wins t)"
  using race_reach player_0_never_wins by blast

end
