(* ===== verification/Editor.thy ===== *)
theory Editor
  imports Prelude
begin

section \<open>The line editor\<close>

text \<open>
  \<open>sop1/lab01/editor/sop-ed.c\<close>: an editor on one file with the commands \<open>a\<close> (append a line), \<open>d\<close>
  (delete a line), \<open>%\<close> (print) and \<open>q\<close>. The operations act on the bytes of the file; \<open>main\<close> runs
  over the bytes of standard input.
\<close>

subsection \<open>The operations\<close>

text \<open>\<open>write\<close> at offset 0.\<close>

definition overwrite :: "string \<Rightarrow> string \<Rightarrow> string" where
  "overwrite file bytes = bytes @ drop (length bytes) file"

definition append_line :: "string \<Rightarrow> string \<Rightarrow> string \<times> string" where
  "append_line file line =
     (let new_content = file @ cstr line @ [NUL] in
      (overwrite file (cstr new_content), ''line appended'' @ [LF]))"

text \<open>
  The loops that copy whole lines: what is copied, what is left of the file, and the remaining
  \<open>lines_to_go\<close>.
\<close>

fun copy_lines :: "int \<Rightarrow> string \<Rightarrow> string \<times> string \<times> int" where
  "copy_lines lines_to_go [] = ([], [], lines_to_go)"
| "copy_lines lines_to_go (c # rest) =
     (if lines_to_go > 0 then
        (let (copied, rest', left) = copy_lines (if c = LF then lines_to_go - 1 else lines_to_go) rest in
         (c # copied, rest', left))
      else ([], c # rest, lines_to_go))"

fun skip_line :: "string \<Rightarrow> string" where
  "skip_line [] = []"
| "skip_line (c # rest) = (if c \<noteq> LF then skip_line rest else rest)"

definition delete_line :: "string \<Rightarrow> int \<Rightarrow> string \<times> string" where
  "delete_line file line_no =
     (if file = [] then (file, ''empty file'' @ [LF])
      else
        (let (copied, rest, lines_to_go) = copy_lines (line_no - 1) file in
         if lines_to_go > 0
         then (file, ''line '' @ show_int line_no @ '' not in file'' @ [LF])
         else
           (let new_content = copied @ skip_line rest @ [NUL]; new_n = strlen new_content in
            (take new_n (overwrite file (cstr new_content)), ''line deleted'' @ [LF]))))"

definition read_limits :: "string \<Rightarrow> int \<Rightarrow> int \<Rightarrow> string" where
  "read_limits file l r =
     (if l < 1 \<or> (r < 1 \<and> r \<noteq> -1) \<or> (r < l \<and> r \<noteq> -1) then ''invalid input'' @ [LF]
      else if file = [] then ''empty file'' @ [LF]
      else
        (let (skipped, rest, lines_to_go) = copy_lines (l - 1) file in
         if lines_to_go > 0 then ''line '' @ show_int l @ '' not in file'' @ [LF]
         else
           (let (content, rest', left) = copy_lines (if r = -1 then 2 ^ 30 else r - l + 1) rest in
            cstr (content @ [NUL]) @ [LF])))"

subsection \<open>Standard input and the command loop\<close>

text \<open>\<open>getline\<close>: up to and with the next newline; \<open>None\<close> at the end of the input.\<close>

definition getline :: "string \<Rightarrow> (string \<times> string) option" where
  "getline stdin =
     (if stdin = [] then None
      else (let (line, rest, left) = copy_lines 1 stdin in Some (line, rest)))"

text \<open>\<open>scanf\<close> with \<open>%d\<close>: blanks (newlines, too), a sign, digits.\<close>

definition scan_int :: "string \<Rightarrow> int option \<times> string" where
  "scan_int stdin =
     (let s = dropWhile is_blank stdin;
          (neg, s) = (case s of c # cs \<Rightarrow> if c = CHR ''-'' then (True, cs) else if c = CHR ''+'' then (False, cs)
                                          else (False, s)
                      | [] \<Rightarrow> (False, s)) in
      if takeWhile is_digit s = [] then (None, s)
      else (Some (if neg then - digits_value s else digits_value s), dropWhile is_digit s))"

datatype ended = Quit string | Died string

function (sequential) editor :: "string \<Rightarrow> string \<Rightarrow> string list \<Rightarrow> ended \<times> string list" where
  "editor stdin file out =
     (let out = out @ [''Enter command:'' @ [LF]] in
      case getline stdin of
        None \<Rightarrow> (Died file, out)
      | Some (line, rest) \<Rightarrow>
          if length line = 2 then
            (if line ! 0 = CHR ''q'' then (Quit file, out)
             else if line ! 0 = CHR ''%'' then editor rest file (out @ [read_limits file 1 (-1)])
             else if line ! 0 = CHR ''a'' then
               (let out = out @ [''Enter the new line:'' @ [LF]] in
                case getline rest of
                  None \<Rightarrow> (Died file, out)
                | Some (new_line, rest') \<Rightarrow>
                    (let (file', msg) = append_line file new_line in editor rest' file' (out @ [msg])))
             else if line ! 0 = CHR ''d'' then
               (let out = out @ [''Enter line number to delete:'' @ [LF]]; (line_no, rest') = scan_int rest;
                    rest'' = skip_line rest' in
                case line_no of
                  None \<Rightarrow> editor rest'' file (out @ [''error: not a number'' @ [LF]])
                | Some k \<Rightarrow> (let (file', msg) = delete_line file k in editor rest'' file' (out @ [msg])))
             else editor rest file out)
          else editor rest file out)"
  by pat_completeness auto

lemma copy_lines_append: "copy_lines k s = (copied, rest, left) \<Longrightarrow> s = copied @ rest"
  by (induction k s arbitrary: copied rest left rule: copy_lines.induct) (auto split: if_splits prod.splits)

lemma getline_shorter: "getline s = Some (line, rest) \<Longrightarrow> length rest < length s"
proof -
  assume g: "getline s = Some (line, rest)"
  then obtain c cs where s: "s = c # cs" by (cases s) (auto simp: getline_def)
  obtain left where "copy_lines 1 s = (line, rest, left)"
    using g s by (auto simp: getline_def split: prod.splits)
  with s show ?thesis
    by (auto split: prod.splits dest: copy_lines_append)
qed

lemma skip_line_length: "length (skip_line s) \<le> length s"
  by (induction s) auto

lemma scan_int_length: "length (snd (scan_int s)) \<le> length s"
proof -
  have d: "length (dropWhile P xs) \<le> length xs" for P :: "char \<Rightarrow> bool" and xs by (rule length_dropWhile_le)
  define t where "t = dropWhile is_blank s"
  have t: "length t \<le> length s" by (simp add: t_def d)
  have "length (snd (scan_int s)) \<le> length t"
    using d [of is_digit t] d [of is_digit "tl t"]
    by (cases t) (auto simp: scan_int_def Let_def simp flip: t_def)
  with t show ?thesis by simp
qed

lemma scan_skip_shorter: "(x, y) = scan_int b \<Longrightarrow> length b < n \<Longrightarrow> length (skip_line y) < n"
  using scan_int_length [of b] skip_line_length [of y] by (cases "scan_int b") auto

termination editor
proof (relation "measure (\<lambda>(stdin, file, out). length stdin)", goal_cases)
  case 1
  show ?case by simp
qed (auto dest!: getline_shorter intro: scan_skip_shorter)

subsection \<open>Files as lists of lines\<close>

fun lines_of :: "string \<Rightarrow> string list" where
  "lines_of [] = []"
| "lines_of (c # cs) =
     (if c = LF then [LF] # lines_of cs
      else (case lines_of cs of [] \<Rightarrow> [[c]] | l # ls \<Rightarrow> (c # l) # ls))"

definition newlines :: "string \<Rightarrow> nat" where
  "newlines s = length (filter (\<lambda>c. c = LF) s)"

lemma newlines_simps [simp]:
  "newlines [] = 0" "newlines (c # s) = (if c = LF then 1 else 0) + newlines s"
  "newlines (s @ t) = newlines s + newlines t"
  by (simp_all add: newlines_def)

lemma concat_lines_of [simp]: "concat (lines_of s) = s"
  by (induction s rule: lines_of.induct) (auto split: list.splits)

lemma length_lines_of: "newlines s \<le> length (lines_of s) \<and> length (lines_of s) \<le> newlines s + 1"
proof (induction s rule: lines_of.induct)
  case (2 c cs)
  then show ?case by (cases "lines_of cs") (auto split: if_splits)
qed simp

lemma copy_lines_spec:
  "0 \<le> k \<Longrightarrow> copy_lines k s =
     (concat (take (nat k) (lines_of s)), concat (drop (nat k) (lines_of s)), k - int (min (nat k) (newlines s)))"
proof (induction k s rule: copy_lines.induct)
  case (2 k c rest)
  show ?case
  proof (cases "k > 0")
    case True
    define j where "j = nat k - 1"
    have j: "nat k = Suc j" "nat (k - 1) = j" "k = int (Suc j)" using True by (auto simp: j_def)
    with 2 True show ?thesis by (cases "lines_of rest") (auto split: if_splits)
  qed (use 2 in \<open>auto simp del: lines_of.simps\<close>)
qed simp

lemma copy_lines_none: "k \<le> 0 \<Longrightarrow> copy_lines k s = ([], s, k)"
  by (cases s) simp_all

lemma skip_line_drop: "skip_line (concat (drop k (lines_of s))) = concat (drop (Suc k) (lines_of s))"
proof (induction s arbitrary: k rule: lines_of.induct)
  case (2 c cs)
  show ?case
  proof (cases k)
    case 0
    have "skip_line cs = concat (drop 1 (lines_of cs))" if "c \<noteq> LF"
      using "2.IH"(2) [OF that, of 0] by simp
    with 0 show ?thesis by (cases "lines_of cs") (auto dest: arg_cong [where f = concat])
  next
    case (Suc j)
    with "2.IH"(1) [of j] "2.IH"(2) [of k] show ?thesis
      by (cases "c = LF"; cases "lines_of cs") auto
  qed
qed simp


lemma take_overwrite: "take (length bs) (overwrite file bs) = bs"
  by (simp add: overwrite_def)

lemma NUL_concat: "NUL \<notin> set s \<Longrightarrow> NUL \<notin> set (concat (take k (lines_of s)))"
    "NUL \<notin> set s \<Longrightarrow> NUL \<notin> set (concat (drop k (lines_of s)))"
proof -
  assume "NUL \<notin> set s"
  then have "\<forall>l \<in> set (lines_of s). NUL \<notin> set l" by (metis UN_I concat_lines_of set_concat)
  then show "NUL \<notin> set (concat (take k (lines_of s)))" "NUL \<notin> set (concat (drop k (lines_of s)))"
    by (auto dest: in_set_takeD in_set_dropD)
qed

lemma append_line_text:
  "NUL \<notin> set file \<Longrightarrow> append_line file line = (file @ cstr line, ''line appended'' @ [LF])"
proof -
  assume "NUL \<notin> set file"
  then have "cstr ((file @ cstr line) @ NUL # []) = file @ cstr line"
    using cstr_no_NUL [of line] by (intro cstr_append_NUL) simp
  then show ?thesis by (simp add: append_line_def overwrite_def)
qed

lemma delete_line_text:
  assumes "NUL \<notin> set file" and "file \<noteq> []"
  shows "delete_line file k =
     (if k > int (newlines file) + 1 then (file, ''line '' @ show_int k @ '' not in file'' @ [LF])
      else (concat (take (nat (k - 1)) (lines_of file) @ drop (nat (max k 1)) (lines_of file)),
            ''line deleted'' @ [LF]))"
proof -
  let ?ls = "lines_of file" and ?j = "nat (k - 1)"
  have new: "(take (strlen (xs @ [NUL])) (overwrite file (cstr (xs @ [NUL]))), m) = (xs, m)"
    if "NUL \<notin> set xs" for xs m
    using that take_overwrite by (simp add: strlen_def cstr_append_NUL)
  show ?thesis
  proof (cases "k \<ge> 1")
    case True
    then have c: "copy_lines (k - 1) file =
        (concat (take ?j ?ls), concat (drop ?j ?ls), k - 1 - int (min ?j (newlines file)))"
      by (intro copy_lines_spec) simp
    have "nat (max k 1) = Suc ?j" using True by simp
    moreover have "k - 1 - int (min ?j (newlines file)) > 0 \<longleftrightarrow> k > int (newlines file) + 1"
      using True by (auto simp: min_def)
    ultimately show ?thesis
      using assms new [of "concat (take ?j ?ls) @ concat (drop (Suc ?j) ?ls)"] NUL_concat [OF assms(1)]
      by (simp add: delete_line_def c skip_line_drop)
  next
    case False
    then have "nat (max k 1) = 1" "?j = 0" by simp_all
    moreover have "skip_line file = concat (drop 1 ?ls)" using skip_line_drop [of 0 "file"] by simp
    ultimately show ?thesis
      using False assms new [of "concat (drop 1 ?ls)"] NUL_concat [OF assms(1)]
      by (simp add: delete_line_def copy_lines_none)
  qed
qed


subsection \<open>Numbers that are typed in\<close>

lemma scan_int_decimal: "scan_int (decimal n @ LF # rest) = (Some (int n), LF # rest)"
proof -
  note d = decimal_digits [of n]
  have nd: "\<not> is_digit LF" by (simp add: is_digit_def)
  obtain c cs where c: "decimal n = c # cs" using d by (cases "decimal n") auto
  have blank: "dropWhile is_blank (decimal n @ LF # rest) = decimal n @ LF # rest"
    using c d by simp
  have all: "\<forall>x \<in> set (decimal n). is_digit x" using d by (simp add: list_all_iff)
  then have tk: "takeWhile is_digit (decimal n @ LF # rest) = decimal n"
    and dr: "dropWhile is_digit (decimal n @ LF # rest) = LF # rest"
    using nd by (simp_all add: takeWhile_append dropWhile_append)
  have "digits_value (decimal n @ LF # rest) = int n"
    using d tk by (simp add: digits_value_def digits_fold_def)
  with c d blank tk dr show ?thesis by (simp add: scan_int_def Let_def)
qed

lemma copy_one_line: "LF \<notin> set body \<Longrightarrow> copy_lines 1 (body @ LF # rest) = (body @ [LF], rest, 0)"
  by (induction body) (auto simp: copy_lines_none)

lemma getline_line: "LF \<notin> set body \<Longrightarrow> getline (body @ LF # rest) = Some (body @ [LF], rest)"
  by (simp add: getline_def copy_one_line)

lemma lines_of_append:
  "file = [] \<or> last file = LF \<Longrightarrow> lines_of (file @ s) = lines_of file @ lines_of s"
proof (induction "file" rule: lines_of.induct)
  case (2 c cs)
  then show ?case by (cases "lines_of cs"; cases cs) (auto split: if_splits list.splits)
qed simp

lemma lines_of_line: "LF \<notin> set body \<Longrightarrow> lines_of (body @ [LF]) = [body @ [LF]]"
  by (induction body) auto

lemma length_lines_of_complete:
  "s = [] \<or> last s = LF \<Longrightarrow> length (lines_of s) = newlines s"
proof (induction s rule: lines_of.induct)
  case (2 c cs)
  show ?case
  proof (cases "c = LF")
    case True
    with 2 show ?thesis by (cases cs) auto
  next
    case False
    with "2.prems" have cs: "cs \<noteq> []" "last cs = LF" by (auto split: if_splits)
    with "2.IH"(2) [OF False] concat_lines_of [of cs] False show ?thesis
      by (cases "lines_of cs") auto
  qed
qed simp

subsection \<open>Properties\<close>



text \<open>
  A session that undoes itself. On any text file whose last line is complete, the commands to
  append a line, to delete the line of the next number, and to quit, typed into \<open>main\<close>, leave the
  file as it was.
\<close>

lemma editor_session_roundtrip:
  assumes "NUL \<notin> set file" and "file = [] \<or> last file = LF" and "NUL \<notin> set body" and "LF \<notin> set body"
  shows "fst (editor (''a'' @ [LF] @ body @ [LF] @ ''d'' @ [LF] @ decimal (newlines file + 1) @ [LF] @ ''q'' @ [LF])
     file out) = Quit file"
proof -
  let ?line = "body @ [LF]"
  have app: "append_line file ?line = (file @ ?line, ''line appended'' @ [LF])"
    using append_line_text [OF assms(1)] assms(3) by (simp add: cstr_id)
  have lines: "lines_of (file @ ?line) = lines_of file @ [?line]"
    using lines_of_append [OF assms(2)] lines_of_line [OF assms(4)] by simp
  have "NUL \<notin> set (file @ ?line)" using assms by simp
  moreover have "newlines (file @ ?line) = newlines file + 1"
    using assms(4) by (simp add: newlines_def filter_empty_conv) (metis filter_False)
  ultimately have del: "delete_line (file @ ?line) (int (newlines file + 1)) = (file, ''line deleted'' @ [LF])"
    using length_lines_of_complete [OF assms(2)]
    by (subst delete_line_text) (simp_all add: lines nat_add_distrib)
  then have del': "delete_line (file @ body @ [LF]) (1 + int (newlines file)) = (file, ''line deleted'' @ [LF])"
    by (simp add: add.commute)
  have a: "getline (CHR ''a'' # LF # s) = Some (''a'' @ [LF], s)" for s using getline_line [of "''a''"] by simp
  have d: "getline (CHR ''d'' # LF # s) = Some (''d'' @ [LF], s)" for s using getline_line [of "''d''"] by simp
  have q: "getline (CHR ''q'' # LF # s) = Some (''q'' @ [LF], s)" for s using getline_line [of "''q''"] by simp
  show ?thesis
    by (subst editor.simps) (simp add: a getline_line [OF assms(4)] app Let_def,
      subst editor.simps, simp add: d scan_int_decimal del' Let_def, subst editor.simps, simp add: q)
qed

lemma editor_session_roundtrip_example:
  "fst (editor (''a'' @ [LF] @ ''new'' @ [LF] @ ''d'' @ [LF] @ ''2'' @ [LF] @ ''q'' @ [LF]) (''old'' @ [LF]) []) =
     Quit (''old'' @ [LF])"
  using editor_session_roundtrip [of "''old'' @ [LF]" "''new''" "[]"]
  by (simp add: decimal.simps char_of_digits)

end
