(* ===== verification/VirtualEnv.thy ===== *)
theory VirtualEnv
  imports Prelude
begin

section \<open>The package environments\<close>

text \<open>
  \<open>sop1/lab01/tutorial/example03/sop-venv.c\<close>: directories that hold packages, listed with their
  versions in a file \<open>requirements\<close>. The current directory is a map from names (without slashes, not \<open>.\<close> or \<open>..\<close>)
  to entries; reads and writes of existing regular files do not fail. A run returns what ended it
  early, if anything did, and the directory as it left it.
\<close>

datatype entry = File string | Dir "string \<Rightarrow> string option"

type_synonym dir = "string \<Rightarrow> entry option"

datatype failure = ERR string | Usage | OutOfBounds

type_synonym outcome = "failure option \<times> dir"

definition MAX_N :: nat where "MAX_N = 256"

fun create_env :: "string list \<Rightarrow> dir \<Rightarrow> outcome" where
  "create_env [] d = (None, d)"
| "create_env (env_name # names) d =
     (if d env_name \<noteq> None then (Some (ERR ''env with this name already created''), d)
      else create_env names (d(env_name \<mapsto> Dir [''requirements'' \<mapsto> []])))"

text \<open>\<open>read_line\<close>: the bytes put into \<open>buf\<close> and what is left of the file.\<close>

fun read_line :: "nat \<Rightarrow> string \<Rightarrow> string \<times> string" where
  "read_line 0 s = ([], s)"
| "read_line (Suc n) [] = ([], [])"
| "read_line (Suc n) (c # s) =
     (if c = LF then ([c], s) else (let (buf, rest) = read_line n s in (c # buf, rest)))"

definition write_line :: "string \<Rightarrow> string \<Rightarrow> string" where
  "write_line pkg_name pkg_ver = cstr pkg_name @ '' '' @ cstr pkg_ver @ [LF]"

lemma read_line_append: "read_line n s = (buf, rest) \<Longrightarrow> s = buf @ rest"
  by (induction n s arbitrary: buf rest rule: read_line.induct) (auto split: if_splits prod.splits)

lemma read_line_shorter: "read_line n s = (buf, rest) \<Longrightarrow> buf \<noteq> [] \<Longrightarrow> length rest < length s"
  using read_line_append [of n s buf rest] by auto

text \<open>The search for the package among those already installed: the error it ends in, if any.\<close>

function find_installed :: "string \<Rightarrow> string \<Rightarrow> failure option" where
  "find_installed pkg_name s =
     (let (line, rest) = read_line MAX_N s in
      if line = [] then None
      else (let buf = cstr (butlast line @ [NUL]) in
        case strstr buf '' '' of
          None \<Rightarrow> Some (ERR ''reading'')
        | Some where \<Rightarrow>
            if take where buf = pkg_name then Some (ERR ''package already installed'')
            else find_installed pkg_name rest))"
  by pat_completeness auto
termination
  by (relation "measure (\<lambda>(pkg_name, s). length s)") (auto dest: read_line_shorter [OF sym])

declare find_installed.simps [simp del]

text \<open>The file made for a package; the argument is what the next calls of \<open>rand\<close> return.\<close>

definition random_chars :: "(nat \<Rightarrow> nat) \<Rightarrow> string" where
  "random_chars rnd = map (\<lambda>i. char_of (65 + rnd i mod 26)) [0..<MAX_N]"

definition add_file :: "string \<Rightarrow> (nat \<Rightarrow> nat) \<Rightarrow> (string \<Rightarrow> string option) \<Rightarrow>
    (string \<Rightarrow> string option) \<times> (nat \<Rightarrow> nat)" where
  "add_file pkg_name rnd files =
     (if files pkg_name = None then (files(pkg_name \<mapsto> random_chars rnd), \<lambda>i. rnd (MAX_N + i))
      else (files, rnd))"

text \<open>
  \<open>install_pkg\<close>. The assignment to \<open>*where\<close> changes the argument string itself, which the next
  environment's turn then sees.
\<close>

fun install_pkg :: "string list \<Rightarrow> string \<Rightarrow> (nat \<Rightarrow> nat) \<Rightarrow> dir \<Rightarrow> outcome" where
  "install_pkg [] to_install rnd d = (None, d)"
| "install_pkg (env_name # names) to_install rnd d =
     (case d env_name of
        None \<Rightarrow> (Some (ERR ''can't install to non-existing env''), d)
      | Some e \<Rightarrow>
          (case strstr (cstr to_install) ''=='' of
             None \<Rightarrow> (Some (ERR ''version not specified''), d)
           | Some where \<Rightarrow>
               (let to_install = to_install[where := NUL];
                    pkg_name = cstr to_install; pkg_ver = cstr (drop (where + 2) to_install) in
                if pkg_name = [] then (Some (ERR ''empty package name''), d)
                else if pkg_ver = [] then (Some (ERR ''empty package version''), d)
                else
                  (case e of
                     File _ \<Rightarrow> (Some (ERR ''chdir''), d)
                   | Dir files \<Rightarrow>
                       (case files ''requirements'' of
                          None \<Rightarrow> (Some (ERR ''open''), d)
                        | Some s \<Rightarrow>
                            (case find_installed pkg_name s of
                               Some failed \<Rightarrow> (Some failed, d)
                             | None \<Rightarrow>
                                 (let (files, rnd) = add_file pkg_name rnd
                                        (files(''requirements'' \<mapsto> s @ write_line pkg_name pkg_ver)) in
                                  install_pkg names to_install rnd (d(env_name \<mapsto> Dir files)))))))))"

text \<open>
  The copy of the other packages' lines in \<open>remove_pkg\<close>, and whether the package was found;
  \<open>buf[read]\<close> is one past the end of \<open>buf\<close> when \<open>read_line\<close> has filled it.
\<close>

function remove_lines :: "string \<Rightarrow> string \<Rightarrow> string \<Rightarrow> bool \<Rightarrow> failure + string \<times> bool" where
  "remove_lines pkg_name s entire_file found =
     (let (line, rest) = read_line MAX_N s in
      if line = [] then Inr (entire_file, found)
      else if length line = MAX_N then Inl OutOfBounds
      else (let buf = cstr (line @ [NUL]) in
        case strstr buf '' '' of
          None \<Rightarrow> Inl (ERR ''reading'')
        | Some where \<Rightarrow>
            (let pkg_in_file = take where buf; pkg_ver = drop (where + 1) buf in
             if pkg_in_file \<noteq> pkg_name
             then remove_lines pkg_name rest (entire_file @ pkg_in_file @ '' '' @ pkg_ver) found
             else remove_lines pkg_name rest entire_file True)))"
  by pat_completeness auto
termination
  by (relation "measure (\<lambda>(pkg_name, s, entire_file, found). length s)")
    (auto dest: read_line_shorter [OF sym])

declare remove_lines.simps [simp del]

fun remove_pkg :: "string list \<Rightarrow> string \<Rightarrow> dir \<Rightarrow> outcome" where
  "remove_pkg [] pkg_name d = (None, d)"
| "remove_pkg (env_name # names) pkg_name d =
     (case d env_name of
        None \<Rightarrow> (Some (ERR ''can't remove from non-existing env''), d)
      | Some (File _) \<Rightarrow> (Some (ERR ''chdir''), d)
      | Some (Dir files) \<Rightarrow>
          (case files ''requirements'' of
             None \<Rightarrow> (Some (ERR ''fopen''), d)
           | Some s \<Rightarrow>
               (case remove_lines pkg_name s [] False of
                  Inl failed \<Rightarrow> (Some failed, d)
                | Inr (entire_file, found) \<Rightarrow>
                    if \<not> found then (Some (ERR ''tried to remove a package that isn't installed''), d)
                    else remove_pkg names pkg_name
                      (d(env_name \<mapsto> Dir (files(''requirements'' \<mapsto> entire_file)))))))"

text \<open>\<open>main\<close> on what \<open>getopt\<close> returns; the last of several options \<open>-i\<close> or \<open>-r\<close> counts.\<close>

datatype opt = Create | Env string | Install string | Remove string | Unknown

fun parse_opts :: "opt list \<Rightarrow> bool \<times> string list \<times> string option \<times> string option \<Rightarrow>
    failure + bool \<times> string list \<times> string option \<times> string option" where
  "parse_opts [] st = Inr st"
| "parse_opts (c # cs) (create_flag, names, to_install, to_remove) =
     (case c of
        Create \<Rightarrow> parse_opts cs (True, names, to_install, to_remove)
      | Env arg \<Rightarrow> if length names < MAX_N then parse_opts cs (create_flag, names @ [arg], to_install, to_remove)
                  else Inl OutOfBounds
      | Install arg \<Rightarrow> parse_opts cs (create_flag, names, Some arg, to_remove)
      | Remove arg \<Rightarrow> parse_opts cs (create_flag, names, to_install, Some arg)
      | Unknown \<Rightarrow> Inl Usage)"

definition and_then :: "outcome \<Rightarrow> (dir \<Rightarrow> outcome) \<Rightarrow> outcome" where
  "and_then out k = (case out of (None, d) \<Rightarrow> k d | (Some failed, d) \<Rightarrow> (Some failed, d))"

definition venv_main :: "opt list \<Rightarrow> (nat \<Rightarrow> nat) \<Rightarrow> dir \<Rightarrow> outcome" where
  "venv_main opts rnd d =
     (case parse_opts opts (False, [], None, None) of
        Inl failed \<Rightarrow> (Some failed, d)
      | Inr (create_flag, names, to_install, to_remove) \<Rightarrow>
          if names = [] then (Some Usage, d)
          else if \<not> create_flag \<and> to_install = None \<and> to_remove = None then (Some Usage, d)
          else
            and_then (if create_flag then create_env names d else (None, d)) (\<lambda>d.
            and_then (case to_install of None \<Rightarrow> (None, d) | Some p \<Rightarrow> install_pkg names p rnd d) (\<lambda>d.
            case to_remove of None \<Rightarrow> (None, d) | Some p \<Rightarrow> remove_pkg names p d)))"


subsection \<open>The file as a list of packages\<close>

definition pkg_ok :: "string \<times> string \<Rightarrow> bool" where
  "pkg_ok p \<longleftrightarrow> NUL \<notin> set (fst p @ snd p) \<and> LF \<notin> set (fst p @ snd p) \<and> CHR '' '' \<notin> set (fst p)"

definition requirements :: "(string \<times> string) list \<Rightarrow> string" where
  "requirements ps = concat (map (\<lambda>p. write_line (fst p) (snd p)) ps)"

lemma requirements_simps [simp]:
  "requirements [] = []" "requirements (p # ps) = write_line (fst p) (snd p) @ requirements ps"
  "requirements (ps @ qs) = requirements ps @ requirements qs"
  by (simp_all add: requirements_def)

lemma write_line_ok: "pkg_ok p \<Longrightarrow> write_line (fst p) (snd p) = (fst p @ CHR '' '' # snd p) @ [LF]"
  by (simp add: write_line_def pkg_ok_def cstr_id)

lemma length_write_line: "pkg_ok p \<Longrightarrow> length (write_line (fst p) (snd p)) = length (fst p) + length (snd p) + 2"
  by (simp add: write_line_ok)

lemma read_line_whole: "LF \<notin> set l \<Longrightarrow> length l < n \<Longrightarrow> read_line n (l @ LF # s) = (l @ [LF], s)"
proof (induction l arbitrary: n)
  case Nil
  then show ?case by (cases n) auto
next
  case (Cons a l)
  then show ?case by (cases n) auto
qed

lemma read_line_part: "LF \<notin> set l \<Longrightarrow> n \<le> length l \<Longrightarrow> read_line n (l @ s) = (take n l, drop n l @ s)"
proof (induction l arbitrary: n)
  case (Cons a l)
  then show ?case by (cases n) auto
qed simp

lemma pkg_line:
  assumes "pkg_ok p"
  shows "cstr (butlast (write_line (fst p) (snd p)) @ [NUL]) = fst p @ CHR '' '' # snd p"
    "cstr (write_line (fst p) (snd p) @ [NUL]) = fst p @ CHR '' '' # snd p @ [LF]"
    "write_line (fst p) (snd p) \<noteq> []"
  using assms cstr_append_NUL [of "fst p @ CHR '' '' # snd p"] cstr_append_NUL [of "fst p @ CHR '' '' # snd p @ [LF]"]
  by (simp_all add: write_line_ok butlast_append) (simp_all add: pkg_ok_def)

lemma strstr_space: "pkg_ok p \<Longrightarrow> strstr (fst p @ CHR '' '' # s) '' '' = Some (length (fst p))"
  by (rule strstr_append_first) (simp add: pkg_ok_def)

lemma read_pkg_line:
  "pkg_ok p \<Longrightarrow> length (write_line (fst p) (snd p)) \<le> MAX_N \<Longrightarrow>
     read_line MAX_N (write_line (fst p) (snd p) @ s) = (write_line (fst p) (snd p), s)"
  using read_line_whole [of "fst p @ CHR '' '' # snd p" MAX_N s]
  by (simp add: write_line_ok) (simp add: pkg_ok_def)

lemma read_line_end: "read_line n [] = ([], [])"
  by (cases n) auto


lemma find_installed_requirements:
  "list_all (\<lambda>p. pkg_ok p \<and> length (write_line (fst p) (snd p)) \<le> MAX_N) ps \<Longrightarrow>
     find_installed pkg (requirements ps) =
       (if pkg \<in> set (map fst ps) then Some (ERR ''package already installed'') else None)"
proof (induction ps)
  case Nil
  show ?case by (simp add: find_installed.simps read_line_end)
next
  case (Cons p ps)
  then have "pkg_ok p" "length (write_line (fst p) (snd p)) \<le> MAX_N" by simp_all
  with Cons show ?case
    by (subst find_installed.simps) (auto simp: read_pkg_line pkg_line strstr_space)
qed

lemma remove_lines_requirements:
  "list_all (\<lambda>p. pkg_ok p \<and> length (write_line (fst p) (snd p)) < MAX_N) ps \<Longrightarrow>
     remove_lines pkg (requirements ps) entire found =
       Inr (entire @ requirements (filter (\<lambda>p. fst p \<noteq> pkg) ps), found \<or> pkg \<in> set (map fst ps))"
proof (induction ps arbitrary: entire found)
  case Nil
  show ?case by (simp add: remove_lines.simps read_line_end)
next
  case (Cons p ps)
  then have "pkg_ok p" "length (write_line (fst p) (snd p)) < MAX_N" by simp_all
  with Cons show ?case
    by (subst remove_lines.simps) (auto simp: read_pkg_line pkg_line strstr_space, auto simp: write_line_ok)
qed

lemma remove_lines_overflow:
  assumes "pkg_ok p" "MAX_N \<le> length (write_line (fst p) (snd p))"
  shows "remove_lines pkg (write_line (fst p) (snd p) @ s) entire found = Inl OutOfBounds"
proof -
  let ?l = "fst p @ CHR '' '' # snd p"
  have l: "LF \<notin> set ?l" using assms(1) by (auto simp: pkg_ok_def)
  have "fst (read_line MAX_N ((?l @ [LF]) @ s)) \<noteq> [] \<and> length (fst (read_line MAX_N ((?l @ [LF]) @ s))) = MAX_N"
  proof (cases "MAX_N \<le> length ?l")
    case True
    with read_line_part [OF l True, of "LF # s"] show ?thesis by (auto simp: MAX_N_def)
  next
    case False
    with read_line_whole [OF l, of MAX_N s] assms show ?thesis by (simp add: write_line_ok)
  qed
  then show ?thesis
    by (subst remove_lines.simps) (auto simp: write_line_ok [OF assms(1)] split: prod.splits)
qed

lemma strstr_eqeq: "CHR ''='' \<notin> set pkg \<Longrightarrow> strstr (pkg @ ''=='' @ ver) ''=='' = Some (length pkg)"
  by (induction pkg) auto


text \<open>An environment whose file \<open>requirements\<close> lists \<open>ps\<close>, and a package that can be named on the
  command line.\<close>

definition lists :: "string \<Rightarrow> dir \<Rightarrow> (string \<times> string) list \<Rightarrow> bool" where
  "lists env d ps \<longleftrightarrow>
     list_all (\<lambda>p. pkg_ok p \<and> length (write_line (fst p) (snd p)) < MAX_N) ps \<and>
     (\<exists>files. d env = Some (Dir files) \<and> files ''requirements'' = Some (requirements ps))"

definition nameable :: "string \<times> string \<Rightarrow> bool" where
  "nameable p \<longleftrightarrow> pkg_ok p \<and> CHR ''='' \<notin> set (fst p) \<and> fst p \<noteq> [] \<and> snd p \<noteq> []"

abbreviation pkg_arg :: "string \<times> string \<Rightarrow> string" where
  "pkg_arg p \<equiv> fst p @ ''=='' @ snd p"

lemma pkg_arg_parts:
  assumes "nameable p"
  shows "cstr (pkg_arg p) = pkg_arg p" "strstr (pkg_arg p) ''=='' = Some (length (fst p))"
    "cstr ((pkg_arg p)[length (fst p) := NUL]) = fst p"
    "cstr (drop (length (fst p) + 2) ((pkg_arg p)[length (fst p) := NUL])) = snd p"
    "strstr (fst p) ''=='' = None"
proof -
  have ok: "NUL \<notin> set (fst p)" "NUL \<notin> set (snd p)" "CHR ''='' \<notin> set (fst p)"
    using assms by (auto simp: nameable_def pkg_ok_def)
  show "cstr (pkg_arg p) = pkg_arg p" using ok by (simp add: cstr_id)
  show "strstr (pkg_arg p) ''=='' = Some (length (fst p))" using strstr_eqeq [OF ok(3)] by simp
  show "cstr ((pkg_arg p)[length (fst p) := NUL]) = fst p" using ok by (simp add: cstr_append_NUL)
  show "cstr (drop (length (fst p) + 2) ((pkg_arg p)[length (fst p) := NUL])) = snd p"
    using ok by (simp add: cstr_id)
  show "strstr (fst p) ''=='' = None"
    using ok(3) strstr_iff_occurs [of "fst p" "''==''"] by auto
qed

lemma install_turn:
  assumes "nameable p" "list_all (\<lambda>p. pkg_ok p \<and> length (write_line (fst p) (snd p)) < MAX_N) ps"
    "d env = Some (Dir files)" "files ''requirements'' = Some (requirements ps)"
  shows "install_pkg (env # names) (pkg_arg p) rnd d =
    (if fst p \<in> set (map fst ps) then (Some (ERR ''package already installed''), d)
     else (case add_file (fst p) rnd (files(''requirements'' \<mapsto> requirements (ps @ [p]))) of (files', rnd') \<Rightarrow>
           install_pkg names ((pkg_arg p)[length (fst p) := NUL]) rnd' (d(env \<mapsto> Dir files'))))"
proof -
  have le: "list_all (\<lambda>p. pkg_ok p \<and> length (write_line (fst p) (snd p)) \<le> MAX_N) ps"
    using assms(2) by (auto simp: list_all_iff less_imp_le)
  show ?thesis
    using assms(1) find_installed_requirements [OF le, of "fst p"] assms(3,4)
    by (simp only: install_pkg.simps pkg_arg_parts [OF assms(1)] option.case entry.case Let_def)
      (simp add: nameable_def split: prod.splits)
qed

lemma install_again: "nameable p \<Longrightarrow> d env \<noteq> None \<Longrightarrow>
   install_pkg (env # names) ((pkg_arg p)[length (fst p) := NUL]) rnd d = (Some (ERR ''version not specified''), d)"
  by (auto simp only: install_pkg.simps pkg_arg_parts split: option.splits)

lemma remove_turn:
  assumes "list_all (\<lambda>p. pkg_ok p \<and> length (write_line (fst p) (snd p)) < MAX_N) ps"
    "d env = Some (Dir files)" "files ''requirements'' = Some (requirements ps)"
  shows "remove_pkg (env # names) pkg d =
    (if pkg \<notin> set (map fst ps) then (Some (ERR ''tried to remove a package that isn't installed''), d)
     else remove_pkg names pkg
       (d(env \<mapsto> Dir (files(''requirements'' \<mapsto> requirements (filter (\<lambda>p. fst p \<noteq> pkg) ps))))))"
  using assms remove_lines_requirements [OF assms(1), of pkg "[]" False] by auto

lemma random_letter: "char_of (65 + (n :: nat) mod 26) \<in> set ''ABCDEFGHIJKLMNOPQRSTUVWXYZ''"
proof -
  have "list_all (\<lambda>k. char_of (65 + k) \<in> set ''ABCDEFGHIJKLMNOPQRSTUVWXYZ'') [0..<26]" by code_simp
  moreover have "n mod 26 \<in> set [0..<26]" by simp
  ultimately show ?thesis unfolding list_all_iff by (rule bspec)
qed

lemma add_file_requirements:
  "add_file pkg rnd (files(''requirements'' \<mapsto> s)) = (files', rnd') \<Longrightarrow> files' ''requirements'' = Some s"
  by (auto simp: add_file_def split: if_splits)


text \<open>
  An installation and the removal of the same package in one call of \<open>main\<close> leave the file
  \<open>requirements\<close> as it was; the file of 256 letters made for the package stays behind.
\<close>

lemma venv_install_remove:
  assumes "lists env d ps" and "d env = Some (Dir files)" and "nameable p"
    and "length (write_line (fst p) (snd p)) < MAX_N"
    and "fst p \<notin> set (map fst ps)" and "files (fst p) = None"
  shows "venv_main [Env env, Install (pkg_arg p), Remove (fst p)] rnd d =
      (None, d(env \<mapsto> Dir (files(fst p \<mapsto> random_chars rnd)))) \<and>
    length (random_chars rnd) = 256 \<and>
    set (random_chars rnd) \<subseteq> set ''ABCDEFGHIJKLMNOPQRSTUVWXYZ''"
proof (intro conjI)
  have e: "list_all (\<lambda>p. pkg_ok p \<and> length (write_line (fst p) (snd p)) < MAX_N) ps"
      "files ''requirements'' = Some (requirements ps)"
    using assms(1,2) by (auto simp: lists_def)
  have req: "fst p \<noteq> ''requirements''" using e(2) assms(6) by auto
  let ?files = "files(''requirements'' \<mapsto> requirements (ps @ [p]), fst p \<mapsto> random_chars rnd)"
  have f: "add_file (fst p) rnd (files(''requirements'' \<mapsto> requirements (ps @ [p]))) = (?files, \<lambda>i. rnd (MAX_N + i))"
    using assms(6) req by (simp add: add_file_def)
  have inst: "install_pkg [env] (pkg_arg p) rnd d = (None, d(env \<mapsto> Dir ?files))"
    unfolding install_turn [where d = d and env = env and files = files, OF assms(3) e(1) assms(2) e(2)] f using assms(5) by simp
  have all: "list_all (\<lambda>p. pkg_ok p \<and> length (write_line (fst p) (snd p)) < MAX_N) (ps @ [p])"
    using e(1) assms(3,4) by (simp add: nameable_def)
  have "filter (\<lambda>q. fst q \<noteq> fst p) ps = ps"
  proof (rule filter_True, rule ballI)
    fix q assume "q \<in> set ps"
    then have "fst q \<in> set (map fst ps)" by simp
    with assms(5) show "fst q \<noteq> fst p" by metis
  qed
  then have "filter (\<lambda>q. fst q \<noteq> fst p) (ps @ [p]) = ps" by simp
  then have "remove_pkg [env] (fst p) (d(env \<mapsto> Dir ?files)) =
      (None, d(env \<mapsto> Dir (?files(''requirements'' \<mapsto> requirements ps))))"
    using remove_turn [OF all, of "d(env \<mapsto> Dir ?files)" env ?files "[]" "fst p"] req by simp
  moreover have "?files(''requirements'' \<mapsto> requirements ps) = files(fst p \<mapsto> random_chars rnd)"
    using e(2) req by (auto simp: fun_eq_iff)
  ultimately show "venv_main [Env env, Install (pkg_arg p), Remove (fst p)] rnd d =
      (None, d(env \<mapsto> Dir (files(fst p \<mapsto> random_chars rnd))))"
    using inst by (simp add: venv_main_def MAX_N_def and_then_def)
  show "length (random_chars rnd) = 256" by (simp add: random_chars_def MAX_N_def)
  show "set (random_chars rnd) \<subseteq> set ''ABCDEFGHIJKLMNOPQRSTUVWXYZ''"
    using random_letter by (auto simp: random_chars_def)
qed


text \<open>
  Two environments. Installing one package into two of them in one call does the first and then
  fails for the second, because the argument was cut at \<open>==\<close> on the first turn.
\<close>

lemma venv_second_env:
  assumes "lists env d ps" and "d env2 \<noteq> None" and "nameable p"
    and "length (write_line (fst p) (snd p)) < MAX_N" and "fst p \<notin> set (map fst ps)"
  shows "\<exists>d'. venv_main [Env env, Env env2, Install (pkg_arg p)] rnd d = (Some (ERR ''version not specified''), d') \<and>
     lists env d' (ps @ [p]) \<and> (\<forall>e. e \<noteq> env \<longrightarrow> d' e = d e)"
proof -
  obtain files where e: "list_all (\<lambda>p. pkg_ok p \<and> length (write_line (fst p) (snd p)) < MAX_N) ps"
      "d env = Some (Dir files)" "files ''requirements'' = Some (requirements ps)"
    using assms(1) by (auto simp: lists_def)
  obtain files' rnd' where f: "add_file (fst p) rnd (files(''requirements'' \<mapsto> requirements (ps @ [p]))) = (files', rnd')"
    by fastforce
  have "install_pkg [env, env2] (pkg_arg p) rnd d =
      (Some (ERR ''version not specified''), d(env \<mapsto> Dir files'))"
    unfolding install_turn [where d = d and env = env and files = files, OF assms(3) e] f
    using assms(2,5) install_again [OF assms(3), of "d(env \<mapsto> Dir files')" env2] by simp
  moreover have "lists env (d(env \<mapsto> Dir files')) (ps @ [p])"
    using assms(3,4) e(1) add_file_requirements [OF f] by (auto simp: lists_def nameable_def)
  ultimately show ?thesis by (auto simp: venv_main_def MAX_N_def and_then_def)
qed

text \<open>
  A long line. A package whose line has 256 bytes or more can be created and installed, but any
  removal from that environment then writes one byte past the end of \<open>buf\<close>.
\<close>

lemma venv_remove_overflow:
  assumes "d env = None" and "nameable p" and "MAX_N \<le> length (write_line (fst p) (snd p))"
  shows "fst (venv_main [Create, Env env, Install (pkg_arg p)] rnd d) = None \<and>
     fst (venv_main [Create, Env env, Install (pkg_arg p), Remove pkg] rnd d) = Some OutOfBounds"
proof -
  let ?d = "d(env \<mapsto> Dir [''requirements'' \<mapsto> []])"
  obtain files rnd' where f: "add_file (fst p) rnd ([''requirements'' \<mapsto> [], ''requirements'' \<mapsto> requirements ([] @ [p])]) = (files, rnd')"
    by fastforce
  have "install_pkg [env] (pkg_arg p) rnd ?d = (None, ?d(env \<mapsto> Dir files))"
    using install_turn [OF assms(2), of "[]" ?d env "[''requirements'' \<mapsto> []]" "[]"] f by simp
  moreover have "fst (remove_pkg [env] pkg (?d(env \<mapsto> Dir files))) = Some OutOfBounds"
    using add_file_requirements [OF f] remove_lines_overflow [OF _ assms(3), of pkg "[]"] assms(2)
    by (simp add: nameable_def)
  ultimately show ?thesis using assms(1) by (simp add: venv_main_def MAX_N_def and_then_def)
qed

subsection \<open>Witnesses\<close>

definition demo_dir :: dir where
  "demo_dir = [''env'' \<mapsto> Dir [''requirements'' \<mapsto> requirements [(''numpy'', ''2.0'')]], ''other'' \<mapsto> File []]"

lemma demo_lists: "lists ''env'' demo_dir [(''numpy'', ''2.0'')]"
  by (simp add: lists_def demo_dir_def pkg_ok_def write_line_def MAX_N_def cstr_def)

lemma demo_pkg:
  "nameable (''flask'', ''3.1'')" "length (write_line (fst (''flask'', ''3.1'')) (snd (''flask'', ''3.1''))) < MAX_N"
  by (simp_all add: nameable_def pkg_ok_def write_line_def MAX_N_def cstr_def)


lemma venv_install_remove_example:
  "fst (venv_main [Env ''env'', Install ''flask==3.1'', Remove ''flask''] (\<lambda>i. i) demo_dir) = None"
  using venv_install_remove [OF demo_lists _ demo_pkg, where rnd = "\<lambda>i. i"] by (simp add: demo_dir_def)

lemma venv_second_env_example:
  "\<exists>d'. venv_main [Env ''env'', Env ''other'', Install ''flask==3.1''] (\<lambda>i. i) demo_dir =
     (Some (ERR ''version not specified''), d') \<and> lists ''env'' d' [(''numpy'', ''2.0''), (''flask'', ''3.1'')]"
  using venv_second_env [OF demo_lists _ demo_pkg, of "''other''" "\<lambda>i. i"] by (auto simp: demo_dir_def)

lemma venv_remove_overflow_example:
  "fst (venv_main [Create, Env ''env'', Install (replicate 254 CHR ''x'' @ ''==1''), Remove ''y''] (\<lambda>i. i) Map.empty) =
     Some OutOfBounds"
proof -
  have "nameable (replicate 254 CHR ''x'', ''1'')" "MAX_N \<le> length (write_line (replicate 254 CHR ''x'') ''1'')"
    by (simp_all add: nameable_def pkg_ok_def write_line_def MAX_N_def cstr_id)
  with venv_remove_overflow [of Map.empty "''env''" "(replicate 254 CHR ''x'', ''1'')" "\<lambda>i. i" "''y''"] show ?thesis
    by simp
qed

end
