(* ===== verification/Telephone.thy ===== *)
theory Telephone
  imports Prelude
begin

section \<open>The telephone game\<close>

text \<open>
  \<open>sop2/lab02/zad03/zad03.c\<close>: the players are processes in a row, joined by message queues that
  hold two messages each. \<open>main\<close> sends the words of a sentence to the first player, every player
  garbles letters and passes the word on, and \<open>main\<close> collects the words from the last one. A
  message is what its receiver reads of it: the characters up to the first NUL. Message \<open>!\<close> ends
  the game.
\<close>

subsection \<open>The input\<close>

text \<open>The line without its newline is the name of a player unless \<open>start\<close> occurs in it. The sentence
  then stands behind the first quote, without its last character (the other quote); \<open>None\<close> stands
  for the null pointer where there is no quote.\<close>

definition sentence_of :: "string \<Rightarrow> string option" where
  "sentence_of line = map_option (\<lambda>i. butlast (drop (i + 1) line)) (strstr line [CHR 0x22])"

text \<open>The lines that \<open>fgets\<close> returns; \<open>None\<close> where the program crashes or never leaves the loop.\<close>

fun read_players :: "string list \<Rightarrow> string list \<Rightarrow> (string list \<times> string) option" where
  "read_players [] names = None"
| "read_players (l # input) names =
     (let line = butlast (cstr l) in
      if strstr line ''start'' \<noteq> None then map_option (\<lambda>sentence. (names, sentence)) (sentence_of line)
      else read_players input (names @ [line]))"

text \<open>\<open>strtok\<close> with a blank: the non-empty pieces between blanks.\<close>

fun strtok_words :: "string \<Rightarrow> string \<Rightarrow> string list" where
  "strtok_words word [] = (if word = [] then [] else [word])"
| "strtok_words word (c # s) =
     (if c = CHR '' '' then (if word = [] then strtok_words [] s else word # strtok_words [] s)
      else strtok_words (word @ [c]) s)"

subsection \<open>The processes\<close>

definition MQ_MSG_COUNT :: nat where "MQ_MSG_COUNT = 2"

text \<open>A player in front of \<open>mq_receive\<close>; with a garbled word in front of \<open>mq_send\<close>; about to pass on
  the end of the game; or gone.\<close>

datatype kid = Receive | Hold string | Bang | Gone

text \<open>\<open>main\<close> with the words it has still to send, the \<open>i\<close>-th round of the receiving loop, \<open>wait\<close>,
  and the end.\<close>

datatype caller = Sending "string list" | Receiving nat | Waiting | Ended

record phone =
  t_p :: int
  t_words :: nat
  t_kids :: "kid list"
  t_queues :: "string list list" \<comment> \<open>player \<open>i\<close> receives from queue \<open>i\<close> and sends to the next\<close>
  t_main :: caller
  t_received :: "string list" \<comment> \<open>all that \<open>main\<close> has received\<close>
  t_final :: string

definition phone_start :: "int \<Rightarrow> nat \<Rightarrow> string list \<Rightarrow> phone" where
  "phone_start p n ws =
     \<lparr>t_p = p, t_words = length ws, t_kids = replicate n Receive, t_queues = replicate (n + 1) [],
      t_main = Sending ws, t_received = [], t_final = []\<rparr>"

text \<open>The loop over the letters; the numbers are those \<open>rand\<close> returns for each of them.\<close>

fun garble :: "int \<Rightarrow> (nat \<times> nat) list \<Rightarrow> string \<Rightarrow> string" where
  "garble p ((r, r') # rs) (c # msg) =
     (if int (r mod 100) < p then char_of (97 + r' mod 26) else c) # garble p rs msg"
| "garble p rs msg = msg"

definition send_to :: "nat \<Rightarrow> string \<Rightarrow> phone \<Rightarrow> phone option" where
  "send_to k msg s =
     (if length (t_queues s ! k) < MQ_MSG_COUNT
      then Some (s\<lparr>t_queues := (t_queues s)[k := t_queues s ! k @ [msg]]\<rparr>) else None)"

definition set_kid :: "nat \<Rightarrow> kid \<Rightarrow> phone \<Rightarrow> phone" where
  "set_kid i c s = s\<lparr>t_kids := (t_kids s)[i := c]\<rparr>"

definition child_work :: "nat \<Rightarrow> (nat \<times> nat) list \<Rightarrow> phone \<Rightarrow> phone option" where
  "child_work i rs s =
     (case t_kids s ! i of
        Receive \<Rightarrow>
          (case t_queues s ! i of
             [] \<Rightarrow> None
           | msg # rest \<Rightarrow>
               (let s = s\<lparr>t_queues := (t_queues s)[i := rest]\<rparr> in
                Some (set_kid i (if take 1 msg = ''!'' then Bang else Hold (garble (t_p s) rs msg)) s)))
      | Hold msg \<Rightarrow> map_option (set_kid i Receive) (send_to (i + 1) msg s)
      | Bang \<Rightarrow> map_option (set_kid i Gone) (send_to (i + 1) ''!'' s)
      | Gone \<Rightarrow> None)"

definition main_work :: "phone \<Rightarrow> phone option" where
  "main_work s =
     (case t_main s of
        Sending (word # ws) \<Rightarrow> map_option (\<lambda>s. s\<lparr>t_main := Sending ws\<rparr>) (send_to 0 word s)
      | Sending [] \<Rightarrow> map_option (\<lambda>s. s\<lparr>t_main := Receiving 0\<rparr>) (send_to 0 ''!'' s)
      | Receiving i \<Rightarrow>
          (if i < t_words s
           then (case t_queues s ! length (t_kids s) of
                   [] \<Rightarrow> None
                 | msg # rest \<Rightarrow>
                     Some (s\<lparr>t_queues := (t_queues s)[length (t_kids s) := rest],
                             t_received := t_received s @ [msg],
                             t_final := (if i \<noteq> 0 then t_final s @ '' '' else t_final s) @ msg,
                             t_main := Receiving (i + 1)\<rparr>))
           else Some (s\<lparr>t_main := Waiting\<rparr>))
      | Waiting \<Rightarrow> if list_all (\<lambda>c. c = Gone) (t_kids s) then Some (s\<lparr>t_main := Ended\<rparr>) else None
      | Ended \<Rightarrow> None)"

inductive phone_step :: "phone \<Rightarrow> phone \<Rightarrow> bool" where
  kid: "i < length (t_kids s) \<Longrightarrow> child_work i rs s = Some t \<Longrightarrow> phone_step s t"
| caller: "main_work s = Some t \<Longrightarrow> phone_step s t"

subsection \<open>The messages on their way\<close>

text \<open>
  The places a message passes through, from those \<open>main\<close> has to send to those it has received;
  every step that moves a message moves the first one of a place to the end of the next place.
\<close>

fun held :: "kid \<Rightarrow> string list" where
  "held (Hold msg) = [msg]" | "held Bang = [''!'']" | "held _ = []"

fun cells :: "kid list \<Rightarrow> string list list \<Rightarrow> string list list" where
  "cells (c # cs) (q # qs) = q # held c # cells cs qs"
| "cells [] qs = qs"
| "cells cs [] = []"

fun to_send :: "caller \<Rightarrow> string list" where
  "to_send (Sending ws) = ws @ [''!'']" | "to_send _ = []"

definition places :: "phone \<Rightarrow> string list list" where
  "places s = to_send (t_main s) # cells (t_kids s) (t_queues s) @ [t_received s]"

definition flow :: "string list list \<Rightarrow> string list" where
  "flow L = concat (rev L)"

fun weight :: "string list list \<Rightarrow> nat" where
  "weight [] = 0"
| "weight (c # cs) = length c * length cs + weight cs"

lemma weight_append: "weight (L @ M) = weight L + length (concat L) * length M + weight M"
  by (induction L) (auto simp: algebra_simps)

text \<open>The move of a message \<open>m\<close>, changed into \<open>m'\<close>, from place \<open>j\<close> to the next one.\<close>

definition moved :: "nat \<Rightarrow> string \<Rightarrow> string list list \<Rightarrow> string list list \<Rightarrow> bool" where
  "moved j m' L M \<longleftrightarrow> Suc j < length L \<and> L ! j \<noteq> [] \<and> M = L[j := tl (L ! j), Suc j := L ! Suc j @ [m']]"

lemma moved_split:
  assumes "moved j m' L M"
  obtains A m c d B where "L = A @ (m # c) # d # B" "M = A @ c # (d @ [m']) # B" "length A = j" "m = hd (L ! j)"
proof -
  from assms obtain m c where c: "L ! j = m # c" "j < length L" "Suc j < length L"
    by (cases "L ! j") (auto simp: moved_def)
  have L: "L = take j L @ (m # c) # L ! Suc j # drop (Suc (Suc j)) L"
    using c by (metis Cons_nth_drop_Suc id_take_nth_drop)
  have M: "M = L[j := c, Suc j := L ! Suc j @ [m']]" using assms c by (simp add: moved_def)
  have "M = take j L @ c # (L ! Suc j @ [m']) # drop (Suc (Suc j)) L"
    unfolding M by (subst L) (use c in \<open>simp add: list_update_append\<close>)
  with L c show ?thesis
    by (intro that [of "take j L" m c "L ! Suc j" "drop (Suc (Suc j)) L"]) (assumption, simp_all)
qed

lemma moved_weight: "moved j m' L M \<Longrightarrow> Suc (weight M) = weight L"
proof (erule moved_split)
  fix A m c d B
  assume "L = A @ (m # c) # d # B" "M = A @ c # (d @ [m']) # B"
  then show "Suc (weight M) = weight L" by (simp add: weight_append algebra_simps)
qed

lemma moved_flow:
  assumes "moved j m' L M" "list_all2 R ws (flow L)" "\<And>w. R w (hd (L ! j)) \<Longrightarrow> w \<in> set ws \<Longrightarrow> R w m'"
  shows "list_all2 R ws (flow M)"
proof -
  obtain A m c d B where s: "L = A @ (m # c) # d # B" "M = A @ c # (d @ [m']) # B" "m = hd (L ! j)"
    using assms(1) by (rule moved_split) blast
  from assms(2) s(1) have "list_all2 R ws (concat (rev B) @ d @ [m] @ c @ concat (rev A))"
    by (simp add: flow_def)
  then obtain u w v where w: "ws = u @ w # v" "list_all2 R u (concat (rev B) @ d)" "R w m"
      "list_all2 R v (c @ concat (rev A))"
    by (auto simp: list_all2_append2 list_all2_Cons2) (metis append.assoc list_all2_appendI)
  with assms(3) s(3) have "R w m'" by simp
  with w have "list_all2 R (u @ [w] @ v) ((concat (rev B) @ d) @ [m'] @ (c @ concat (rev A)))"
    by (intro list_all2_appendI) auto
  with w(1) s(2) show ?thesis by (simp add: flow_def)
qed


lemma flow_split: "j < length L \<Longrightarrow> flow L = concat (rev (drop (Suc j) L)) @ L ! j @ concat (rev (take j L))"
  by (subst id_take_nth_drop [of j L]) (simp_all add: flow_def)

lemma concat_rev_Nil: "concat (rev L) = [] \<longleftrightarrow> concat L = []"
  by auto

lemma moved_upstream:
  assumes "moved j m' L M"
  shows "k \<noteq> Suc j \<Longrightarrow> concat (take k M) = [] \<longleftrightarrow> concat (take k L) = []"
    and "concat (take (Suc j) M) = [] \<longleftrightarrow> concat (take j L) = [] \<and> tl (L ! j) = []"
    and "concat (take (Suc j) L) \<noteq> []"
proof -
  obtain A m c d B where s: "L = A @ (m # c) # d # B" "M = A @ c # (d @ [m']) # B" "length A = j"
    using assms by (rule moved_split) blast
  show "concat (take (Suc j) M) = [] \<longleftrightarrow> concat (take j L) = [] \<and> tl (L ! j) = []"
    "concat (take (Suc j) L) \<noteq> []"
    using s by auto
  show "concat (take k M) = [] \<longleftrightarrow> concat (take k L) = []" if "k \<noteq> Suc j"
  proof (cases "k \<le> j")
    case True
    with s show ?thesis by simp
  next
    case False
    with that obtain e where "k = Suc (Suc (j + e))" by (metis less_imp_Suc_add not_less Suc_lessI add_Suc)
    with s show ?thesis by (auto simp flip: s(3))
  qed
qed

subsection \<open>The places of a state\<close>

lemma length_cells: "length qs = length cs + 1 \<Longrightarrow> length (cells cs qs) = 2 * length cs + 1"
  by (induction cs qs rule: cells.induct) auto

lemma cells_nth:
  "length qs = length cs + 1 \<Longrightarrow> i < length cs \<Longrightarrow> cells cs qs ! (2 * i) = qs ! i"
  "length qs = length cs + 1 \<Longrightarrow> i < length cs \<Longrightarrow> cells cs qs ! Suc (2 * i) = held (cs ! i)"
  "length qs = length cs + 1 \<Longrightarrow> cells cs qs ! (2 * length cs) = qs ! length cs"
proof (induction cs qs arbitrary: i rule: cells.induct)
  case (1 c cs q qs)
  {
    case 1
    with "1.IH"(1) show ?case by (cases i) auto
  next
    case 2
    with "1.IH"(2) show ?case by (cases i) auto
  next
    case 3
    with "1.IH"(3) show ?case by simp
  }
qed auto

lemma cells_update:
  "length qs = length cs + 1 \<Longrightarrow> k \<le> length cs \<Longrightarrow> cells cs (qs[k := q]) = (cells cs qs)[2 * k := q]"
  "length qs = length cs + 1 \<Longrightarrow> i < length cs \<Longrightarrow> cells (cs[i := c]) qs = (cells cs qs)[Suc (2 * i) := held c]"
proof (induction cs qs arbitrary: i k rule: cells.induct)
  case (1 c' cs q' qs)
  {
    case 1
    with "1.IH"(1) show ?case by (cases k) auto
  next
    case 2
    with "1.IH"(2) show ?case by (cases k) auto
  }
next
  case (2 qs)
  {
    case 1
    then show ?case by (cases qs) auto
  next
    case 2
    then show ?case by simp
  }
qed auto

definition shape :: "nat \<Rightarrow> phone \<Rightarrow> bool" where
  "shape n s \<longleftrightarrow> length (t_kids s) = n \<and> length (t_queues s) = n + 1"

lemma places_nth:
  assumes "shape n s"
  shows "length (places s) = 2 * n + 3" "places s ! 0 = to_send (t_main s)"
    "k \<le> n \<Longrightarrow> places s ! Suc (2 * k) = t_queues s ! k"
    "i < n \<Longrightarrow> places s ! Suc (Suc (2 * i)) = held (t_kids s ! i)"
    "places s ! Suc (Suc (2 * n)) = t_received s"
proof -
  let ?C = "cells (t_kids s) (t_queues s)"
  have len: "length ?C = 2 * n + 1" using assms length_cells [of "t_queues s" "t_kids s"] by (simp add: shape_def)
  note c = cells_nth [of "t_queues s" "t_kids s"] and sh = assms [unfolded shape_def]
  show "length (places s) = 2 * n + 3" "places s ! 0 = to_send (t_main s)"
    "places s ! Suc (Suc (2 * n)) = t_received s"
    using len by (simp_all add: places_def nth_append)
  show "places s ! Suc (2 * k) = t_queues s ! k" if "k \<le> n"
    using that len c(1) [of k] c(3) sh by (cases "k = n") (simp_all add: places_def nth_append)
  show "places s ! Suc (Suc (2 * i)) = held (t_kids s ! i)" if "i < n"
    using that len c(2) [of i] sh by (simp add: places_def nth_append)
qed

text \<open>Updates of a state as updates of its places.\<close>

lemma places_update:
  assumes "shape n s"
  shows "k \<le> n \<Longrightarrow> places (s\<lparr>t_queues := (t_queues s)[k := q]\<rparr>) = (places s)[Suc (2 * k) := q]"
    "i < n \<Longrightarrow> places (set_kid i c s) = (places s)[Suc (Suc (2 * i)) := held c]"
    "places (s\<lparr>t_main := m\<rparr>) = (places s)[0 := to_send m]"
    "places (s\<lparr>t_received := ms\<rparr>) = (places s)[Suc (Suc (2 * n)) := ms]"
proof -
  let ?C = "cells (t_kids s) (t_queues s)"
  have len: "length ?C = 2 * n + 1" using assms length_cells [of "t_queues s" "t_kids s"] by (simp add: shape_def)
  note sh = assms [unfolded shape_def]
  show "places (s\<lparr>t_queues := (t_queues s)[k := q]\<rparr>) = (places s)[Suc (2 * k) := q]" if "k \<le> n"
    using that len cells_update(1) [of "t_queues s" "t_kids s" k q] sh by (simp add: places_def list_update_append)
  show "places (set_kid i c s) = (places s)[Suc (Suc (2 * i)) := held c]" if "i < n"
    using that len cells_update(2) [of "t_queues s" "t_kids s" i c] sh
    by (simp add: places_def set_kid_def list_update_append)
  show "places (s\<lparr>t_main := m\<rparr>) = (places s)[0 := to_send m]" by (simp add: places_def)
  show "places (s\<lparr>t_received := ms\<rparr>) = (places s)[Suc (Suc (2 * n)) := ms]"
    using len by (simp add: places_def list_update_append)
qed

lemma shape_update [simp]:
  "shape n (s\<lparr>t_queues := (t_queues s)[k := q]\<rparr>) = shape n s" "shape n (set_kid i c s) = shape n s"
  "shape n (s\<lparr>t_main := m\<rparr>) = shape n s" "shape n (s\<lparr>t_received := ms\<rparr>) = shape n s"
  "shape n (s\<lparr>t_final := f\<rparr>) = shape n s"
  by (simp_all add: shape_def set_kid_def)


subsection \<open>What happens to a word\<close>

abbreviation letters :: string where "letters \<equiv> ''abcdefghijklmnopqrstuvwxyz''"

definition garbled :: "int \<Rightarrow> string \<Rightarrow> string \<Rightarrow> bool" where
  "garbled p w m \<longleftrightarrow> list_all2 (\<lambda>c d. d = c \<or> 0 < p \<and> d \<in> set letters) w m"

definition arrives :: "int \<Rightarrow> string \<Rightarrow> string \<Rightarrow> bool" where
  "arrives p w m \<longleftrightarrow> (if w = ''!'' then m = ''!'' else garbled p w m)"

definition plain :: "string \<Rightarrow> bool" where
  "plain w \<longleftrightarrow> take 1 w \<noteq> ''!''"

lemma random_lower_case: "char_of (97 + (n :: nat) mod 26) \<in> set letters"
proof -
  have "list_all (\<lambda>k. char_of (97 + k) \<in> set letters) [0..<26]" by code_simp
  moreover have "n mod 26 \<in> set [0..<26]" by simp
  ultimately show ?thesis unfolding list_all_iff by (rule bspec)
qed

lemma garble_garbled: "garbled p w m \<Longrightarrow> garbled p w (garble p rs m)"
proof (induction p rs m arbitrary: w rule: garble.induct)
  case (1 p r r' rs c msg)
  from "1.prems" obtain b v where w: "w = b # v" "c = b \<or> 0 < p \<and> c \<in> set letters" "garbled p v msg"
    unfolding garbled_def list_all2_Cons2 by blast
  have "int (r mod 100) < p \<Longrightarrow> 0 < p" by (rule le_less_trans [of 0 "int (r mod 100)"]) simp_all
  then show ?case
    using w(1,2) "1.IH" [OF w(3)] random_lower_case [of r'] by (simp add: garbled_def)
qed simp_all

lemma garbled_plain: "garbled p w m \<Longrightarrow> plain w \<Longrightarrow> plain m"
  by (cases w; cases m) (auto simp: garbled_def plain_def)


lemma not_plain_bang: "\<not> plain ''!''"
  by (simp add: plain_def)

lemma arrives_plain: "arrives p w m \<Longrightarrow> plain w \<Longrightarrow> plain m"
  using garbled_plain [of p w m] not_plain_bang by (auto simp: arrives_def split: if_splits)

lemma bang_last:
  assumes "list_all2 (arrives p) (ws @ [''!'']) (xs @ m # ys)" and "list_all plain ws"
  shows "ys = [] \<longleftrightarrow> \<not> plain m" and "ys = [] \<Longrightarrow> m = ''!''"
proof -
  show bang: "m = ''!''" if "ys = []"
    using assms(1) that by (auto simp: list_all2_append2 list_all2_Cons2 arrives_def append_eq_append_conv2 append_eq_Cons_conv)
  show "ys = [] \<longleftrightarrow> \<not> plain m"
  proof
    assume "\<not> plain m"
    show "ys = []"
    proof (rule ccontr)
      assume "ys \<noteq> []"
      have len: "length ws = length xs + length ys" using list_all2_lengthD [OF assms(1)] by simp
      with \<open>ys \<noteq> []\<close> have "length xs < length ws" by simp
      then have "arrives p (ws ! length xs) m" "plain (ws ! length xs)"
        using list_all2_nthD [OF assms(1), of "length xs"] assms(2) by (simp_all add: nth_append list_all_length)
      with \<open>\<not> plain m\<close> show False using arrives_plain by blast
    qed
  qed (use bang not_plain_bang in simp)
qed

subsection \<open>The invariant\<close>

definition join :: "string list \<Rightarrow> string" where
  "join ms = tl (concat (map (\<lambda>m. CHR '' '' # m) ms))"

lemma join_snoc: "join (ms @ [m]) = (if ms = [] then m else join ms @ '' '' @ m)"
  by (cases ms) (simp_all add: join_def)

definition main_ok :: "nat \<Rightarrow> phone \<Rightarrow> bool" where
  "main_ok words s \<longleftrightarrow>
     (case t_main s of
        Sending _ \<Rightarrow> t_received s = []
      | Receiving i \<Rightarrow> length (t_received s) = i \<and> i \<le> words
      | Waiting \<Rightarrow> length (t_received s) = words
      | Ended \<Rightarrow> length (t_received s) = words \<and> list_all (\<lambda>c. c = Gone) (t_kids s))"

definition phone_inv :: "int \<Rightarrow> nat \<Rightarrow> string list \<Rightarrow> phone \<Rightarrow> bool" where
  "phone_inv p n ws s \<longleftrightarrow> shape n s \<and> t_p s = p \<and> t_words s = length ws \<and> list_all plain ws \<and>
     list_all2 (arrives p) (ws @ [''!'']) (flow (places s)) \<and>
     (\<forall>k \<le> n. length (t_queues s ! k) \<le> MQ_MSG_COUNT) \<and>
     (\<forall>i < n. t_kids s ! i = Gone \<longleftrightarrow> concat (take (2 * i + 3) (places s)) = []) \<and>
     (\<forall>i < n. \<forall>m. t_kids s ! i = Hold m \<longrightarrow> plain m) \<and>
     t_final s = join (t_received s) \<and> main_ok (length ws) s"

lemma send_to_Some:
  "send_to k m s = Some t \<longleftrightarrow>
     length (t_queues s ! k) < MQ_MSG_COUNT \<and> t = s\<lparr>t_queues := (t_queues s)[k := t_queues s ! k @ [m]]\<rparr>"
  by (auto simp: send_to_def)


lemma places_main_same: "to_send m = to_send (t_main s) \<Longrightarrow> places (s\<lparr>t_main := m\<rparr>) = places s"
  by (simp add: places_def)

lemma places_t_final [simp]: "places (s\<lparr>t_final := f\<rparr>) = places s"
  by (simp add: places_def)

lemma garble_arrives: "plain m \<Longrightarrow> arrives p w m \<Longrightarrow> arrives p w (garble p rs m)"
  using garble_garbled not_plain_bang by (auto simp: arrives_def)

lemma garble_plain: "plain m \<Longrightarrow> plain (garble p rs m)"
proof -
  have "garbled p m m" by (simp add: garbled_def list_all2_same)
  then show "plain m \<Longrightarrow> plain (garble p rs m)" using garble_garbled garbled_plain by blast
qed

text \<open>Player \<open>i\<close> takes a message.\<close>

lemma inv_receive:
  assumes "phone_inv p n ws s" "i < n" "t_kids s ! i = Receive" "t_queues s ! i = msg # rest"
    and c: "c = (if take 1 msg = ''!'' then Bang else Hold (garble p rs msg))"
    and t: "t = set_kid i c (s\<lparr>t_queues := (t_queues s)[i := rest]\<rparr>)"
  shows "phone_inv p n ws t \<and> moved (Suc (2 * i)) (hd (held c)) (places s) (places t)"
proof -
  note inv = assms(1) [unfolded phone_inv_def]
  have sh: "shape n s" using inv by simp
  have held: "held c = [hd (held c)]" using c by simp
  have pl: "places t = (places s)[Suc (2 * i) := rest, Suc (Suc (2 * i)) := held c]"
    using sh assms(2) by (simp add: t places_update)
  have mv: "moved (Suc (2 * i)) (hd (held c)) (places s) (places t)"
    using sh assms(2,3,4) held by (simp add: moved_def pl places_nth)
  have hd: "hd (places s ! Suc (2 * i)) = msg" using sh assms(2,4) by (simp add: places_nth)
  have flow: "list_all2 (arrives p) (ws @ [''!'']) (flow (places t))"
  proof (rule moved_flow [OF mv])
    fix w assume "arrives p w (hd (places s ! Suc (2 * i)))" "w \<in> set (ws @ [''!''])"
    with inv hd have w: "arrives p w msg" "w = ''!'' \<or> plain w" by (auto simp: list_all_iff)
    show "arrives p w (hd (held c))"
    proof (cases "plain msg")
      case True
      with w c garble_arrives show ?thesis by (simp add: plain_def)
    next
      case False
      with w arrives_plain have "w = ''!''" by blast
      with False c show ?thesis by (simp add: plain_def arrives_def)
    qed
  qed (use inv in simp)
  have gone: "t_kids t ! k = Gone \<longleftrightarrow> concat (take (2 * k + 3) (places t)) = []" if "k < n" for k
  proof -
    have "2 * k + 3 \<noteq> Suc (Suc (2 * i))" by presburger
    moreover have "t_kids t ! k = Gone \<longleftrightarrow> t_kids s ! k = Gone"
      using assms(2,3) sh c by (auto simp add: t set_kid_def shape_def nth_list_update)
    ultimately show ?thesis using moved_upstream(1) [OF mv, of "2 * k + 3"] inv that by simp
  qed
  have "main_ok (length ws) t"
    using inv assms(2,3) sh by (auto simp: main_ok_def t set_kid_def shape_def list_all_length split: caller.splits)
  moreover have "plain m" if "k < n" "t_kids t ! k = Hold m" for k m
    using that inv assms(2) sh c garble_plain [of msg p rs]
    by (auto simp: t set_kid_def shape_def nth_list_update plain_def split: if_splits)
  moreover have "length (t_queues t ! k) \<le> MQ_MSG_COUNT" if "k \<le> n" for k
    using inv that assms(2,4) sh by (auto simp: t set_kid_def shape_def nth_list_update dest: spec [of _ k])
  ultimately show ?thesis
    using inv flow gone mv by (simp add: phone_inv_def t) (simp add: set_kid_def)
qed


text \<open>Player \<open>i\<close> passes on what it holds; it goes when that was the end of the game.\<close>

lemma inv_pass:
  assumes "phone_inv p n ws s" "i < n" "held (t_kids s ! i) = [msg]"
    and "length (t_queues s ! (i + 1)) < MQ_MSG_COUNT"
    and t: "t = set_kid i (if t_kids s ! i = Bang then Gone else Receive)
          (s\<lparr>t_queues := (t_queues s)[i + 1 := t_queues s ! (i + 1) @ [msg]]\<rparr>)"
  shows "phone_inv p n ws t \<and> moved (Suc (Suc (2 * i))) msg (places s) (places t)"
proof -
  note inv = assms(1) [unfolded phone_inv_def]
  have sh: "shape n s" using inv by simp
  let ?j = "Suc (Suc (2 * i))"
  define c where "c = (if t_kids s ! i = Bang then Gone else Receive)"
  have "held c = []" by (simp add: c_def)
  then have pl: "places t = (places s)[Suc (2 * (i + 1)) := t_queues s ! (i + 1) @ [msg], ?j := []]"
    using sh assms(2) by (simp add: t places_update flip: c_def)
  have at: "places s ! ?j = [msg]" "places s ! Suc ?j = t_queues s ! (i + 1)" "Suc ?j < length (places s)"
    using sh assms(2,3) places_nth(3) [OF sh, of "i + 1"] by (simp_all add: places_nth)
  have mv: "moved ?j msg (places s) (places t)"
    using at by (simp add: moved_def pl list_update_swap)
  have flow: "list_all2 (arrives p) (ws @ [''!'']) (flow (places t))"
    by (rule moved_flow [OF mv]) (use inv at in simp_all)
  have "flow (places s) = concat (rev (drop (Suc ?j) (places s))) @ msg # concat (rev (take ?j (places s)))"
    using flow_split [of ?j "places s"] at by simp
  then have last: "concat (rev (take ?j (places s))) = [] \<longleftrightarrow> \<not> plain msg"
    using bang_last(1) inv by metis
  have c: "c = Gone \<longleftrightarrow> \<not> plain msg"
    using assms(2,3) inv not_plain_bang by (cases "t_kids s ! i") (auto simp: c_def)
  have gone: "t_kids t ! k = Gone \<longleftrightarrow> concat (take (2 * k + 3) (places t)) = []" if "k < n" for k
  proof (cases "k = i")
    case True
    have "t_kids t ! i = c" using sh assms(2) by (simp add: t set_kid_def shape_def c_def)
    then show ?thesis
      using True c last moved_upstream(2) [OF mv] at by (simp add: concat_rev_Nil numeral_3_eq_3)
  next
    case False
    then have "2 * k + 3 \<noteq> Suc ?j" by presburger
    with False show ?thesis
      using moved_upstream(1) [OF mv, of "2 * k + 3"] inv that by (simp add: t set_kid_def)
  qed
  have "main_ok (length ws) t"
    using inv assms(2,3) sh by (auto simp: main_ok_def t set_kid_def shape_def list_all_length nth_list_update
        split: caller.splits)
  moreover have "plain m" if "k < n" "t_kids t ! k = Hold m" for k m
    using that inv assms(2) sh by (auto simp: t set_kid_def shape_def nth_list_update split: if_splits)
  moreover have "length (t_queues t ! k) \<le> MQ_MSG_COUNT" if "k \<le> n" for k
    using inv that assms(2,4) sh by (auto simp: t set_kid_def shape_def nth_list_update)
  ultimately show ?thesis
    using inv flow gone mv by (simp add: phone_inv_def t) (simp add: set_kid_def)
qed

text \<open>\<open>main\<close> sends a message.\<close>

lemma inv_main_send:
  assumes "phone_inv p n ws s" "to_send (t_main s) = msg # to_send m"
    and "length (t_queues s ! 0) < MQ_MSG_COUNT"
    and m: "case m of Sending ws' \<Rightarrow> True | Receiving i \<Rightarrow> i = 0 | _ \<Rightarrow> False"
    and t: "t = s\<lparr>t_queues := (t_queues s)[0 := t_queues s ! 0 @ [msg]], t_main := m\<rparr>"
  shows "phone_inv p n ws t \<and> moved 0 msg (places s) (places t)"
proof -
  note inv = assms(1) [unfolded phone_inv_def]
  have sh: "shape n s" using inv by simp
  have pl: "places t = (places s)[Suc 0 := t_queues s ! 0 @ [msg], 0 := to_send m]"
    using sh places_update(1) [OF sh, of 0] by (simp add: t places_update)
  have at: "places s ! 0 = msg # to_send m" "places s ! Suc 0 = t_queues s ! 0" "Suc 0 < length (places s)"
    using sh assms(2) places_nth(3) [OF sh, of 0] by (simp_all add: places_nth)
  have mv: "moved 0 msg (places s) (places t)"
    using at by (simp add: moved_def pl list_update_swap)
  have flow: "list_all2 (arrives p) (ws @ [''!'']) (flow (places t))"
    by (rule moved_flow [OF mv]) (use inv at in simp_all)
  have gone: "t_kids t ! k = Gone \<longleftrightarrow> concat (take (2 * k + 3) (places t)) = []" if "k < n" for k
    using moved_upstream(1) [OF mv, of "2 * k + 3"] inv that by (simp add: t)
  have "t_received s = []" using inv assms(2) by (auto simp: main_ok_def split: caller.splits)
  then have "main_ok (length ws) t" using m by (auto simp: main_ok_def t split: caller.splits)
  moreover have "length (t_queues t ! k) \<le> MQ_MSG_COUNT" if "k \<le> n" for k
    using inv that assms(3) sh by (auto simp: t shape_def nth_list_update)
  ultimately show ?thesis
    using inv flow gone mv by (simp add: phone_inv_def t)
qed

text \<open>\<open>main\<close> receives a message.\<close>

lemma inv_main_receive:
  assumes "phone_inv p n ws s" "t_main s = Receiving i" "i < length ws" "t_queues s ! n = msg # rest"
    and t: "t = s\<lparr>t_queues := (t_queues s)[n := rest], t_received := t_received s @ [msg],
        t_final := (if i \<noteq> 0 then t_final s @ '' '' else t_final s) @ msg, t_main := Receiving (i + 1)\<rparr>"
  shows "phone_inv p n ws t \<and> moved (Suc (2 * n)) msg (places s) (places t)"
proof -
  note inv = assms(1) [unfolded phone_inv_def]
  have sh: "shape n s" using inv by simp
  let ?j = "Suc (2 * n)"
  have len: "length (t_received s) = i" using inv assms(2) by (simp add: main_ok_def)
  let ?u = "s\<lparr>t_queues := (t_queues s)[n := rest], t_received := t_received s @ [msg]\<rparr>"
  have "places t = places ?u"
    using places_main_same [of "Receiving (i + 1)"] assms(2) by (simp add: t places_def)
  also have "\<dots> = (places s)[?j := rest, Suc ?j := t_received s @ [msg]]"
    using sh places_update(1) [OF sh, of n] places_update(4) [of n "s\<lparr>t_queues := (t_queues s)[n := rest]\<rparr>"] by simp
  finally have pl: "places t = (places s)[?j := rest, Suc ?j := t_received s @ [msg]]" .
  have at: "places s ! ?j = msg # rest" "places s ! Suc ?j = t_received s" "Suc ?j < length (places s)"
    using sh assms(4) by (simp_all add: places_nth)
  have mv: "moved ?j msg (places s) (places t)"
    using at by (simp add: moved_def pl)
  have flow: "list_all2 (arrives p) (ws @ [''!'']) (flow (places t))"
    by (rule moved_flow [OF mv]) (use inv at in simp_all)
  have gone: "t_kids t ! k = Gone \<longleftrightarrow> concat (take (2 * k + 3) (places t)) = []" if "k < n" for k
  proof -
    have "2 * k + 3 \<noteq> Suc ?j" by presburger
    then show ?thesis using moved_upstream(1) [OF mv, of "2 * k + 3"] inv that by (simp add: t)
  qed
  have "main_ok (length ws) t" using len assms(3) by (simp add: main_ok_def t)
  moreover have "t_final t = join (t_received t)"
    using inv len by (auto simp: t join_snoc join_def)
  moreover have "length (t_queues t ! k) \<le> MQ_MSG_COUNT" if "k \<le> n" for k
    using inv that assms(4) sh by (auto simp: t shape_def nth_list_update dest: spec [of _ n])
  ultimately show ?thesis
    using inv flow gone mv by (simp add: phone_inv_def t)
qed


text \<open>The rank that every step lowers.\<close>

definition main_rank :: "caller \<Rightarrow> nat" where
  "main_rank m = (case m of Sending _ \<Rightarrow> 2 | Receiving _ \<Rightarrow> 2 | Waiting \<Rightarrow> 1 | Ended \<Rightarrow> 0)"

definition phone_rank :: "phone \<Rightarrow> nat" where
  "phone_rank s = weight (places s) + main_rank (t_main s)"

lemma moved_rank: "moved j m L M \<Longrightarrow> L = places s \<Longrightarrow> M = places t \<Longrightarrow> main_rank (t_main t) \<le> main_rank (t_main s) \<Longrightarrow>
   phone_rank t < phone_rank s"
  using moved_weight [of j m L M] by (simp add: phone_rank_def)

lemma phone_kid_ok:
  assumes inv: "phone_inv p n ws s" and i: "i < n" and step: "child_work i rs s = Some t"
  shows "phone_inv p n ws t \<and> phone_rank t < phone_rank s \<and> t_main t = t_main s"
proof -
  have p: "t_p s = p" using inv by (simp add: phone_inv_def)
  show ?thesis
  proof (cases "t_kids s ! i")
    case Receive
    with step p obtain msg rest where m: "t_queues s ! i = msg # rest"
      "t = set_kid i (if take 1 msg = ''!'' then Bang else Hold (garble p rs msg)) (s\<lparr>t_queues := (t_queues s)[i := rest]\<rparr>)"
      by (auto simp: child_work_def Let_def split: list.splits)
    from inv_receive [OF inv i Receive m(1) refl m(2)] show ?thesis
      by (auto intro: moved_rank simp: m(2) set_kid_def)
  next
    case (Hold msg)
    with step have m: "length (t_queues s ! (i + 1)) < MQ_MSG_COUNT"
      "t = set_kid i (if t_kids s ! i = Bang then Gone else Receive)
          (s\<lparr>t_queues := (t_queues s)[i + 1 := t_queues s ! (i + 1) @ [msg]]\<rparr>)"
      by (auto simp: child_work_def send_to_Some)
    from inv_pass [OF inv i _ m] Hold show ?thesis
      by (auto intro: moved_rank simp: m(2) set_kid_def)
  next
    case Bang
    with step have m: "length (t_queues s ! (i + 1)) < MQ_MSG_COUNT"
      "t = set_kid i (if t_kids s ! i = Bang then Gone else Receive)
          (s\<lparr>t_queues := (t_queues s)[i + 1 := t_queues s ! (i + 1) @ [''!'']]\<rparr>)"
      by (auto simp: child_work_def send_to_Some)
    from inv_pass [OF inv i _ m] Bang show ?thesis
      by (auto intro: moved_rank simp: m(2) set_kid_def)
  next
    case Gone
    with step show ?thesis by (simp add: child_work_def)
  qed
qed

lemma phone_main_ok:
  assumes inv: "phone_inv p n ws s" and step: "main_work s = Some t"
  shows "phone_inv p n ws t \<and> phone_rank t < phone_rank s"
proof -
  have n: "length (t_kids s) = n" "t_words s = length ws" using inv by (simp_all add: phone_inv_def shape_def)
  show ?thesis
  proof (cases "t_main s")
    case (Sending ws')
    obtain msg m where m: "to_send (t_main s) = msg # to_send m" "length (t_queues s ! 0) < MQ_MSG_COUNT"
      "case m of Sending ws' \<Rightarrow> True | Receiving i \<Rightarrow> i = 0 | _ \<Rightarrow> False"
      "t = s\<lparr>t_queues := (t_queues s)[0 := t_queues s ! 0 @ [msg]], t_main := m\<rparr>"
    proof (cases ws')
      case Nil
      with Sending step that [of "''!''" "Receiving 0"] show ?thesis by (auto simp: main_work_def send_to_Some)
    next
      case (Cons w ws'')
      with Sending step that [of w "Sending ws''"] show ?thesis by (auto simp: main_work_def send_to_Some)
    qed
    from m(3) have "main_rank (t_main t) \<le> main_rank (t_main s)"
      by (auto simp: m(4) Sending main_rank_def split: caller.splits)
    with inv_main_send [OF inv m] show ?thesis by (auto intro: moved_rank)
  next
    case (Receiving i)
    show ?thesis
    proof (cases "i < length ws")
      case True
      with Receiving step n obtain msg rest where m: "t_queues s ! n = msg # rest"
        "t = s\<lparr>t_queues := (t_queues s)[n := rest], t_received := t_received s @ [msg],
           t_final := (if i \<noteq> 0 then t_final s @ '' '' else t_final s) @ msg, t_main := Receiving (i + 1)\<rparr>"
        by (auto simp: main_work_def split: list.splits)
      have "main_rank (t_main t) \<le> main_rank (t_main s)" by (simp add: m(2) Receiving main_rank_def)
      with inv_main_receive [OF inv Receiving True m] show ?thesis by (auto intro: moved_rank)
    next
      case False
      with Receiving step n have t: "t = s\<lparr>t_main := Waiting\<rparr>" by (simp add: main_work_def)
      have "places t = places s" using Receiving places_main_same [of Waiting s] by (simp add: t)
      then show ?thesis using inv Receiving False
        by (simp add: phone_inv_def phone_rank_def main_rank_def main_ok_def t shape_def)
    qed
  next
    case Waiting
    with step have t: "t = s\<lparr>t_main := Ended\<rparr>" "list_all (\<lambda>c. c = Gone) (t_kids s)"
      by (auto simp: main_work_def split: if_splits)
    have "places t = places s" using Waiting places_main_same [of Ended s] by (simp add: t)
    then show ?thesis using inv Waiting t(2)
      by (simp add: phone_inv_def phone_rank_def main_rank_def main_ok_def t(1) shape_def)
  next
    case Ended
    with step show ?thesis by (simp add: main_work_def)
  qed
qed

lemma phone_step_ok: "phone_inv p n ws s \<Longrightarrow> phone_step s t \<Longrightarrow> phone_inv p n ws t \<and> phone_rank t < phone_rank s"
proof (erule phone_step.cases)
  fix i s' rs t'
  assume "phone_inv p n ws s" "s = s'" "t = t'" "i < length (t_kids s')" "child_work i rs s' = Some t'"
  moreover from this have "length (t_kids s') = n" by (simp add: phone_inv_def shape_def)
  ultimately show ?thesis using phone_kid_ok by blast
qed (use phone_main_ok in blast)

lemma phone_inv_start: "list_all plain ws \<Longrightarrow> phone_inv p n ws (phone_start p n ws)"
proof -
  have c: "cells (replicate n Receive) (replicate (Suc n) []) = replicate (2 * n + 1) []"
    by (induction n) simp_all
  then have pl: "places (phone_start p n ws) = (ws @ [''!'']) # replicate (2 * n + 2) []"
    by (simp add: places_def phone_start_def replicate_append_same)
  have fl: "flow (places (phone_start p n ws)) = ws @ [''!'']"
    by (simp add: pl flow_def)
  have "list_all2 (arrives p) ws ws" by (simp add: list_all2_same arrives_def garbled_def)
  then have "list_all2 (arrives p) (ws @ [''!'']) (flow (places (phone_start p n ws)))"
    by (simp add: fl list_all2_appendI arrives_def)
  moreover have "concat (take (2 * i + 3) (places (phone_start p n ws))) \<noteq> []" for i
    by (simp add: pl numeral_3_eq_3)
  moreover have "t_queues (phone_start p n ws) ! k = []" if "k \<le> n" for k
    using that nth_replicate [of k "n + 1" "[]"] by (simp add: phone_start_def del: replicate.simps)
  ultimately show "list_all plain ws \<Longrightarrow> ?thesis"
    unfolding phone_inv_def by (auto simp: shape_def main_ok_def join_def) (auto simp: phone_start_def)
qed


interpretation phone_sys: terminating_system
  "\<lambda>s. s = phone_start p n ws \<and> list_all plain ws" phone_step "phone_inv p n ws" phone_rank for p n ws
  by unfold_locales (auto simp: phone_step_ok phone_inv_start)

subsection \<open>Enough room\<close>

lemma length_concat_cells:
  "length qs = length cs + 1 \<Longrightarrow> length (concat (cells cs qs)) = sum_list (map length qs) + sum_list (map (length \<circ> held) cs)"
proof (induction cs qs rule: cells.induct)
  case (2 qs)
  then show ?case by (cases qs) auto
qed auto

lemma phone_count:
  assumes "phone_inv p n ws s"
  shows "length ws + 1 = length (to_send (t_main s)) + sum_list (map length (t_queues s)) +
     sum_list (map (length \<circ> held) (t_kids s)) + length (t_received s)"
proof -
  note inv = assms [unfolded phone_inv_def]
  have "length ws + 1 = length (concat (places s))"
    using inv list_all2_lengthD [of "arrives p" "ws @ [''!'']" "flow (places s)"]
    by (simp add: flow_def length_concat rev_map flip: sum_list_rev [of "map length (places s)"])
  then show ?thesis using inv length_concat_cells [of "t_queues s" "t_kids s"] by (simp add: places_def shape_def)
qed

lemma held_1: "length (held c) \<le> 1"
  by (cases c) auto

lemma room_bounds:
  assumes "phone_inv p n ws s"
  shows "sum_list (map (length \<circ> held) (t_kids s)) \<le> n"
    and "length (t_queues s ! 0) + 2 * n \<ge> sum_list (map length (t_queues s))"
proof -
  note inv = assms [unfolded phone_inv_def shape_def]
  have "sum_list (map (length \<circ> held) cs) \<le> length cs" for cs
  proof (induction cs)
    case (Cons c cs)
    then show ?case using held_1 [of c] by simp
  qed simp
  with inv show "sum_list (map (length \<circ> held) (t_kids s)) \<le> n" by metis
  obtain q qs where qs: "t_queues s = q # qs" "length qs = n" using inv by (cases "t_queues s") auto
  have "\<forall>x \<in> set qs. length x \<le> 2"
  proof
    fix x assume "x \<in> set qs"
    then obtain k where "k < n" "x = t_queues s ! Suc k" using qs by (auto simp: in_set_conv_nth)
    with inv show "length x \<le> 2" by (auto simp: MQ_MSG_COUNT_def)
  qed
  then have "sum_list (map length qs) \<le> 2 * length qs" by (induction qs) auto
  with qs show "length (t_queues s ! 0) + 2 * n \<ge> sum_list (map length (t_queues s))" by simp
qed

text \<open>What it means for player \<open>i\<close> that it cannot go on.\<close>

lemma stuck_kid:
  assumes "phone_inv p n ws s" "\<not> (\<exists>t. phone_step s t)" "i < n"
  shows "t_queues s ! i = [] \<or> length (held (t_kids s ! i)) = 1"
    and "held (t_kids s ! i) \<noteq> [] \<Longrightarrow> length (t_queues s ! Suc i) = 2"
proof -
  note inv = assms(1) [unfolded phone_inv_def shape_def]
  have none: "child_work i rs s = None" for rs
    using assms(2,3) inv phone_step.kid [of i s rs] by (cases "child_work i rs s") auto
  show "t_queues s ! i = [] \<or> length (held (t_kids s ! i)) = 1"
  proof (cases "t_kids s ! i")
    case Receive
    then show ?thesis using none [of "[]"] by (auto simp: child_work_def Let_def split: list.splits)
  next
    case Gone
    then have "concat (take (2 * i + 3) (places s)) = []" using inv assms(3) by simp
    moreover have "places s ! Suc (2 * i) \<in> set (take (2 * i + 3) (places s))"
      using places_nth(1) [of n s] inv assms(3) by (auto simp: in_set_conv_nth shape_def intro!: exI [of _ "Suc (2 * i)"])
    ultimately show ?thesis using places_nth(3) [of n s i] inv assms(3) by (auto simp: shape_def)
  qed auto
  have "length (t_queues s ! Suc i) \<le> 2" using inv assms(3) by (auto simp: MQ_MSG_COUNT_def)
  moreover assume "held (t_kids s ! i) \<noteq> []"
  ultimately show "length (t_queues s ! Suc i) = 2"
    using none [of "[]"] by (cases "t_kids s ! i") (auto simp: child_work_def send_to_def MQ_MSG_COUNT_def split: if_splits)
qed

lemma phone_progress:
  assumes inv: "phone_inv p n ws s" and room: "length ws \<le> 3 * n + 1" and go: "t_main s \<noteq> Ended"
  shows "\<exists>t. phone_step s t"
proof (rule ccontr)
  assume stuck: "\<not> (\<exists>t. phone_step s t)"
  note i = inv [unfolded phone_inv_def shape_def] and kid = stuck_kid [OF inv stuck]
  have main: "main_work s = None" using stuck phone_step.caller by (cases "main_work s") auto
  have lens: "length (t_kids s) = n" "length (t_queues s) = Suc n" "t_words s = length ws" using i by simp_all
  have upto: "length (t_queues s ! k) \<le> 2" if "k \<le> n" for k using i that by (auto simp: MQ_MSG_COUNT_def)
  show False
  proof (cases "t_main s")
    case (Sending ws')
    then have q0: "length (t_queues s ! 0) = 2"
      using main upto [of 0] by (auto simp: main_work_def send_to_def MQ_MSG_COUNT_def split: list.splits if_splits)
    have q: "k \<le> n \<Longrightarrow> length (t_queues s ! k) = 2" for k
      using q0 kid by (induction k) (fastforce simp: Suc_le_eq)+
    have h: "length (held (t_kids s ! k)) = 1" if "k < n" for k using kid(1) [OF that] q [of k] that by auto
    have "map length (t_queues s) = replicate (Suc n) 2" using q lens(2) by (intro nth_equalityI) (auto simp del: replicate.simps)
    moreover have "map (length \<circ> held) (t_kids s) = replicate n 1" using h lens(1) by (intro nth_equalityI) auto
    ultimately show False using phone_count [OF inv] room Sending by (simp add: sum_list_replicate)
  next
    case (Receiving r)
    then have r: "r < length ws" "t_queues s ! n = []"
      using main lens by (auto simp: main_work_def split: if_splits list.splits)
    have q: "k \<le> n \<Longrightarrow> t_queues s ! (n - k) = []" for k
    proof (induction k)
      case (Suc k)
      then have "t_queues s ! Suc (n - Suc k) = []" by (simp add: Suc_diff_Suc)
      then show ?case using kid [of "n - Suc k"] Suc.prems by fastforce
    qed (use r in simp)
    have q: "t_queues s ! k = []" if "k \<le> n" for k using q [of "n - k"] that by simp
    have h: "held (t_kids s ! k) = []" if "k < n" for k using kid(2) [OF that] q [of "Suc k"] that by auto
    have "map length (t_queues s) = replicate (Suc n) 0" using q lens(2) by (intro nth_equalityI) (auto simp del: replicate.simps)
    moreover have "map (length \<circ> held) (t_kids s) = replicate n 0" using h lens(1) by (intro nth_equalityI) auto
    ultimately show False using phone_count [OF inv] r i Receiving by (simp add: sum_list_replicate main_ok_def)
  next
    case Waiting
    then have sum: "sum_list (map length (t_queues s)) + sum_list (map (length \<circ> held) (t_kids s)) = 1"
      using phone_count [OF inv] i by (simp add: main_ok_def)
    have small: "length (t_queues s ! k) \<le> 1" if "k \<le> n" for k
      using member_le_sum_list [of "length (t_queues s ! k)" "map length (t_queues s)"] that lens sum by simp
    have h: "held (t_kids s ! k) = []" if "k < n" for k using kid(2) [OF that] small [of "Suc k"] that by auto
    have q: "t_queues s ! k = []" if "k < n" for k using kid(1) [OF that] h [OF that] by simp
    obtain a where a: "a < n" "t_kids s ! a \<noteq> Gone"
      using main Waiting lens by (auto simp: main_work_def list_all_length split: if_splits)
    then have "concat (take (2 * a + 3) (places s)) \<noteq> []" using i by simp
    then obtain b where b: "b < 2 * a + 3" "places s ! b \<noteq> []" "b < length (places s)"
      by (auto simp: in_set_conv_nth)
    have sh: "shape n s" using inv by (simp add: phone_inv_def)
    show False
    proof (cases b)
      case 0
      then show False using b places_nth(2) [OF sh] Waiting by simp
    next
      case (Suc c)
      show False
      proof (cases "even c")
        case True
        then obtain d where "c = 2 * d" by (rule evenE)
        then show False using b a Suc places_nth(3) [OF sh, of d] q [of d] by simp
      next
        case False
        then obtain d where "c = Suc (2 * d)" by (metis oddE Suc_eq_plus1)
        then show False using b a Suc places_nth(4) [OF sh, of d] h [of d] by simp
      qed
    qed
  qed (use go in simp)
qed


text \<open>Too little room: \<open>main\<close> never gets to the end of its sending loop.\<close>

definition jammed :: "int \<Rightarrow> nat \<Rightarrow> string list \<Rightarrow> phone \<Rightarrow> bool" where
  "jammed p n ws s \<longleftrightarrow> phone_inv p n ws s \<and> (\<exists>ws'. t_main s = Sending ws')"

lemma jammed_step:
  assumes "jammed p n ws s" "phone_step s t" "3 * n + 2 \<le> length ws"
  shows "jammed p n ws t"
proof -
  note inv = assms(1) [unfolded jammed_def, THEN conjunct1]
  obtain ws' where ws': "t_main s = Sending ws'" using assms(1) by (auto simp: jammed_def)
  have t: "phone_inv p n ws t" using phone_step_ok [OF inv assms(2)] ..
  from assms(2) have "\<exists>v. t_main t = Sending v"
  proof cases
    case (kid i rs)
    moreover have "length (t_kids s) = n" using inv by (simp add: phone_inv_def shape_def)
    ultimately show ?thesis using phone_kid_ok [OF inv, of i rs t] ws' by simp
  next
    case caller
    have "ws' \<noteq> []"
    proof
      assume "ws' = []"
      with caller ws' have "length (t_queues s ! 0) \<le> 1"
        by (auto simp: main_work_def send_to_Some MQ_MSG_COUNT_def)
      moreover have "t_received s = []" using inv ws' by (simp add: phone_inv_def main_ok_def)
      ultimately show False
        using phone_count [OF inv] room_bounds [OF inv] ws' \<open>ws' = []\<close> assms(3) by simp
    qed
    with caller ws' show ?thesis by (cases ws') (auto simp: main_work_def send_to_Some)
  qed
  with t show ?thesis by (simp add: jammed_def)
qed

interpretation jam_sys: invariant_system
  "\<lambda>s. s = phone_start p n ws \<and> list_all plain ws \<and> 3 * n + 2 \<le> length ws" phone_step
  "\<lambda>s. jammed p n ws s \<and> 3 * n + 2 \<le> length ws" for p n ws
proof unfold_locales
  fix s assume "s = phone_start p n ws \<and> list_all plain ws \<and> 3 * n + 2 \<le> length ws"
  then show "jammed p n ws s \<and> 3 * n + 2 \<le> length ws"
    using phone_inv_start [of ws p n] by (simp add: jammed_def) (simp add: phone_start_def)
qed (blast intro: jammed_step)

subsection \<open>From the input to the final message\<close>


lemma strtok_words_concat: "concat (strtok_words w s) = w @ filter (\<lambda>c. c \<noteq> CHR '' '') s"
  by (induction w s rule: strtok_words.induct) auto

lemma strtok_words_ok:
  "CHR '' '' \<notin> set w \<Longrightarrow> v \<in> set (strtok_words w s) \<Longrightarrow> v \<noteq> [] \<and> CHR '' '' \<notin> set v"
  by (induction w s rule: strtok_words.induct) (auto split: if_splits)



lemma phone_rank_start: "phone_rank (phone_start p n ws) = (length ws + 1) * (2 * n + 2) + 2"
proof -
  have "cells (replicate n Receive) (replicate (Suc n) []) = replicate (2 * n + 1) []" by (induction n) simp_all
  moreover have "weight (replicate m [] @ [[]]) = 0" for m by (induction m) auto
  ultimately show ?thesis
    by (simp add: phone_rank_def places_def phone_start_def main_rank_def del: replicate.simps)
qed

text \<open>
  Enough room. With \<open>n\<close> players and at most \<open>3 * n + 1\<close> words every execution has a bounded
  number of steps, and from every state it reaches the game can be played to its end.
\<close>

lemma telephone_ends:
  assumes "list_all plain words" and "length words \<le> 3 * n + 1"
  shows "((phone_step ^^ k) (phone_start p n words) s \<longrightarrow> k \<le> (length words + 1) * (2 * n + 2) + 2) \<and>
     (phone_step\<^sup>*\<^sup>* (phone_start p n words) s \<longrightarrow> (\<exists>t. phone_step\<^sup>*\<^sup>* s t \<and> t_main t = Ended))"
proof (intro conjI impI)
  assume "(phone_step ^^ k) (phone_start p n words) s"
  from phone_sys.run_length_bound [OF phone_inv_start [OF assms(1)] this]
  show "k \<le> (length words + 1) * (2 * n + 2) + 2" using phone_rank_start [of p n words] by simp
next
  assume "phone_step\<^sup>*\<^sup>* (phone_start p n words) s"
  then have inv: "phone_inv p n words s"
    using phone_sys.inv_reachable [of "phone_start p n words" p n words s] assms(1) by simp
  obtain t where t: "phone_step\<^sup>*\<^sup>* s t" "\<not> (\<exists>u. phone_step t u)"
    using phone_sys.reach_final_aux [OF inv] by blast
  have "phone_inv p n words t" using phone_sys.inv_steps [OF t(1) inv] .
  with t assms(2) phone_progress show "\<exists>t. phone_step\<^sup>*\<^sup>* s t \<and> t_main t = Ended" by blast
qed

text \<open>
  Too many words. With \<open>3 * n + 2\<close> words or more no execution ends: \<open>main\<close> never gets past its
  sending loop, since it receives nothing before it has sent everything, and the queues and
  players hold only \<open>3 * n + 2\<close> messages.
\<close>

lemma telephone_jams:
  assumes "list_all plain words" and "3 * n + 2 \<le> length words" and "phone_step\<^sup>*\<^sup>* (phone_start p n words) s"
  shows "\<exists>rest. t_main s = Sending rest"
  using jam_sys.inv_reachable [of "phone_start p n words" p n words s] assms by (auto simp: jammed_def)


subsection \<open>Witnesses\<close>

definition game_input :: "string list" where
  "game_input = [''Adam'' @ [LF], ''Ewa'' @ [LF], ''start '' @ [CHR 0x22] @ ''ala ma kota'' @ [CHR 0x22, LF]]"

lemma game_input_parsed:
  "read_players game_input [] = Some ([''Adam'', ''Ewa''], ''ala ma kota'')"
  "strtok_words [] ''ala ma kota'' = [''ala'', ''ma'', ''kota'']"
  "list_all plain [''ala'', ''ma'', ''kota'']"
  by code_simp+


lemma telephone_ends_example:
  "\<exists>t. phone_step\<^sup>*\<^sup>* (phone_start 30 1 [''ala'', ''ma'', ''kota'']) t \<and> t_main t = Ended"
  using telephone_ends [of "[''ala'', ''ma'', ''kota'']" 1 0 30] game_input_parsed(3) by auto

lemma telephone_jams_example:
  "\<exists>rest. t_main (phone_start 30 1 (replicate 5 ''ala'')) = Sending rest"
  using telephone_jams [of "replicate 5 ''ala''" 1 30 "phone_start 30 1 (replicate 5 ''ala'')"]
  by (simp add: plain_def numeral_eq_Suc)

end
