(* ===== verification/TeamPipes.thy ===== *)
theory TeamPipes
  imports Prelude
begin

section \<open>Two teams and a pipe for every pair\<close>

text \<open>
  \<open>sop2/lab01/prelab/prelab.c\<close>: the players of two teams are read from two files; every player is a
  process that sends its data to each player of the other team and receives theirs, over a pipe
  for every ordered pair of opponents. The parsing of the files, the wiring of the pipes, and the
  processes as interleaved steps.
\<close>

subsection \<open>Reading a team\<close>









subsection \<open>The wiring\<close>

text \<open>\<open>read_fds\<close> and \<open>write_fds\<close>, filled for every team \<open>i\<close>, player \<open>j\<close> and opponent \<open>k\<close>; pipes are
  numbered in the order in which they are made.\<close>

type_synonym fds = "nat \<times> nat \<times> nat \<Rightarrow> nat"

fun make_pipes :: "(nat \<times> nat \<times> nat) list \<Rightarrow> nat \<Rightarrow> fds \<times> fds \<Rightarrow> fds \<times> fds" where
  "make_pipes [] fd fds = fds"
| "make_pipes ((i, j, k) # ts) fd (read_fds, write_fds) =
     make_pipes ts (fd + 1) (read_fds((i, j, k) := fd), write_fds((1 - i, k, j) := fd))"

definition triples :: "nat \<Rightarrow> (nat \<times> nat \<times> nat) list" where
  "triples n = List.product [0..<2] (List.product [0..<n] [0..<n])"

definition wiring :: "nat \<Rightarrow> fds \<times> fds" where
  "wiring n = make_pipes (triples n) 0 (\<lambda>_. 0, \<lambda>_. 0)"

lemma make_pipes_spec:
  assumes "make_pipes ts fd (rd, wr) = (rd', wr')" "distinct ts" "\<forall>t \<in> set ts. fst t < 2"
  shows "(\<forall>t. t \<notin> set ts \<longrightarrow> rd' t = rd t) \<and>
     (\<forall>i j k. i < 2 \<longrightarrow> (i, j, k) \<notin> set ts \<longrightarrow> wr' (1 - i, k, j) = wr (1 - i, k, j)) \<and>
     (\<forall>i j k. (i, j, k) \<in> set ts \<longrightarrow> wr' (1 - i, k, j) = rd' (i, j, k) \<and> fd \<le> rd' (i, j, k)) \<and>
     inj_on rd' (set ts)"
  using assms
proof (induction ts fd "(rd, wr)" arbitrary: rd wr rule: make_pipes.induct)
  case (2 i j k ts fd rd wr)
  let ?rd = "rd((i, j, k) := fd)" and ?wr = "wr((1 - i, k, j) := fd)"
  have mk: "make_pipes ts (fd + 1) (?rd, ?wr) = (rd', wr')" using "2.prems"(1) by simp
  note IH = "2.hyps" [OF mk]
  have d: "distinct ts" "(i, j, k) \<notin> set ts" "\<forall>t \<in> set ts. fst t < 2" "i < 2" using "2.prems" by auto
  note IH = IH [OF d(1,3)]
  have flip: "a < 2 \<Longrightarrow> (1 - a, c, b) = (1 - i, k, j) \<longleftrightarrow> (a, b, c) = (i, j, k)" for a b c
    using d(4) by auto
  have here: "rd' (i, j, k) = fd" "wr' (1 - i, k, j) = fd" using IH d by auto
  have "inj_on rd' (set ts)" "\<forall>t \<in> set ts. rd' t \<noteq> fd" using IH by auto (metis Suc_n_not_le_n)
  then have "inj_on rd' (set ((i, j, k) # ts))" using here d(2) by (auto simp: inj_on_def)
  moreover have "wr' (1 - a, c, b) = wr (1 - a, c, b)" if "a < 2" "(a, b, c) \<notin> set ((i, j, k) # ts)" for a b c
  proof -
    have "wr' (1 - a, c, b) = ?wr (1 - a, c, b)" using IH that by auto
    with flip [OF that(1)] that(2) show ?thesis by auto
  qed
  moreover have "wr' (1 - a, c, b) = rd' (a, b, c) \<and> fd \<le> rd' (a, b, c)" if "(a, b, c) \<in> set ((i, j, k) # ts)" for a b c
  proof (cases "(a, b, c) = (i, j, k)")
    case False
    with that IH have "wr' (1 - a, c, b) = rd' (a, b, c) \<and> fd + 1 \<le> rd' (a, b, c)" by auto
    then show ?thesis by simp
  qed (use here in auto)
  ultimately show ?case using IH by auto
qed auto

lemma wiring_spec:
  assumes "i < 2" "j < n" "k < n"
  shows "snd (wiring n) (1 - i, k, j) = fst (wiring n) (i, j, k)"
    and "inj_on (fst (wiring n)) {(i, j, k). i < 2 \<and> j < n \<and> k < n}"
proof -
  obtain rd wr where w: "wiring n = (rd, wr)" by fastforce
  have s: "set (triples n) = {(i, j, k). i < 2 \<and> j < n \<and> k < n}" "distinct (triples n)"
    by (auto simp: triples_def distinct_product)
  note make_pipes_spec [OF w [unfolded wiring_def] s(2)]
  with assms s(1) w show "snd (wiring n) (1 - i, k, j) = fst (wiring n) (i, j, k)"
    "inj_on (fst (wiring n)) {(i, j, k). i < 2 \<and> j < n \<and> k < n}" by auto
qed


subsection \<open>The processes\<close>













lemma wiring_inj:
  "i < 2 \<Longrightarrow> j < n \<Longrightarrow> k < n \<Longrightarrow> i' < 2 \<Longrightarrow> j' < n \<Longrightarrow> k' < n \<Longrightarrow>
   fst (wiring n) (i, j, k) = fst (wiring n) (i', j', k') \<longleftrightarrow> i = i' \<and> j = j' \<and> k = k'"
  using wiring_spec(2) [of i j n k] by (auto dest: inj_onD)













subsection \<open>A team's file\<close>









subsection \<open>Properties\<close>


text \<open>
  The wiring. Each of the \<open>2 * n * n\<close> pipes is read by one player and written by one player of
  the other team: what player \<open>j\<close> of team \<open>i\<close> reads in round \<open>k\<close> is what player \<open>k\<close> of the other team
  writes in its round \<open>j\<close>.
\<close>

lemma teams_wiring:
  assumes "i < 2" and "j < n" and "k < n"
  shows "snd (wiring n) (1 - i, k, j) = fst (wiring n) (i, j, k) \<and>
     (\<forall>i' < 2. \<forall>j' < n. \<forall>k' < n. fst (wiring n) (i', j', k') = fst (wiring n) (i, j, k) \<longrightarrow>
        i' = i \<and> j' = j \<and> k' = k)"
  using wiring_spec(1) [OF assms] wiring_inj [OF _ _ _ assms] by blast

subsection \<open>Witnesses\<close>



lemma teams_wiring_example:
  "snd (wiring 3) (1, 2, 1) = fst (wiring 3) (0, 1, 2)"
  using teams_wiring [of 0 1 3 2] by simp

end
