(* ===== verification/MsgQueue.thy ===== *)
theory MsgQueue
  imports Prelude
begin

section \<open>Message queues with notification\<close>

text \<open>
  The POSIX message queue as the programs of \<open>sop2/lab02\<close> use it: messages with priorities, a
  capacity, and one registered process that gets one notification when a message comes into the
  empty queue, which also ends the registration. The handlers of these programs register again
  and then receive until the queue is empty; \<open>alert\<close> says what that order achieves.
\<close>

record 'm mqueue =
  q_msgs :: "(nat \<times> 'm) list"
  q_armed :: bool \<comment> \<open>somebody is registered\<close>
  q_events :: nat \<comment> \<open>notifications on their way\<close>

definition mq_open :: "'m mqueue" where
  "mq_open = \<lparr>q_msgs = [], q_armed = False, q_events = 0\<rparr>"

lemma mq_open_simps [simp]: "q_msgs mq_open = []" "q_armed mq_open = False" "q_events mq_open = 0"
  by (simp_all add: mq_open_def)

text \<open>A message goes behind those of its priority and above.\<close>

definition mq_insert :: "nat \<times> 'm \<Rightarrow> (nat \<times> 'm) list \<Rightarrow> (nat \<times> 'm) list" where
  "mq_insert x ms = takeWhile (\<lambda>y. fst x \<le> fst y) ms @ x # dropWhile (\<lambda>y. fst x \<le> fst y) ms"

definition mq_send :: "nat \<Rightarrow> nat \<times> 'm \<Rightarrow> 'm mqueue \<Rightarrow> 'm mqueue option" where
  "mq_send cap x q =
     (if length (q_msgs q) < cap
      then Some (if q_msgs q = [] \<and> q_armed q
                 then q\<lparr>q_msgs := [x], q_armed := False, q_events := q_events q + 1\<rparr>
                 else q\<lparr>q_msgs := mq_insert x (q_msgs q)\<rparr>)
      else None)"

definition mq_receive :: "'m mqueue \<Rightarrow> ((nat \<times> 'm) \<times> 'm mqueue) option" where
  "mq_receive q = (case q_msgs q of [] \<Rightarrow> None | x # xs \<Rightarrow> Some (x, q\<lparr>q_msgs := xs\<rparr>))"

text \<open>\<open>mq_notify\<close> fails when somebody is registered already.\<close>

definition mq_notify :: "'m mqueue \<Rightarrow> 'm mqueue option" where
  "mq_notify q = (if q_armed q then None else Some (q\<lparr>q_armed := True\<rparr>))"

text \<open>The delivery of a notification.\<close>

definition mq_event :: "'m mqueue \<Rightarrow> 'm mqueue option" where
  "mq_event q = (if q_events q = 0 then None else Some (q\<lparr>q_events := q_events q - 1\<rparr>))"

lemma mset_mq_insert [simp]:
  fixes ms :: "(nat \<times> 'm) list"
  shows "mset (mq_insert x ms) = add_mset x (mset ms)"
proof -
  have "mset (takeWhile P ms) + mset (dropWhile P ms) = mset ms" for P :: "nat \<times> 'm \<Rightarrow> bool"
    by (metis mset_append takeWhile_dropWhile_id)
  then show ?thesis by (simp add: mq_insert_def)
qed

lemma length_mq_insert [simp]: "length (mq_insert x ms) = Suc (length ms)"
  by (metis mset_mq_insert size_add_mset size_mset)

lemma mq_insert_Nil [simp]: "mq_insert x [] = [x]"
  by (simp add: mq_insert_def)

lemma mq_insert_not_Nil [simp]: "mq_insert x ms \<noteq> []"
  by (simp add: mq_insert_def)

lemma mq_send_SomeD:
  "mq_send cap x q = Some q' \<Longrightarrow> length (q_msgs q) < cap \<and> mset (q_msgs q') = add_mset x (mset (q_msgs q)) \<and>
     q_msgs q' \<noteq> [] \<and> length (q_msgs q') = Suc (length (q_msgs q))"
  by (auto simp: mq_send_def split: if_splits)

lemma mq_send_None_iff: "mq_send cap x q = None \<longleftrightarrow> cap \<le> length (q_msgs q)"
  by (auto simp: mq_send_def)

lemma mq_receive_None_iff [simp]: "mq_receive q = None \<longleftrightarrow> q_msgs q = []"
  by (auto simp: mq_receive_def split: list.splits)

lemma mq_receive_SomeD:
  "mq_receive q = Some (x, q') \<Longrightarrow> q_msgs q = x # q_msgs q' \<and> q_armed q' = q_armed q \<and> q_events q' = q_events q"
  by (auto simp: mq_receive_def split: list.splits)

subsection \<open>Nothing is forgotten\<close>

text \<open>
  A receiver is alert when it will notice the messages there are: exactly one of registration and
  notification is there, and if the queue is not empty then a handler is at work or a
  notification is on its way.
\<close>

definition alert :: "bool \<Rightarrow> 'm mqueue \<Rightarrow> bool" where
  "alert busy q \<longleftrightarrow> q_events q = (if q_armed q then 0 else 1) \<and> (q_msgs q = [] \<or> busy \<or> q_events q = 1)"

lemma alert_send: "mq_send cap x q = Some q' \<Longrightarrow> alert busy q \<Longrightarrow> alert busy q'"
  by (auto simp: mq_send_def alert_def split: if_splits)

lemma alert_receive: "mq_receive q = Some (x, q') \<Longrightarrow> alert True q \<Longrightarrow> alert True q'"
  by (auto simp: mq_receive_def alert_def split: list.splits)

lemma alert_mono: "alert busy q \<Longrightarrow> busy \<longrightarrow> busy' \<Longrightarrow> alert busy' q"
  by (auto simp: alert_def)

lemma alert_empty: "alert busy q \<Longrightarrow> q_msgs q = [] \<Longrightarrow> alert busy' q"
  by (auto simp: alert_def)

lemma alert_event:
  assumes "alert busy q" "mq_event q = Some q1"
  obtains q2 where "mq_notify q1 = Some q2" "alert True q2" "q_msgs q2 = q_msgs q"
  using assms that by (auto simp: alert_def mq_event_def mq_notify_def split: if_splits)

lemma alert_start: "mq_notify q = Some q' \<Longrightarrow> q_events q = 0 \<Longrightarrow> alert True q'"
  by (auto simp: alert_def mq_notify_def split: if_splits)

end
