(* ===== verification/Bingo.thy ===== *)
theory Bingo
  imports MsgQueue
begin

section \<open>Bingo\<close>

text \<open>
  \<open>sop2/lab02/mq_test1/bingo.c\<close>: the parent draws numbers into one queue, each of the \<open>n\<close> children
  takes numbers until it finds its own or its life is over, reports through a second queue and
  ends; two signal handlers of the parent count the children and print the reports.
\<close>

definition LIFESPAN :: nat where "LIFESPAN = 10"
definition MAXN :: nat where "MAXN = 10"

text \<open>\<open>mq_maxmsg\<close> of both queues.\<close>

definition MQ_MAXMSG :: nat where "MQ_MAXMSG = 10"

text \<open>A child at the top of its loop, with the rounds it has left and its number; in front of its last
  \<open>mq_send\<close>; ended; and waited for.\<close>

datatype child = Playing nat nat | Reporting "nat \<times> nat" | Zombie | Reaped

text \<open>The parent in front of \<open>mq_notify\<close>; in front of the test of \<open>children_left\<close>; in front of \<open>mq_send\<close>;
  and behind the loop.\<close>

datatype parent = Registering | Testing | Drawing nat | Terminating

record bingo =
  b_children :: "child list"
  b_rng :: "nat list"
  b_end :: "nat mqueue"
  b_children_left :: nat
  b_parent :: parent
  b_handling :: bool \<comment> \<open>inside \<open>mq_handler\<close>\<close>
  b_printed :: "(nat \<times> nat) list"
  b_killed :: bool \<comment> \<open>somebody has called \<open>ERR\<close>, which kills all processes\<close>

text \<open>What \<open>rand\<close> gives to each child.\<close>

definition new_child :: "nat \<times> nat \<Rightarrow> child" where
  "new_child r = Playing (snd r mod LIFESPAN + 1) (fst r mod MAXN)"

definition bingo_start :: "(nat \<times> nat) list \<Rightarrow> bingo" where
  "bingo_start rs =
     \<lparr>b_children = map new_child rs, b_rng = [], b_end = mq_open, b_children_left = length rs,
      b_parent = Registering, b_handling = False, b_printed = [], b_killed = False\<rparr>"

definition set_child :: "nat \<Rightarrow> child \<Rightarrow> bingo \<Rightarrow> bingo" where
  "set_child i c s = s\<lparr>b_children := (b_children s)[i := c]\<rparr>"

text \<open>\<open>create_children\<close> passes \<open>n\<close> to every child, not its index.\<close>

definition child_work :: "nat \<Rightarrow> bingo \<Rightarrow> bingo option" where
  "child_work i s =
     (case b_children s ! i of
        Playing life my_bingo \<Rightarrow>
          (if life = 0 then Some (set_child i (Reporting (0, length (b_children s))) s)
           else (case b_rng s of
                   [] \<Rightarrow> None
                 | number # rest \<Rightarrow>
                     Some (set_child i (if my_bingo = number then Reporting (1, my_bingo) else Playing (life - 1) my_bingo)
                       (s\<lparr>b_rng := rest\<rparr>))))
      | Reporting msg \<Rightarrow>
          (case mq_send MQ_MAXMSG msg (b_end s) of
             None \<Rightarrow> Some (s\<lparr>b_killed := True\<rparr>)
           | Some q \<Rightarrow> Some (set_child i Zombie (s\<lparr>b_end := q\<rparr>)))
      | _ \<Rightarrow> None)"

text \<open>\<open>main\<close> and \<open>parent_work\<close>, with the next result of \<open>rand\<close>; a send that a signal interrupts is
  repeated.\<close>

definition parent_work :: "nat \<Rightarrow> bingo \<Rightarrow> bingo option" where
  "parent_work r s =
     (case b_parent s of
        Registering \<Rightarrow>
          (case mq_notify (b_end s) of
             None \<Rightarrow> Some (s\<lparr>b_killed := True\<rparr>)
           | Some q \<Rightarrow> Some (s\<lparr>b_end := q, b_parent := Testing\<rparr>))
      | Testing \<Rightarrow> Some (s\<lparr>b_parent := if b_children_left s \<noteq> 0 then Drawing (r mod MAXN) else Terminating\<rparr>)
      | Drawing number \<Rightarrow>
          (if length (b_rng s) < MQ_MAXMSG then Some (s\<lparr>b_rng := b_rng s @ [number], b_parent := Testing\<rparr>) else None)
      | Terminating \<Rightarrow> None)"

text \<open>\<open>sigchld_handler\<close>: waits for all children that have ended.\<close>

definition sigchld_handler :: "bingo \<Rightarrow> bingo" where
  "sigchld_handler s =
     s\<lparr>b_children := map (\<lambda>c. if c = Zombie then Reaped else c) (b_children s),
       b_children_left := b_children_left s - length (filter (\<lambda>c. c = Zombie) (b_children s))\<rparr>"

text \<open>\<open>mq_handler\<close>: it registers again first, and then receives until the queue is empty.\<close>

definition mq_handler_enter :: "bingo \<Rightarrow> bingo option" where
  "mq_handler_enter s =
     (case mq_event (b_end s) of
        None \<Rightarrow> None
      | Some q \<Rightarrow>
          (case mq_notify q of
             None \<Rightarrow> Some (s\<lparr>b_killed := True\<rparr>)
           | Some q' \<Rightarrow> Some (s\<lparr>b_end := q', b_handling := True\<rparr>)))"

definition mq_handler_loop :: "bingo \<Rightarrow> bingo" where
  "mq_handler_loop s =
     (case mq_receive (b_end s) of
        None \<Rightarrow> s\<lparr>b_handling := False\<rparr>
      | Some (x, q) \<Rightarrow> s\<lparr>b_end := q, b_printed := b_printed s @ [x]\<rparr>)"

datatype act = Child nat | Parent nat | Sigchld | Notified | Receive

fun bingo_act :: "act \<Rightarrow> bingo \<Rightarrow> bingo option" where
  "bingo_act (Child i) s = (if i < length (b_children s) then child_work i s else None)"
| "bingo_act (Parent r) s = (if b_handling s then None else parent_work r s)"
| "bingo_act Sigchld s = (if Zombie \<in> set (b_children s) then Some (sigchld_handler s) else None)"
| "bingo_act Notified s = (if b_handling s then None else mq_handler_enter s)"
| "bingo_act Receive s = (if b_handling s then Some (mq_handler_loop s) else None)"

definition bingo_step :: "bingo \<Rightarrow> bingo \<Rightarrow> bool" where
  "bingo_step s t \<longleftrightarrow> \<not> b_killed s \<and> (\<exists>a. bingo_act a s = Some t)"

fun run_bingo :: "act list \<Rightarrow> bingo \<Rightarrow> bingo option" where
  "run_bingo [] s = Some s"
| "run_bingo (a # as) s =
     (if b_killed s then None else case bingo_act a s of None \<Rightarrow> None | Some t \<Rightarrow> run_bingo as t)"

lemma run_bingo_steps: "run_bingo as s = Some t \<Longrightarrow> bingo_step\<^sup>*\<^sup>* s t"
proof (induction as arbitrary: s)
  case (Cons a as)
  then obtain u where "\<not> b_killed s" "bingo_act a s = Some u" "run_bingo as u = Some t"
    by (auto split: option.splits if_splits)
  then have "bingo_step s u" "bingo_step\<^sup>*\<^sup>* u t" using Cons.IH unfolding bingo_step_def by blast+
  then show ?case by (rule converse_rtranclp_into_rtranclp)
qed simp

subsection \<open>The invariant\<close>











subsection \<open>A send that blocks for ever\<close>

text \<open>
  One child whose life is one round; the parent draws eleven numbers before the child ends, so the
  queue is full again when it does.
\<close>

definition blocked_run :: "act list" where
  "blocked_run =
     Parent 0 # concat (replicate 10 [Parent 0, Parent 0]) @
     [Child 0, Parent 0, Parent 0, Parent 0, Child 0, Child 0, Sigchld, Notified, Receive, Receive]"

definition blocked :: "bingo \<Rightarrow> bool" where
  "blocked s \<longleftrightarrow> b_children s = [Reaped] \<and> b_children_left s = 0 \<and> b_parent s = Drawing 0 \<and>
     length (b_rng s) = MQ_MAXMSG \<and> q_events (b_end s) = 0 \<and> \<not> b_handling s \<and> b_printed s = [(0, 1)] \<and> \<not> b_killed s"

lemma blocked_run_ok:
  "case run_bingo blocked_run (bingo_start [(3, 0)]) of Some s \<Rightarrow> blocked s | None \<Rightarrow> False"
  by code_simp

lemma blocked_no_step: "blocked s \<Longrightarrow> \<not> bingo_step s t"
proof
  assume b: "blocked s" and "bingo_step s t"
  then obtain a where "bingo_act a s = Some t" by (auto simp: bingo_step_def)
  with b show False
    by (cases a) (auto simp: blocked_def child_work_def parent_work_def mq_handler_enter_def mq_event_def split: if_splits)
qed

subsection \<open>Properties\<close>


text \<open>
  The end that does not come. There is a schedule after which the only child has been waited
  for and has reported, \<open>children_left\<close> is 0, and yet no process can do anything: the parent is in
  \<open>mq_send\<close> on a full queue that nobody reads.
\<close>

lemma bingo_hangs:
  "\<exists>s. bingo_step\<^sup>*\<^sup>* (bingo_start [(3, 0)]) s \<and> b_children_left s = 0 \<and> b_children s = [Reaped] \<and>
     b_parent s = Drawing 0 \<and> (\<forall>t. \<not> bingo_step s t)"
proof -
  obtain s where s: "run_bingo blocked_run (bingo_start [(3, 0)]) = Some s" "blocked s"
    using blocked_run_ok by (auto split: option.splits)
  have "bingo_step\<^sup>*\<^sup>* (bingo_start [(3, 0)]) s" using run_bingo_steps [OF s(1)] .
  moreover have "\<forall>t. \<not> bingo_step s t" using blocked_no_step [OF s(2)] by blast
  ultimately show ?thesis using s(2) by (auto simp: blocked_def)
qed


end
