(* ===== verification/Forum.thy ===== *)
theory Forum
  imports MsgQueue
begin

section \<open>The forum and the chat\<close>

text \<open>
  \<open>sop2/lab02/mq_test2/forum.c\<close>: four children that write to each other's queues, and
  \<open>sop2/lab02/zad04/zad04.c\<close>: a chat server and its clients. Both read a non-blocking queue in
  threads that notifications start; \<open>handle_messages\<close> is the same in both.
\<close>

subsection \<open>The receiving end of a queue\<close>

text \<open>A queue with the threads that are inside \<open>handle_messages\<close> and what they have printed; the
  first call of \<open>handle_messages\<close> is made by the main thread and counted, too.\<close>

record inbox =
  i_queue :: "string mqueue"
  i_threads :: nat
  i_printed :: "(nat \<times> string) list"

definition empty_inbox :: inbox where
  "empty_inbox = \<lparr>i_queue = mq_open, i_threads = 0, i_printed = []\<rparr>"

text \<open>\<open>register_notification\<close> at the start of \<open>handle_messages\<close>; \<open>None\<close> is \<open>ERR\<close>.\<close>

definition handle_enter :: "inbox \<Rightarrow> inbox option" where
  "handle_enter b = map_option (\<lambda>q. b\<lparr>i_queue := q, i_threads := i_threads b + 1\<rparr>) (mq_notify (i_queue b))"

text \<open>One round of its loop, in any of the threads; on an empty queue the thread leaves.\<close>

definition handle_loop :: "inbox \<Rightarrow> inbox option" where
  "handle_loop b =
     (if i_threads b = 0 then None
      else (case mq_receive (i_queue b) of
              None \<Rightarrow> Some (b\<lparr>i_threads := i_threads b - 1\<rparr>)
            | Some (x, q) \<Rightarrow> Some (b\<lparr>i_queue := q, i_printed := i_printed b @ [x]\<rparr>)))"

text \<open>The delivery of a notification, which starts a thread; \<open>None\<close> when there is none,
  \<open>Some None\<close> is \<open>ERR\<close>.\<close>

definition handle_notified :: "inbox \<Rightarrow> inbox option option" where
  "handle_notified b = map_option (\<lambda>q. handle_enter (b\<lparr>i_queue := q\<rparr>)) (mq_event (i_queue b))"

definition deliver :: "nat \<Rightarrow> nat \<times> string \<Rightarrow> inbox \<Rightarrow> inbox option" where
  "deliver cap x b = map_option (\<lambda>q. b\<lparr>i_queue := q\<rparr>) (mq_send cap x (i_queue b))"

text \<open>The messages an inbox has got, and its not overlooking any of them.\<close>

definition arrived :: "inbox \<Rightarrow> (nat \<times> string) multiset" where
  "arrived b = mset (i_printed b) + mset (q_msgs (i_queue b))"

definition awake :: "inbox \<Rightarrow> bool" where
  "awake b \<longleftrightarrow> alert (0 < i_threads b) (i_queue b)"

text \<open>An inbox whose owner has not registered yet.\<close>

definition asleep :: "inbox \<Rightarrow> bool" where
  "asleep b \<longleftrightarrow> \<not> q_armed (i_queue b) \<and> q_events (i_queue b) = 0 \<and> i_threads b = 0"

lemma enter_awake: "asleep b \<Longrightarrow> \<exists>b'. handle_enter b = Some b' \<and> awake b' \<and> arrived b' = arrived b"
  by (auto simp: asleep_def handle_enter_def mq_notify_def awake_def alert_def arrived_def)

lemma loop_awake:
  assumes "handle_loop b = Some b'" "awake b"
  shows "awake b' \<and> arrived b' = arrived b"
proof (cases "mq_receive (i_queue b)")
  case None
  then have b': "b' = b\<lparr>i_threads := i_threads b - 1\<rparr>" using assms(1) None by (simp add: handle_loop_def mq_receive_def split: if_splits list.splits)
  have "alert (0 < i_threads b') (i_queue b)" using assms(2) None alert_empty by (auto simp: awake_def)
  with b' show ?thesis by (simp add: awake_def arrived_def)
next
  case (Some xq)
  obtain x q where xq: "mq_receive (i_queue b) = Some (x, q)" using Some by (cases xq) simp
  with assms have b': "b' = b\<lparr>i_queue := q, i_printed := i_printed b @ [x]\<rparr>" "0 < i_threads b"
    by (auto simp: handle_loop_def split: if_splits)
  with assms(2) alert_receive [OF xq] mq_receive_SomeD [OF xq] show ?thesis by (simp add: awake_def arrived_def)
qed

lemma notified_awake:
  assumes "handle_notified b = Some r" "awake b"
  obtains b' where "r = Some b'" "awake b'" "arrived b' = arrived b"
proof -
  obtain q where q: "mq_event (i_queue b) = Some q" "r = handle_enter (b\<lparr>i_queue := q\<rparr>)"
    using assms(1) by (auto simp: handle_notified_def)
  have "alert (0 < i_threads b) (i_queue b)" using assms(2) by (simp add: awake_def)
  then obtain q2 where "mq_notify q = Some q2" "alert True q2" "q_msgs q2 = q_msgs (i_queue b)"
    using q(1) by (rule alert_event)
  with q(2) that show ?thesis by (auto simp: handle_enter_def awake_def arrived_def)
qed

lemma deliver_SomeD:
  assumes "deliver cap x b = Some b'"
  shows "arrived b' = add_mset x (arrived b)" "awake b \<Longrightarrow> awake b'" "asleep b \<Longrightarrow> asleep b'"
proof -
  obtain q where q: "mq_send cap x (i_queue b) = Some q" "b' = b\<lparr>i_queue := q\<rparr>"
    using assms by (auto simp: deliver_def)
  show "arrived b' = add_mset x (arrived b)" using mq_send_SomeD [OF q(1)] by (simp add: q(2) arrived_def)
  show "awake b \<Longrightarrow> awake b'" using alert_send [OF q(1)] by (simp add: q(2) awake_def)
  show "asleep b \<Longrightarrow> asleep b'" using q(1) by (auto simp: q(2) asleep_def mq_send_def split: if_splits)
qed

subsection \<open>The forum\<close>

definition CHILD_COUNT :: nat where "CHILD_COUNT = 4"
definition MSG_SIZE :: nat where "MSG_SIZE = 64"
definition MAX_MSG_COUNT :: nat where "MAX_MSG_COUNT = 4"
definition ROUNDS :: nat where "ROUNDS = 5"

definition name_of :: "nat \<Rightarrow> string" where
  "name_of i = ''Persona '' @ decimal i"

text \<open>The three messages, cut by \<open>snprintf\<close>.\<close>

definition message :: "nat \<Rightarrow> nat \<Rightarrow> nat \<Rightarrow> string" where
  "message i receiver kind =
     take (MSG_SIZE - 1)
       (name_of i @
        (if kind = 0 then '': Salve '' @ decimal receiver @ ''!''
         else if kind = 1 then '': Visne garum emere, '' @ decimal receiver @ ''?''
         else '': Fuistine hodie in thermis, '' @ decimal receiver @ ''?''))"

text \<open>A child in front of its first \<open>handle_messages\<close>; inside it; with \<open>r\<close> rounds to go; and gone.\<close>

datatype persona = Incipiens | Accipiens | Loquens nat | Absens

record forum =
  f_children :: "persona list"
  f_inboxes :: "inbox list"
  f_sent :: "(nat \<times> string) list" \<comment> \<open>receivers and messages\<close>
  f_killed :: bool

definition forum_start :: forum where
  "forum_start =
     \<lparr>f_children = replicate CHILD_COUNT Incipiens, f_inboxes = replicate CHILD_COUNT empty_inbox,
      f_sent = [], f_killed = False\<rparr>"

definition set_inbox :: "nat \<Rightarrow> inbox option \<Rightarrow> forum \<Rightarrow> forum" where
  "set_inbox i b s =
     (case b of None \<Rightarrow> s\<lparr>f_killed := True\<rparr> | Some b \<Rightarrow> s\<lparr>f_inboxes := (f_inboxes s)[i := b]\<rparr>)"

definition set_persona :: "nat \<Rightarrow> persona \<Rightarrow> forum \<Rightarrow> forum" where
  "set_persona i c s = s\<lparr>f_children := (f_children s)[i := c]\<rparr>"

text \<open>The end of a process ends its registration, its threads and notifications.\<close>

definition leave :: "inbox \<Rightarrow> inbox" where
  "leave b = b\<lparr>i_queue := (i_queue b)\<lparr>q_armed := False, q_events := 0\<rparr>, i_threads := 0\<rparr>"

text \<open>\<open>child_work\<close> of child \<open>i\<close>; \<open>r\<close> and \<open>r'\<close> are the results of \<open>rand\<close> in the round.\<close>

definition child_work :: "nat \<Rightarrow> nat \<Rightarrow> nat \<Rightarrow> forum \<Rightarrow> forum option" where
  "child_work i r r' s =
     (case f_children s ! i of
        Incipiens \<Rightarrow> Some (set_persona i Accipiens (set_inbox i (handle_enter (f_inboxes s ! i)) s))
      | Accipiens \<Rightarrow>
          (if q_msgs (i_queue (f_inboxes s ! i)) = [] then Some (set_persona i (Loquens ROUNDS)
             (set_inbox i (handle_loop (f_inboxes s ! i)) s)) else None)
      | Loquens 0 \<Rightarrow> Some (set_persona i Absens (set_inbox i (Some (leave (f_inboxes s ! i))) s))
      | Loquens (Suc n) \<Rightarrow>
          (let receiver = r mod CHILD_COUNT; msg = message i receiver (r' mod 3) in
           case deliver MAX_MSG_COUNT (0, msg) (f_inboxes s ! receiver) of
             None \<Rightarrow> Some (s\<lparr>f_killed := True\<rparr>)
           | Some b \<Rightarrow> Some (set_persona i (Loquens n)
               (set_inbox receiver (Some b) (s\<lparr>f_sent := f_sent s @ [(receiver, msg)]\<rparr>))))
      | Absens \<Rightarrow> None)"

datatype act = Child nat nat nat | Notify nat | Thread nat

fun forum_act :: "act \<Rightarrow> forum \<Rightarrow> forum option" where
  "forum_act (Child i r r') s = (if i < CHILD_COUNT then child_work i r r' s else None)"
| "forum_act (Notify i) s =
     (if i < CHILD_COUNT then map_option (\<lambda>b. set_inbox i b s) (handle_notified (f_inboxes s ! i)) else None)"
| "forum_act (Thread i) s =
     (if i < CHILD_COUNT \<and> (f_children s ! i = Accipiens \<longrightarrow> q_msgs (i_queue (f_inboxes s ! i)) \<noteq> [] \<or> 1 < i_threads (f_inboxes s ! i))
      then map_option (\<lambda>b. set_inbox i (Some b) s) (handle_loop (f_inboxes s ! i)) else None)"

definition forum_step :: "forum \<Rightarrow> forum \<Rightarrow> bool" where
  "forum_step s t \<longleftrightarrow> \<not> f_killed s \<and> (\<exists>a. forum_act a s = Some t)"

fun run_forum :: "act list \<Rightarrow> forum \<Rightarrow> forum option" where
  "run_forum [] s = Some s"
| "run_forum (a # as) s =
     (if f_killed s then None else case forum_act a s of None \<Rightarrow> None | Some t \<Rightarrow> run_forum as t)"

lemma run_forum_steps: "run_forum as s = Some t \<Longrightarrow> forum_step\<^sup>*\<^sup>* s t"
proof (induction as arbitrary: s)
  case (Cons a as)
  then obtain u where "\<not> f_killed s" "forum_act a s = Some u" "run_forum as u = Some t"
    by (auto split: option.splits if_splits)
  then have "forum_step s u" "forum_step\<^sup>*\<^sup>* u t" using Cons.IH unfolding forum_step_def by blast+
  then show ?case by (rule converse_rtranclp_into_rtranclp)
qed simp


subsection \<open>The invariant\<close>






lemma set_inbox_simps [simp]:
  "set_inbox i (Some b) s = s\<lparr>f_inboxes := (f_inboxes s)[i := b]\<rparr>" "set_inbox i None s = s\<lparr>f_killed := True\<rparr>"
  by (simp_all add: set_inbox_def)












subsection \<open>Properties of the forum\<close>



text \<open>A run: child 1 greets itself five times and leaves, child 0 then sends it four messages.\<close>

definition own_round :: "act list" where
  "own_round = [Child 1 1 0, Notify 1, Thread 1, Thread 1]"

definition departed_run :: "act list" where
  "departed_run = [Child 1 0 0, Child 1 0 0] @ concat (replicate 5 own_round) @ [Child 1 0 0] @
     replicate 2 (Child 0 0 0) @ replicate 4 (Child 0 1 2)"

lemma departed_run_eval:
  "(case run_forum departed_run forum_start of None \<Rightarrow> False
    | Some s \<Rightarrow> \<not> f_killed s \<and> f_children s ! 1 = Absens \<and> f_children s ! 0 = Loquens 1 \<and>
        length (i_printed (f_inboxes s ! 1)) = 5 \<and> length (q_msgs (i_queue (f_inboxes s ! 1))) = 4 \<and>
        forum_act (Child 0 1 1) s = Some (s\<lparr>f_killed := True\<rparr>))"
  by code_simp

lemma departed_runE:
  obtains s where "forum_step\<^sup>*\<^sup>* forum_start s" "\<not> f_killed s" "f_children s ! 1 = Absens"
    "length (q_msgs (i_queue (f_inboxes s ! 1))) = 4" "forum_act (Child 0 1 1) s = Some (s\<lparr>f_killed := True\<rparr>)"
  using departed_run_eval run_forum_steps [of departed_run forum_start] that
  by (auto split: option.splits)


text \<open>A child that has done its rounds leaves and nobody reads its queue any more. There is a run
  of the forum in which child 1 leaves, four messages to it stay in its queue, and the fifth makes
  \<open>mq_send\<close> fail with \<open>EAGAIN\<close>, which \<open>child_work\<close> takes for an error that kills everybody.\<close>

lemma forum_dies:
  "\<exists>s t. forum_step\<^sup>*\<^sup>* forum_start s \<and> \<not> f_killed s \<and> f_children s ! 1 = Absens \<and>
     length (q_msgs (i_queue (f_inboxes s ! 1))) = MAX_MSG_COUNT \<and> forum_step s t \<and> f_killed t"
proof -
  obtain s where s: "forum_step\<^sup>*\<^sup>* forum_start s" "\<not> f_killed s" "f_children s ! 1 = Absens"
    "length (q_msgs (i_queue (f_inboxes s ! 1))) = 4" "forum_act (Child 0 1 1) s = Some (s\<lparr>f_killed := True\<rparr>)"
    by (rule departed_runE)
  then have "forum_step s (s\<lparr>f_killed := True\<rparr>)" unfolding forum_step_def by blast
  with s show ?thesis by (intro exI [of _ s] exI [of _ "s\<lparr>f_killed := True\<rparr>"]) (simp add: MAX_MSG_COUNT_def)
qed

subsection \<open>The chat\<close>

definition MQ_MSG_COUNT :: nat where "MQ_MSG_COUNT = 10"

text \<open>The server's queue outlives the clients; \<open>ERR\<close> ends only the client's own process group.\<close>

record chat =
  c_inbox :: inbox
  c_serving :: bool
  c_sent :: "string list"
  c_refused :: "string list"
  c_crashed :: bool

definition chat_start :: chat where
  "chat_start = \<lparr>c_inbox = empty_inbox, c_serving = False, c_sent = [], c_refused = [], c_crashed = False\<rparr>"

definition run_client :: "string \<Rightarrow> chat \<Rightarrow> chat" where
  "run_client name c =
     (case deliver MQ_MSG_COUNT (0, name) (c_inbox c) of
        None \<Rightarrow> c\<lparr>c_refused := c_refused c @ [name]\<rparr>
      | Some b \<Rightarrow> c\<lparr>c_inbox := b, c_sent := c_sent c @ [name]\<rparr>)"

definition serve :: "inbox option \<Rightarrow> chat \<Rightarrow> chat" where
  "serve b c = (case b of None \<Rightarrow> c\<lparr>c_crashed := True\<rparr> | Some b \<Rightarrow> c\<lparr>c_inbox := b\<rparr>)"

text \<open>The server starts; a notification; a thread in the loop of \<open>handle_msgs\<close>; a client comes.\<close>

inductive chat_step :: "chat \<Rightarrow> chat \<Rightarrow> bool" where
  run_server: "\<not> c_serving c \<Longrightarrow> chat_step c (serve (handle_enter (c_inbox c)) (c\<lparr>c_serving := True\<rparr>))"
| notify: "c_serving c \<Longrightarrow> handle_notified (c_inbox c) = Some b \<Longrightarrow> chat_step c (serve b c)"
| receive: "c_serving c \<Longrightarrow> handle_loop (c_inbox c) = Some b \<Longrightarrow> chat_step c (serve (Some b) c)"
| client: "chat_step c (run_client name c)"

inductive_cases chat_stepE: "chat_step c d"

definition chat_inv :: "chat \<Rightarrow> bool" where
  "chat_inv c \<longleftrightarrow> \<not> c_crashed c \<and> arrived (c_inbox c) = mset (map (Pair 0) (c_sent c)) \<and>
     (if c_serving c then awake (c_inbox c) else asleep (c_inbox c))"

lemma chat_step_inv: "chat_step c d \<Longrightarrow> chat_inv c \<Longrightarrow> chat_inv d"
proof (induction rule: chat_step.induct)
  case (run_server c)
  then have "asleep (c_inbox c)" by (simp add: chat_inv_def)
  then obtain b where "handle_enter (c_inbox c) = Some b" "awake b" "arrived b = arrived (c_inbox c)"
    using enter_awake by blast
  with run_server show ?case by (simp add: chat_inv_def serve_def)
next
  case (notify c b)
  then have "awake (c_inbox c)" by (simp add: chat_inv_def)
  with notify obtain b' where "b = Some b'" "awake b'" "arrived b' = arrived (c_inbox c)"
    using notified_awake by blast
  with notify show ?case by (simp add: chat_inv_def serve_def)
next
  case (receive c b)
  with loop_awake show ?case by (fastforce simp: chat_inv_def serve_def)
next
  case (client c name)
  then show ?case by (auto simp: chat_inv_def run_client_def dest: deliver_SomeD split: option.split)
qed

lemma chat_inv_start: "chat_inv chat_start"
  by (simp add: chat_inv_def chat_start_def empty_inbox_def arrived_def asleep_def)

interpretation chat_sys: invariant_system "\<lambda>c. c = chat_start" chat_step chat_inv
  by unfold_locales (auto simp: chat_inv_start chat_step_inv)

text \<open>The chat server loses no name. Whatever the clients and the threads of the server do, no
  \<open>mq_notify\<close> of the server fails, the names printed and those in the queue are together the names
  the clients have sent, and while there are names in the queue of a running server a thread is
  inside the loop of \<open>handle_msgs\<close> or a notification is on its way.\<close>

lemma chat_nothing_lost:
  assumes "chat_step\<^sup>*\<^sup>* chat_start c"
  shows "\<not> c_crashed c \<and>
    mset (i_printed (c_inbox c)) + mset (q_msgs (i_queue (c_inbox c))) = mset (map (Pair 0) (c_sent c)) \<and>
    (c_serving c \<longrightarrow> q_msgs (i_queue (c_inbox c)) \<noteq> [] \<longrightarrow>
       0 < i_threads (c_inbox c) \<or> q_events (i_queue (c_inbox c)) = 1)"
proof -
  have "chat_inv c" using assms by (rule chat_sys.inv_reachable [OF refl])
  then show ?thesis unfolding chat_inv_def arrived_def awake_def alert_def by (auto split: if_splits)
qed

lemma chat_nothing_lost_example:
  "mset (map (Pair (0::nat)) (c_sent (run_client ''Ann'' chat_start))) = {#(0, ''Ann'')#}"
  using chat_nothing_lost [OF r_into_rtranclp [of chat_step, OF client [of chat_start "''Ann''"]]]
  by (simp add: run_client_def chat_start_def deliver_def empty_inbox_def mq_send_def MQ_MSG_COUNT_def)

end
