(* ===== verification/Exam.thy ===== *)
theory Exam
  imports Prelude
begin

section \<open>The exam\<close>

text \<open>
  \<open>sop2/lab01/zad03/zad03.c\<close>: a teacher and students with a common pipe to the teacher and a
  personal pipe to each student. A student hands in a record of three numbers in three writes;
  the teacher reads three numbers and answers with one character.
\<close>

definition STAGES :: nat where "STAGES = 4"
definition BUF_SZ :: nat where "BUF_SZ = 256"

definition POINTS :: "nat list" where "POINTS = [3, 6, 7, 5]"

subsection \<open>The roll call\<close>

text \<open>The texts exchanged before the exam; \<open>write\<close> and \<open>read\<close> get the address of the pointer to the
  text instead of the text, and move that many bytes from and to where the eight bytes of the
  pointer lie.\<close>

definition teacher_msg :: "nat \<Rightarrow> string" where
  "teacher_msg pid = ''Teacher: Is ['' @ decimal pid @ ''] here?''"

definition student_msg :: "nat \<Rightarrow> string" where
  "student_msg pid = ''Student ['' @ decimal pid @ '']: HERE''"

definition bytes_past_pointer :: "string \<Rightarrow> nat" where
  "bytes_past_pointer msg = length msg - 8"

text \<open>The transfers on either side, in order, each with its number of bytes and the size of the object
  whose address it gets: \<open>&len\<close> is the address of an \<open>int\<close>, \<open>&msg\<close> and \<open>&buf\<close> that of a pointer.\<close>

datatype roll_io = Put nat nat | Get nat nat

definition call_student :: "nat \<Rightarrow> roll_io list" where
  "call_student pid =
     [Put 4 4, Put (length (teacher_msg pid)) 8, Get 4 4, Get (length (student_msg pid)) 8]"

definition answer_call :: "nat \<Rightarrow> roll_io list" where
  "answer_call pid =
     [Get 4 4, Get (length (teacher_msg pid)) 8, Put 4 4, Put (length (student_msg pid)) 8]"

fun overruns :: "roll_io \<Rightarrow> bool" where
  "overruns (Put n size') = (size' < n)"
| "overruns (Get n size') = (size' < n)"

fun put_bytes :: "roll_io list \<Rightarrow> nat" where
  "put_bytes [] = 0"
| "put_bytes (Put n _ # ios) = n + put_bytes ios"
| "put_bytes (Get n _ # ios) = put_bytes ios"

fun get_bytes :: "roll_io list \<Rightarrow> nat" where
  "get_bytes [] = 0"
| "get_bytes (Put n _ # ios) = get_bytes ios"
| "get_bytes (Get n _ # ios) = n + get_bytes ios"

text \<open>Both sides read all that the other one has written, so the pipes are empty when the exam begins;
  on both sides the two texts overrun their objects.\<close>

lemma roll_call_balanced:
  "put_bytes (call_student pid) = get_bytes (answer_call pid)" "put_bytes (answer_call pid) = get_bytes (call_student pid)"
  "filter overruns (call_student pid) = [Put (length (teacher_msg pid)) 8, Get (length (student_msg pid)) 8]"
  "filter overruns (answer_call pid) = [Get (length (teacher_msg pid)) 8, Put (length (student_msg pid)) 8]"
  by (simp_all add: call_student_def answer_call_def teacher_msg_def student_msg_def)

lemma decimal_length: "n < 10 ^ Suc k \<Longrightarrow> length (decimal n) \<le> Suc k"
proof (induction k arbitrary: n)
  case (Suc k)
  then have "n div 10 < 10 ^ Suc k" by (simp add: less_mult_imp_div_less)
  with Suc.IH [of "n div 10"] show ?case by (subst decimal.simps) simp
qed (simp add: decimal.simps)

text \<open>Every greeting fits its buffer, and every transfer passes the end of the pointer.\<close>

lemma roll_call_overflow:
  assumes "pid < 2 ^ 22"
  shows "length (teacher_msg pid) < BUF_SZ" "length (student_msg pid) < BUF_SZ"
    "0 < bytes_past_pointer (teacher_msg pid)" "0 < bytes_past_pointer (student_msg pid)"
proof -
  have "length (decimal pid) \<le> Suc 6" using assms by (intro decimal_length) simp
  then show "length (teacher_msg pid) < BUF_SZ" "length (student_msg pid) < BUF_SZ"
    by (simp_all add: teacher_msg_def student_msg_def BUF_SZ_def)
qed (simp_all add: bytes_past_pointer_def teacher_msg_def student_msg_def)

subsection \<open>The exam\<close>

text \<open>A student in front of \<open>msleep\<close>; in front of a \<open>write\<close>, with the numbers still to be written; in
  front of \<open>read\<close>; and gone.\<close>

datatype point = Thinking | Writing "nat list" | Waiting | Nailed

record student =
  st_skill :: nat
  st_pid :: nat
  st_stage :: nat
  st_point :: point
  st_answers :: string \<comment> \<open>the personal pipe\<close>

text \<open>The teacher in front of each of the three reads, and behind the loop.\<close>

datatype teacher = ReadId | ReadPid nat | ReadRes nat nat | Finished

record exam =
  x_students :: "student list"
  x_pipe :: "nat list" \<comment> \<open>the common pipe\<close>
  x_stage :: "nat list"
  x_remaining :: nat
  x_teacher :: teacher
  x_crashed :: bool \<comment> \<open>an index is out of bounds\<close>

text \<open>A student from its first result of \<open>rand\<close> and its process number.\<close>

definition new_student :: "nat \<times> nat \<Rightarrow> student" where
  "new_student s = \<lparr>st_skill = fst s mod 7 + 3, st_pid = snd s, st_stage = 0, st_point = Thinking, st_answers = []\<rparr>"

definition exam_start :: "(nat \<times> nat) list \<Rightarrow> exam" where
  "exam_start seeds =
     \<lparr>x_students = map new_student seeds, x_pipe = [], x_stage = replicate (length seeds) 0,
      x_remaining = length seeds, x_teacher = if length seeds > 0 then ReadId else Finished, x_crashed = False\<rparr>"

text \<open>The loop of \<open>child_work\<close>, of student \<open>i\<close>; \<open>q\<close> is a result of \<open>rand\<close>. It gives the student and
  what it writes.\<close>

definition child_work :: "nat \<Rightarrow> nat \<Rightarrow> student \<Rightarrow> (student \<times> nat list) option" where
  "child_work i q s =
     (case st_point s of
        Thinking \<Rightarrow> Some (s\<lparr>st_point := Writing [i, st_pid s, st_skill s + (q mod 20 + 1)]\<rparr>, [])
      | Writing [] \<Rightarrow> Some (s\<lparr>st_point := Waiting\<rparr>, [])
      | Writing (v # vs) \<Rightarrow> Some (s\<lparr>st_point := if vs = [] then Waiting else Writing vs\<rparr>, [v])
      | Waiting \<Rightarrow>
          (case st_answers s of
             [] \<Rightarrow> None
           | is_ok # rest \<Rightarrow>
               (let stage = if is_ok = CHR ''1'' then st_stage s + 1 else st_stage s
                in Some (s\<lparr>st_answers := rest, st_stage := stage,
                           st_point := if stage \<le> 3 then Thinking else Nailed\<rparr>, [])))
      | Nailed \<Rightarrow> None)"

text \<open>The \<open>read\<close> of a number: at the end of the file the variable keeps its 0.\<close>

definition read_int :: "exam \<Rightarrow> (nat \<times> exam) option" where
  "read_int x =
     (case x_pipe x of
        v # vs \<Rightarrow> Some (v, x\<lparr>x_pipe := vs\<rparr>)
      | [] \<Rightarrow> if list_all (\<lambda>s. st_point s = Nailed) (x_students x) then Some (0, x) else None)"

text \<open>What the teacher does with a record; \<open>r\<close> is a result of \<open>rand\<close>.\<close>

definition mark :: "nat \<Rightarrow> nat \<Rightarrow> nat \<Rightarrow> exam \<Rightarrow> exam" where
  "mark r i res x =
     (if length (x_stage x) \<le> i \<or> STAGES \<le> x_stage x ! i then x\<lparr>x_crashed := True\<rparr>
      else
        (let stage = x_stage x ! i;
             passed = POINTS ! stage + r mod 20 + 1 \<le> res;
             remaining = if passed \<and> stage + 1 > 3 then x_remaining x - 1 else x_remaining x;
             is_ok = if passed then CHR ''1'' else CHR ''0'';
             s = x_students x ! i
         in x\<lparr>x_stage := if passed then (x_stage x)[i := stage + 1] else x_stage x,
              x_remaining := remaining,
              x_students := (x_students x)[i := s\<lparr>st_answers := st_answers s @ [is_ok]\<rparr>],
              x_teacher := if remaining > 0 then ReadId else Finished\<rparr>))"

definition parent_work :: "nat \<Rightarrow> exam \<Rightarrow> exam option" where
  "parent_work r x =
     (case x_teacher x of
        ReadId \<Rightarrow> map_option (\<lambda>(v, x). x\<lparr>x_teacher := ReadPid v\<rparr>) (read_int x)
      | ReadPid i \<Rightarrow> map_option (\<lambda>(v, x). x\<lparr>x_teacher := ReadRes i v\<rparr>) (read_int x)
      | ReadRes i pid \<Rightarrow> map_option (\<lambda>(v, x). mark r i v x) (read_int x)
      | Finished \<Rightarrow> None)"

datatype act = Student nat nat | Teacher nat

fun exam_act :: "act \<Rightarrow> exam \<Rightarrow> exam option" where
  "exam_act (Student i q) x =
     (if i < length (x_students x)
      then map_option (\<lambda>(s, out). x\<lparr>x_students := (x_students x)[i := s], x_pipe := x_pipe x @ out\<rparr>)
             (child_work i q (x_students x ! i))
      else None)"
| "exam_act (Teacher r) x = parent_work r x"

definition exam_step :: "exam \<Rightarrow> exam \<Rightarrow> bool" where
  "exam_step x y \<longleftrightarrow> \<not> x_crashed x \<and> (\<exists>a. exam_act a x = Some y)"

fun run_exam :: "act list \<Rightarrow> exam \<Rightarrow> exam option" where
  "run_exam [] x = Some x"
| "run_exam (a # as) x =
     (if x_crashed x then None else case exam_act a x of None \<Rightarrow> None | Some y \<Rightarrow> run_exam as y)"


lemma run_exam_steps: "run_exam as x = Some y \<Longrightarrow> exam_step\<^sup>*\<^sup>* x y"
proof (induction as arbitrary: x)
  case (Cons a as)
  then obtain u where "\<not> x_crashed x" "exam_act a x = Some u" "run_exam as u = Some y"
    by (auto split: option.splits if_splits)
  then have "exam_step x u" "exam_step\<^sup>*\<^sup>* u y" using Cons.IH unfolding exam_step_def by blast+
  then show ?case by (rule converse_rtranclp_into_rtranclp)
qed simp

subsection \<open>Orderly exams\<close>

text \<open>
  The three writes of a record are not one. An exam is orderly as long as at most one student is
  in the middle of a record; with one student every exam is.
\<close>

fun midway :: "point \<Rightarrow> bool" where
  "midway (Writing vs) = (length vs < 3)" | "midway _ = False"

definition orderly :: "exam \<Rightarrow> bool" where
  "orderly x \<longleftrightarrow> length (filter (\<lambda>s. midway (st_point s)) (x_students x)) \<le> 1"

definition orderly_step :: "exam \<Rightarrow> exam \<Rightarrow> bool" where
  "orderly_step x y \<longleftrightarrow> exam_step x y \<and> orderly y"

text \<open>The numbers the teacher has read of the current record, and the record of a student.\<close>

fun held :: "teacher \<Rightarrow> nat list" where
  "held ReadId = []" | "held (ReadPid i) = [i]" | "held (ReadRes i p) = [i, p]" | "held Finished = []"

definition record_of :: "student list \<Rightarrow> nat \<times> nat \<Rightarrow> nat list" where
  "record_of ss ir = [fst ir, st_pid (ss ! fst ir), snd ir]"

text \<open>
  One student, its stage in the teacher's table, whether a record of it is waiting in full, and the
  unfinished record at the end of the pipe.
\<close>

definition desk_ok :: "nat list \<Rightarrow> nat \<Rightarrow> student \<Rightarrow> nat \<Rightarrow> bool \<Rightarrow> bool" where
  "desk_ok part i s stage queued \<longleftrightarrow>
     (case st_point s of
        Thinking \<Rightarrow> \<not> queued \<and> st_answers s = [] \<and> stage = st_stage s \<and> stage < STAGES
      | Writing vs \<Rightarrow> \<not> queued \<and> st_answers s = [] \<and> stage = st_stage s \<and> stage < STAGES \<and>
          (\<exists>res. vs = [i, st_pid s, res] \<or> part @ vs = [i, st_pid s, res] \<and> part \<noteq> [] \<and> vs \<noteq> [])
      | Waiting \<Rightarrow> st_stage s < STAGES \<and>
          (if queued then st_answers s = [] \<and> stage = st_stage s
           else st_answers s = ''1'' \<and> stage = st_stage s + 1 \<or> st_answers s = ''0'' \<and> stage = st_stage s)
      | Nailed \<Rightarrow> \<not> queued \<and> st_answers s = [] \<and> stage = STAGES \<and> st_stage s = STAGES)"

definition exam_inv_for :: "nat \<Rightarrow> (nat \<times> nat) list \<Rightarrow> nat list \<Rightarrow> exam \<Rightarrow> bool" where
  "exam_inv_for n order part x \<longleftrightarrow> \<not> x_crashed x \<and> length (x_students x) = n \<and> length (x_stage x) = n \<and>
     x_remaining x = length (filter (\<lambda>s. s < STAGES) (x_stage x)) \<and>
     (x_teacher x = Finished \<longleftrightarrow> x_remaining x = 0) \<and> orderly x \<and>
     distinct (map fst order) \<and> (\<forall>ir \<in> set order. fst ir < n) \<and>
     held (x_teacher x) @ x_pipe x = concat (map (record_of (x_students x)) order) @ part \<and>
     length part < 3 \<and> (part \<noteq> [] \<longrightarrow> (\<exists>i < n. midway (st_point (x_students x ! i)))) \<and>
     (\<forall>i < n. desk_ok part i (x_students x ! i) (x_stage x ! i) (i \<in> fst ` set order))"

definition exam_inv :: "nat \<Rightarrow> exam \<Rightarrow> bool" where
  "exam_inv n x \<longleftrightarrow> (\<exists>order part. exam_inv_for n order part x)"

lemma exam_inv_start: "exam_inv (length seeds) (exam_start seeds)"
proof -
  have "exam_inv_for (length seeds) [] [] (exam_start seeds)"
    by (simp add: exam_inv_for_def exam_start_def orderly_def new_student_def STAGES_def filter_map o_def desk_ok_def)
  then show ?thesis unfolding exam_inv_def by blast
qed

lemma record_of_update:
  "st_pid s = st_pid (ss ! i) \<Longrightarrow> record_of (ss[i := s]) ir = record_of ss ir"
  by (cases "i < length ss") (auto simp: record_of_def nth_list_update list_update_beyond)

lemma desk_not_midway: "desk_ok part i s stage queued \<Longrightarrow> \<not> midway (st_point s) \<Longrightarrow> desk_ok part' i s stage queued"
proof (cases "st_point s")
  case (Writing vs)
  assume d: "desk_ok part i s stage queued" "\<not> midway (st_point s)"
  have "\<not> (part @ vs = [i, st_pid s, res] \<and> part \<noteq> [] \<and> vs \<noteq> [])" for res
  proof
    assume a: "part @ vs = [i, st_pid s, res] \<and> part \<noteq> [] \<and> vs \<noteq> []"
    then have "length part + length vs = 3" by (metis length_append list.size(3,4) add_Suc_right numeral_3_eq_3 add_0_right plus_1_eq_Suc)
    with a d(2) Writing show False by (cases part) simp_all
  qed
  with d Writing show ?thesis by (auto simp: desk_ok_def)
qed (auto simp: desk_ok_def)

lemma midways: "length (filter P xs) \<le> 1 \<Longrightarrow> i < length xs \<Longrightarrow> j < length xs \<Longrightarrow> P (xs ! i) \<Longrightarrow> P (xs ! j) \<Longrightarrow> i = j"
proof (induction xs arbitrary: i j)
  case (Cons x xs)
  have no: "P x \<Longrightarrow> k < length xs \<Longrightarrow> \<not> P (xs ! k)" for k
    using Cons.prems(1) by (simp add: filter_empty_conv)
  have "length (filter P xs) \<le> 1" using Cons.prems(1) by (simp split: if_splits)
  with Cons.IH Cons.prems no show ?case by (cases i; cases j) fastforce+
qed simp

text \<open>A step of a student that leaves the teacher's table alone.\<close>

lemma student_inv:
  assumes inv: "exam_inv_for n order part x" and i: "i < n" and pid: "st_pid s = st_pid (x_students x ! i)"
    and y: "y = x\<lparr>x_students := (x_students x)[i := s], x_pipe := x_pipe x @ out\<rparr>" and ord: "orderly y"
    and stream: "concat (map (record_of (x_students x)) order) @ part @ out =
      concat (map (record_of (x_students x)) order') @ part'"
    and order: "distinct (map fst order')" "fst ` set order' - {i} = fst ` set order - {i}"
    and part: "length part' < 3" "part' \<noteq> [] \<longrightarrow> (\<exists>j < n. midway (st_point ((x_students x)[i := s] ! j)))"
    and same: "part' = part \<or> (\<forall>j < n. j \<noteq> i \<longrightarrow> \<not> midway (st_point (x_students x ! j)))"
    and desk: "desk_ok part' i s (x_stage x ! i) (i \<in> fst ` set order')"
  shows "exam_inv_for n order' part' y"
proof -
  note I = inv [unfolded exam_inv_for_def]
  have desks: "desk_ok part' j ((x_students x)[i := s] ! j) (x_stage x ! j) (j \<in> fst ` set order')" if j: "j < n" for j
  proof (cases "j = i")
    case True
    with desk I i show ?thesis by simp
  next
    case False
    have q: "j \<in> fst ` set order' \<longleftrightarrow> j \<in> fst ` set order" using order(2) False by blast
    have d: "desk_ok part j (x_students x ! j) (x_stage x ! j) (j \<in> fst ` set order)" using I j by blast
    have "desk_ok part' j (x_students x ! j) (x_stage x ! j) (j \<in> fst ` set order)"
    proof (cases "part' = part")
      case False
      then have "\<not> midway (st_point (x_students x ! j))" using same j \<open>j \<noteq> i\<close> by blast
      with d show ?thesis by (rule desk_not_midway)
    qed (use d in simp)
    with False q show ?thesis by simp
  qed
  have rec: "map (record_of ((x_students x)[i := s])) ord = map (record_of (x_students x)) ord" for ord
    using record_of_update [OF pid] by simp
  have sub: "\<forall>k \<in> fst ` set order. k < n" using I by blast
  have "\<forall>k \<in> fst ` set order'. k < n"
  proof
    fix k assume "k \<in> fst ` set order'"
    then have "k = i \<or> k \<in> fst ` set order" using order(2) by blast
    then show "k < n" using sub i by blast
  qed
  then have "\<forall>ir \<in> set order'. fst ir < n" by blast
  moreover have "held (x_teacher x) @ x_pipe x @ out = concat (map (record_of (x_students x)) order') @ part'"
    using I stream by (metis append.assoc)
  ultimately show ?thesis using I ord order(1) part desks i unfolding y exam_inv_for_def by (simp add: rec)
qed


lemma orderly_others:
  assumes "orderly x" "i < length (x_students x)" "midway (st_point (x_students x ! i))"
  shows "\<forall>j < length (x_students x). j \<noteq> i \<longrightarrow> \<not> midway (st_point (x_students x ! j))"
  using midways [OF assms(1) [unfolded orderly_def] _ assms(2) _ assms(3)] by blast

lemma exam_student_inv:
  assumes inv: "exam_inv_for n order part x" and i: "i < n"
    and work: "child_work i q (x_students x ! i) = Some (s, out)"
    and y: "y = x\<lparr>x_students := (x_students x)[i := s], x_pipe := x_pipe x @ out\<rparr>" and ord: "orderly y"
  shows "exam_inv n y"
proof -
  note I = inv [unfolded exam_inv_for_def]
  let ?s = "x_students x ! i"
  note desk = I [THEN conjunct2, THEN conjunct2, THEN conjunct2, THEN conjunct2, THEN conjunct2, THEN conjunct2,
      THEN conjunct2, THEN conjunct2, THEN conjunct2, THEN conjunct2, THEN conjunct2, rule_format, OF i]
  have other: "part \<noteq> [] \<longrightarrow> (\<exists>j < n. midway (st_point ((x_students x)[i := s'] ! j)))" if "\<not> midway (st_point ?s)" for s'
  proof
    assume "part \<noteq> []"
    with I obtain j where "j < n" "midway (st_point (x_students x ! j))" by blast
    moreover from this that have "j \<noteq> i" by blast
    ultimately show "\<exists>j < n. midway (st_point ((x_students x)[i := s'] ! j))" by (intro exI [of _ j]) simp
  qed
  note go = student_inv [OF inv i _ y ord]
  have len: "length (x_students x) = n" using I by blast
  show ?thesis
  proof (cases "st_point ?s")
    case Thinking
    with work have s: "s = ?s\<lparr>st_point := Writing [i, st_pid ?s, st_skill ?s + (q mod 20 + 1)]\<rparr>" "out = []"
      by (auto simp: child_work_def)
    have "exam_inv_for n order part y"
      by (rule go) (use s I other [of s] Thinking desk in \<open>auto simp: desk_ok_def\<close>)
    then show ?thesis unfolding exam_inv_def by blast
  next
    case (Writing ws)
    show ?thesis
    proof (cases ws)
      case Nil
      with Writing desk show ?thesis by (auto simp: desk_ok_def)
    next
      case (Cons v vs)
      have s: "s = ?s\<lparr>st_point := if vs = [] then Waiting else Writing vs\<rparr>" "out = [v]"
        using work Writing Cons by (auto simp: child_work_def)
      have free: "i \<notin> fst ` set order" "st_answers ?s = []" "x_stage x ! i = st_stage ?s" "st_stage ?s < STAGES"
        using desk Writing by (auto simp: desk_ok_def)
      obtain res where "v # vs = [i, st_pid ?s, res] \<or> part @ v # vs = [i, st_pid ?s, res] \<and> part \<noteq> []"
        using desk Writing Cons by (auto simp: desk_ok_def)
      then show ?thesis
      proof
        assume full: "v # vs = [i, st_pid ?s, res]"
        then have mid: "midway (st_point s)" using s by simp
        have quiet: "\<forall>j < n. j \<noteq> i \<longrightarrow> \<not> midway (st_point (x_students x ! j))"
          using orderly_others [OF ord, of i] mid i len by (simp add: y)
        moreover have "\<not> midway (st_point ?s)" using full Writing Cons by simp
        ultimately have none: "part = []" using I by blast
        have "exam_inv_for n order [i] y"
          by (rule go) (use s full none quiet mid free I i len in \<open>auto simp: desk_ok_def\<close>)
        then show ?thesis unfolding exam_inv_def by blast
      next
        assume rest: "part @ v # vs = [i, st_pid ?s, res] \<and> part \<noteq> []"
        then have lens: "length part + length vs = 2" by (metis length_append list.size(3,4) add_Suc_right numeral_2_eq_2 add_0_right Suc_inject plus_1_eq_Suc)
        then have short: "length vs < 2" using rest by (cases part) auto
        then have "midway (st_point ?s)" using Writing Cons by simp
        then have quiet: "\<forall>j < n. j \<noteq> i \<longrightarrow> \<not> midway (st_point (x_students x ! j))"
          using orderly_others [of x i] I i len by blast
        show ?thesis
        proof (cases "vs = []")
          case True
          have "exam_inv_for n (order @ [(i, res)]) [] y"
            by (rule go) (use s True rest quiet free I i in \<open>auto simp: desk_ok_def record_of_def\<close>)
          then show ?thesis unfolding exam_inv_def by blast
        next
          case False
          have mid: "midway (st_point s)" using s False short by simp
          have short': "length (part @ [v]) < 3" using lens False by (cases vs) auto
          have "desk_ok (part @ [v]) i s (x_stage x ! i) (i \<in> fst ` set order)"
            using s False rest free by (auto simp: desk_ok_def)
          then have "exam_inv_for n order (part @ [v]) y"
            by (intro go) (use s mid quiet short' I i len in auto)
          then show ?thesis unfolding exam_inv_def by blast
        qed
      qed
    qed
  next
    case Waiting
    then obtain a as where a: "st_answers ?s = a # as" using work by (auto simp: child_work_def split: list.splits)
    have s: "out = []" "s = ?s\<lparr>st_answers := as, st_stage := if a = CHR ''1'' then st_stage ?s + 1 else st_stage ?s,
        st_point := if (if a = CHR ''1'' then st_stage ?s + 1 else st_stage ?s) \<le> 3 then Thinking else Nailed\<rparr>"
      using work Waiting a by (auto simp: child_work_def Let_def)
    have free: "i \<notin> fst ` set order" "as = []" "st_stage ?s < STAGES"
      "x_stage x ! i = (if a = CHR ''1'' then st_stage ?s + 1 else st_stage ?s)"
      using desk Waiting a by (auto simp: desk_ok_def split: if_splits)
    then have "desk_ok part i s (x_stage x ! i) (i \<in> fst ` set order)" by (simp add: desk_ok_def s STAGES_def)
    then have "exam_inv_for n order part y"
      by (intro go) (use s I other [of s] Waiting in auto)
    then show ?thesis unfolding exam_inv_def by blast
  qed (use work in \<open>simp add: child_work_def\<close>)
qed


lemma orderly_points: "map st_point (x_students x) = map st_point (x_students y) \<Longrightarrow> orderly x = orderly y"
proof -
  have "orderly z = (length (filter midway (map st_point (x_students z))) \<le> 1)" for z
    by (simp add: orderly_def filter_map o_def)
  then show "map st_point (x_students x) = map st_point (x_students y) \<Longrightarrow> orderly x = orderly y" by (simp only:)
qed

lemma exam_read:
  assumes inv: "exam_inv_for n order part x" and t: "x_teacher x \<noteq> Finished" and r: "read_int x = Some (v, z)"
  obtains vs where "x_pipe x = v # vs" "z = x\<lparr>x_pipe := vs\<rparr>"
proof (cases "x_pipe x")
  case Nil
  note I = inv [unfolded exam_inv_for_def]
  have "filter (\<lambda>s. s < STAGES) (x_stage x) \<noteq> []" using I t by auto
  then obtain k where "k < n" "x_stage x ! k < STAGES" using I by (auto simp: filter_empty_conv in_set_conv_nth)
  moreover have "desk_ok part k (x_students x ! k) (x_stage x ! k) (k \<in> fst ` set order)" using I \<open>k < n\<close> by blast
  ultimately have "st_point (x_students x ! k) \<noteq> Nailed" by (auto simp: desk_ok_def)
  moreover have "list_all (\<lambda>s. st_point s = Nailed) (x_students x)" using r Nil by (auto simp: read_int_def split: if_splits)
  ultimately show ?thesis using \<open>k < n\<close> I by (simp add: list_all_length)
next
  case (Cons w vs)
  with r that show ?thesis by (simp add: read_int_def)
qed

lemma exam_read_inv:
  assumes inv: "exam_inv_for n order part x" and t: "x_teacher x \<noteq> Finished" "t \<noteq> Finished"
    and p: "x_pipe x = v # vs" and h: "held t = held (x_teacher x) @ [v]"
  shows "exam_inv n (x\<lparr>x_pipe := vs, x_teacher := t\<rparr>)"
proof -
  have ord: "orderly (x\<lparr>x_pipe := vs, x_teacher := t\<rparr>) = orderly x" by (rule orderly_points) simp
  have "exam_inv_for n order part (x\<lparr>x_pipe := vs, x_teacher := t\<rparr>)"
    using inv t p h unfolding exam_inv_for_def ord by auto
  then show ?thesis unfolding exam_inv_def by blast
qed

lemma exam_mark_inv:
  assumes inv: "exam_inv_for n order part x" and t: "x_teacher x = ReadRes i pid" and p: "x_pipe x = v # vs"
  shows "exam_inv n (mark r i v (x\<lparr>x_pipe := vs\<rparr>))"
proof -
  note I = inv [unfolded exam_inv_for_def]
  have "order \<noteq> []" using I t p by auto
  then obtain k res order' where o: "order = (k, res) # order'" by (cases order) auto
  then have rec: "i = k" "v = res" "vs = concat (map (record_of (x_students x)) order') @ part"
    using I t p by (auto simp: record_of_def)
  let ?s = "x_students x ! i"
  have i: "i < n" "i \<notin> fst ` set order'" using I o rec by auto
  have "desk_ok part i ?s (x_stage x ! i) True" using I i(1) o rec(1) by force
  then have s: "st_point ?s = Waiting" "st_stage ?s < STAGES" "st_answers ?s = []" "x_stage x ! i = st_stage ?s"
    by (auto simp: desk_ok_def split: point.splits)
  define passed where "passed \<longleftrightarrow> POINTS ! st_stage ?s + r mod 20 + 1 \<le> v"
  define s' where "s' = ?s\<lparr>st_answers := if passed then ''1'' else ''0''\<rparr>"
  define stage where "stage = (if passed then (x_stage x)[i := st_stage ?s + 1] else x_stage x)"
  define remaining where "remaining = (if passed \<and> st_stage ?s + 1 > 3 then x_remaining x - 1 else x_remaining x)"
  define y where "y = x\<lparr>x_pipe := vs, x_stage := stage, x_remaining := remaining,
    x_students := (x_students x)[i := s'], x_teacher := if remaining > 0 then ReadId else Finished\<rparr>"
  have y: "mark r i v (x\<lparr>x_pipe := vs\<rparr>) = y"
    using s I i by (simp add: mark_def Let_def y_def passed_def s'_def stage_def remaining_def)
  have pts: "map st_point ((x_students x)[i := s']) = map st_point (x_students x)"
    using s by (simp add: map_update s'_def) (metis list_update_id map_update)
  have "orderly y = orderly x" by (rule orderly_points) (use pts in \<open>simp add: y_def\<close>)
  moreover have "length (filter (\<lambda>s. s < STAGES) stage) = remaining"
    using length_filter_update [of i "x_stage x" "\<lambda>s. s < STAGES" "st_stage ?s + 1"] s i I
    by (auto simp: stage_def remaining_def STAGES_def split: if_splits)
  moreover have "concat (map (record_of ((x_students x)[i := s'])) order') = concat (map (record_of (x_students x)) order')"
  proof -
    have "st_pid s' = st_pid ?s" by (simp add: s'_def)
    then have "record_of ((x_students x)[i := s']) = record_of (x_students x)" by (intro ext record_of_update)
    then show ?thesis by (simp only:)
  qed
  moreover have "desk_ok part j ((x_students x)[i := s'] ! j) (stage ! j) (j \<in> fst ` set order')" if j: "j < n" for j
  proof (cases "j = i")
    case True
    then show ?thesis using s i I by (simp add: s'_def stage_def desk_ok_def)
  next
    case False
    have "desk_ok part j (x_students x ! j) (x_stage x ! j) (j \<in> fst ` set order)" using I j by blast
    with False o rec(1) show ?thesis by (simp add: stage_def)
  qed
  moreover have "part \<noteq> [] \<longrightarrow> (\<exists>j < n. midway (st_point ((x_students x)[i := s'] ! j)))"
    using I pts by (metis (no_types, lifting) length_list_update nth_map)
  ultimately have "exam_inv_for n order' part y"
    using I o rec(3) unfolding exam_inv_for_def by (simp add: y_def stage_def)
  then show ?thesis unfolding y exam_inv_def by blast
qed

lemma orderly_step_inv: "exam_inv n x \<Longrightarrow> orderly_step x y \<Longrightarrow> exam_inv n y"
proof -
  assume "exam_inv n x" "orderly_step x y"
  then obtain order part a where inv: "exam_inv_for n order part x" and a: "exam_act a x = Some y" and ord: "orderly y"
    by (auto simp: exam_inv_def orderly_step_def exam_step_def)
  show ?thesis
  proof (cases a)
    case (Student i q)
    have "length (x_students x) = n" using inv by (simp add: exam_inv_for_def)
    with Student a obtain s out where "i < n" "child_work i q (x_students x ! i) = Some (s, out)"
      "y = x\<lparr>x_students := (x_students x)[i := s], x_pipe := x_pipe x @ out\<rparr>" by (auto split: if_splits)
    with exam_student_inv [OF inv] ord show ?thesis by blast
  next
    case (Teacher r)
    with a have w: "parent_work r x = Some y" by simp
    show ?thesis
    proof (cases "x_teacher x")
      case ReadId
      with w obtain v z where "read_int x = Some (v, z)" "y = z\<lparr>x_teacher := ReadPid v\<rparr>" by (auto simp: parent_work_def)
      with exam_read [OF inv] exam_read_inv [OF inv, of "ReadPid v" v] ReadId show ?thesis by fastforce
    next
      case (ReadPid i)
      with w obtain v z where "read_int x = Some (v, z)" "y = z\<lparr>x_teacher := ReadRes i v\<rparr>" by (auto simp: parent_work_def)
      with exam_read [OF inv] exam_read_inv [OF inv, of "ReadRes i v" v] ReadPid show ?thesis by fastforce
    next
      case (ReadRes i pid)
      with w obtain v z where "read_int x = Some (v, z)" "y = mark r i v z" by (auto simp: parent_work_def)
      with exam_read [OF inv] exam_mark_inv [OF inv ReadRes] ReadRes show ?thesis by fastforce
    qed (use w in \<open>simp add: parent_work_def\<close>)
  qed
qed

interpretation exam_sys: invariant_system "\<lambda>x. x = exam_start seeds" orderly_step "exam_inv (length seeds)" for seeds
  by unfold_locales (auto simp: exam_inv_start intro: orderly_step_inv)


subsection \<open>Progress\<close>

lemma orderly_student_step:
  assumes "\<not> x_crashed x" "i < length (x_students x)" "child_work i 0 (x_students x ! i) = Some (s, out)"
    and mid: "midway (st_point s) \<longrightarrow> (\<forall>j < length (x_students x). j \<noteq> i \<longrightarrow> \<not> midway (st_point (x_students x ! j)))"
    and ord: "orderly x"
  shows "\<exists>y. orderly_step x y"
proof -
  let ?y = "x\<lparr>x_students := (x_students x)[i := s], x_pipe := x_pipe x @ out\<rparr>"
  have "exam_act (Student i 0) x = Some ?y" using assms by simp
  then have step: "exam_step x ?y" using assms(1) unfolding exam_step_def by blast
  let ?P = "\<lambda>s. midway (st_point s)"
  have len: "length (filter ?P (x_students ?y)) + (if ?P (x_students x ! i) then 1 else 0) =
      length (filter ?P (x_students x)) + (if ?P s then 1 else 0)"
    using length_filter_update [OF assms(2), of ?P s] by simp
  have "length (filter ?P (x_students x)) = 0" if "?P s" "\<not> ?P (x_students x ! i)"
    using mid that by (auto simp: filter_empty_conv in_set_conv_nth)
  with len ord have "orderly ?y" unfolding orderly_def by (auto split: if_splits)
  with step show ?thesis unfolding orderly_step_def by blast
qed

lemma mark_points: "map st_point (x_students (mark r i v x)) = map st_point (x_students x)"
proof -
  have "map st_point (ss[i := (ss ! i)\<lparr>st_answers := a\<rparr>]) = map st_point ss" for ss :: "student list" and a
    by (cases "i < length ss") (auto simp: map_update list_update_same_conv list_update_beyond)
  then show ?thesis by (simp add: mark_def Let_def)
qed

lemma exam_progress:
  assumes "exam_inv n x"
  shows "x_teacher x = Finished \<and> list_all (\<lambda>s. st_point s = Nailed) (x_students x) \<or> (\<exists>y. orderly_step x y)"
proof -
  obtain order part where inv: "exam_inv_for n order part x" using assms by (auto simp: exam_inv_def)
  note I = inv [unfolded exam_inv_for_def]
  have len: "length (x_students x) = n" and live: "\<not> x_crashed x" and ord: "orderly x" using I by auto
  have desk: "desk_ok part i (x_students x ! i) (x_stage x ! i) (i \<in> fst ` set order)" if "i < n" for i using I that by blast
  show ?thesis
  proof (cases "\<exists>i < n. midway (st_point (x_students x ! i))")
    case True
    then obtain i where i: "i < n" "midway (st_point (x_students x ! i))" by blast
    then obtain vs where p: "st_point (x_students x ! i) = Writing vs" by (cases "st_point (x_students x ! i)") auto
    then obtain s out where "child_work i 0 (x_students x ! i) = Some (s, out)" by (cases vs) (auto simp: child_work_def)
    then show ?thesis using orderly_student_step [OF live _ _ _ ord] i len orderly_others [OF ord] by metis
  next
    case None: False
    then have none: "part = []" using I by blast
    show ?thesis
    proof (cases "\<exists>i < n. st_point (x_students x ! i) = Thinking \<or> (\<exists>vs. st_point (x_students x ! i) = Writing vs) \<or>
        st_point (x_students x ! i) = Waiting \<and> i \<notin> fst ` set order")
      case True
      then obtain i where i: "i < n" and p: "st_point (x_students x ! i) = Thinking \<or> (\<exists>vs. st_point (x_students x ! i) = Writing vs) \<or>
        st_point (x_students x ! i) = Waiting \<and> i \<notin> fst ` set order" by blast
      have "\<exists>s out. child_work i 0 (x_students x ! i) = Some (s, out)"
      proof (cases "st_point (x_students x ! i)")
        case (Writing vs)
        then show ?thesis by (cases vs) (auto simp: child_work_def)
      next
        case Waiting
        then have "st_answers (x_students x ! i) \<noteq> []" using p desk [OF i] by (auto simp: desk_ok_def)
        with Waiting show ?thesis by (auto simp: child_work_def Let_def split: list.split)
      qed (use p in \<open>auto simp: child_work_def\<close>)
      then show ?thesis using orderly_student_step [OF live _ _ _ ord] i len None by metis
    next
      case False
      then have rest: "st_point (x_students x ! i) = Nailed \<or> st_point (x_students x ! i) = Waiting \<and> i \<in> fst ` set order" if "i < n" for i
        using that by (cases "st_point (x_students x ! i)") auto
      show ?thesis
      proof (cases "order = []")
        case True
        then have nailed: "st_point (x_students x ! i) = Nailed" if "i < n" for i using rest [OF that] by simp
        then have "x_stage x ! i = STAGES" if "i < n" for i using desk [OF that] that by (simp add: desk_ok_def)
        then have "x_remaining x = 0" using I by (auto simp: filter_empty_conv in_set_conv_nth)
        then show ?thesis using nailed I len by (simp add: list_all_length)
      next
        case False
        then obtain i where i: "i \<in> fst ` set order" "i < n" using I by (cases order) auto
        then have "st_stage (x_students x ! i) < STAGES \<and> x_stage x ! i = st_stage (x_students x ! i)"
          using desk [OF i(2)] by (auto simp: desk_ok_def split: point.splits)
        moreover have "x_stage x ! i \<in> set (x_stage x)" using I i by simp
        ultimately have "filter (\<lambda>s. s < STAGES) (x_stage x) \<noteq> []" by (auto simp: filter_empty_conv)
        then have "x_teacher x \<noteq> Finished" using I by auto
        have "3 \<le> length (held (x_teacher x) @ x_pipe x)" using I False none by (cases order) (auto simp: record_of_def)
        moreover have "length (held (x_teacher x)) < 3" by (cases "x_teacher x") auto
        ultimately obtain v vs where v: "x_pipe x = v # vs" by (cases "x_pipe x") auto
        then obtain y where y: "parent_work 0 x = Some y" and pts: "map st_point (x_students y) = map st_point (x_students x)"
          using \<open>x_teacher x \<noteq> Finished\<close>
          by (cases "x_teacher x") (auto simp: parent_work_def read_int_def mark_points)
        have "exam_act (Teacher 0) x = Some y" using y by simp
        then have "exam_step x y" using live unfolding exam_step_def by blast
        then show ?thesis using orderly_points [OF pts] ord unfolding orderly_step_def by blast
      qed
    qed
  qed
qed


subsection \<open>Properties\<close>

text \<open>
  C16: the exam, as long as no record is begun while another one is unfinished (which is no
  restriction for one student). In every interleaving the teacher's indices are in bounds; a
  student's stage and the teacher's agree, up to an answer on its way that says the difference;
  a student leaves exactly when it has passed all stages; the teacher's count is the number of
  students with stages left; and until all have left, the exam can go on in order.
\<close>

theorem exam_in_order:
  assumes run: "orderly_step\<^sup>*\<^sup>* (exam_start seeds) x"
  shows "\<not> x_crashed x \<and>
    (\<forall>i < length seeds. let s = x_students x ! i in
       x_stage x ! i = st_stage s + (if st_answers s = ''1'' then 1 else 0) \<and>
       (st_point s = Nailed \<longleftrightarrow> st_stage s = STAGES)) \<and>
    x_remaining x = length (filter (\<lambda>s. s < STAGES) (x_stage x)) \<and>
    (x_teacher x = Finished \<and> list_all (\<lambda>s. st_point s = Nailed) (x_students x) \<or> (\<exists>y. orderly_step x y))"
proof -
  have inv: "exam_inv (length seeds) x" using exam_sys.inv_reachable [OF refl run] .
  then obtain order part where I: "exam_inv_for (length seeds) order part x" by (auto simp: exam_inv_def)
  have "x_stage x ! i = st_stage s + (if st_answers s = ''1'' then 1 else 0) \<and> (st_point s = Nailed \<longleftrightarrow> st_stage s = STAGES)"
    if i: "i < length seeds" and s: "s = x_students x ! i" for i s
  proof -
    have "desk_ok part i s (x_stage x ! i) (i \<in> fst ` set order)" using I i unfolding s exam_inv_for_def by blast
    then show ?thesis by (cases "st_point s") (auto simp: desk_ok_def split: if_splits)
  qed
  then show ?thesis using I exam_progress [OF inv] by (simp add: exam_inv_for_def Let_def)
qed

lemma one_student_orderly: "length (x_students x) = 1 \<Longrightarrow> orderly x"
  by (cases "x_students x") (auto simp: orderly_def)

text \<open>With two students the exam can go wrong. There is an interleaving in which both are in the
  middle of a record, the teacher takes a process number for a result and then a result for the
  number of a student, and reads and writes outside its tables.\<close>

definition garbled_run :: "act list" where
  "garbled_run = [Student 0 0, Student 1 0, Student 0 0, Student 1 0, Student 0 0, Student 0 0, Student 1 0, Student 1 0,
     Teacher 0, Teacher 0, Teacher 0, Teacher 0, Teacher 0, Teacher 0]"

lemma garbled_run_eval:
  "(case run_exam garbled_run (exam_start [(0, 30), (0, 31)]) of None \<Rightarrow> False
    | Some x \<Rightarrow> x_crashed x \<and> x_teacher x = ReadRes 4 31 \<and> length (x_stage x) = 2)"
  by code_simp

lemma exam_garbled:
  "\<exists>x. exam_step\<^sup>*\<^sup>* (exam_start [(0, 30), (0, 31)]) x \<and> x_crashed x \<and>
     (\<exists>i pid. x_teacher x = ReadRes i pid \<and> length (x_stage x) \<le> i)"
proof -
  obtain x where x: "run_exam garbled_run (exam_start [(0, 30), (0, 31)]) = Some x" "x_crashed x"
    "x_teacher x = ReadRes 4 31" "length (x_stage x) = 2"
    using garbled_run_eval by (auto split: option.splits)
  with run_exam_steps [OF x(1)] show ?thesis by (intro exI [of _ x]) auto
qed

text \<open>A student that passes all stages.\<close>

definition lucky_run :: "act list" where
  "lucky_run = concat (replicate 4 [Student 0 19, Student 0 0, Student 0 0, Student 0 0, Teacher 0, Teacher 0, Teacher 0, Student 0 0])"

lemma lucky_run_eval:
  "(case run_exam lucky_run (exam_start [(0, 7)]) of None \<Rightarrow> False
    | Some x \<Rightarrow> map st_point (x_students x) = [Nailed] \<and> x_teacher x = Finished)"
  by code_simp

lemma one_student_run: "exam_step\<^sup>*\<^sup>* (exam_start [s]) x \<Longrightarrow> orderly_step\<^sup>*\<^sup>* (exam_start [s]) x \<and> length (x_students x) = 1"
proof (induction rule: rtranclp_induct)
  case (step x y)
  then obtain a where a: "exam_act a x = Some y" by (auto simp: exam_step_def)
  have "length (x_students (mark r i v z)) = length (x_students z)" for r i v z by (simp add: mark_def Let_def)
  with a have "length (x_students y) = length (x_students x)"
    by (cases a; cases "x_teacher x") (auto simp: parent_work_def read_int_def split: if_splits list.splits)
  with step have "orderly_step x y" "length (x_students y) = 1" by (auto simp: orderly_step_def one_student_orderly)
  with step.IH show ?case by (auto intro: rtranclp.rtrancl_into_rtrancl)
qed (simp add: exam_start_def)

theorem exam_in_order_witness:
  "\<exists>x. exam_step\<^sup>*\<^sup>* (exam_start [(0, 7)]) x \<and> map st_point (x_students x) = [Nailed] \<and> st_stage (x_students x ! 0) = STAGES"
proof -
  obtain x where x: "run_exam lucky_run (exam_start [(0, 7)]) = Some x" "map st_point (x_students x) = [Nailed]"
    using lucky_run_eval by (auto split: option.splits)
  have run: "exam_step\<^sup>*\<^sup>* (exam_start [(0, 7)]) x" by (rule run_exam_steps [OF x(1)])
  have "st_point (x_students x ! 0) = Nailed" using x(2) by (cases "x_students x") auto
  then show ?thesis using exam_in_order [OF one_student_run [OF run, THEN conjunct1]] run x(2)
    by (intro exI [of _ x]) (auto simp: Let_def split: if_splits)
qed

end
