(* ===== verification/Workers.thy ===== *)
theory Workers
  imports MsgQueue
begin

section \<open>The server and its workers\<close>

text \<open>
  \<open>sop2/lab02/zad02/zad02.c\<close>: a server puts tasks into one queue, each worker takes \<open>N_TASKS\<close> of
  them and sends the results, with its process number as priority, through a queue of its own; a
  signal handler of the server collects them. The numbers of a task are hundredths. The two loops
  that try a non-blocking call again until it works are waiting here.
\<close>

definition MAX_MSG_COUNT :: nat where "MAX_MSG_COUNT = 10"
definition N_TASKS :: nat where "N_TASKS = 2"

text \<open>The bound of the kernel for priorities.\<close>

definition MQ_PRIO_MAX :: nat where "MQ_PRIO_MAX = 32768"

text \<open>A worker in its inner loop, with the tasks it has done; in front of \<open>mq_send\<close>; and at its end.\<close>

datatype worker = Asking nat | Working "nat \<times> nat" nat | Done

text \<open>The server in front of \<open>msleep\<close>; in its inner loop with a new task; in front of the second
  test; in front of \<open>wait\<close>; and behind it.\<close>

datatype server = Pausing | Trying "nat \<times> nat" | Checking | Joining | Ended

record office =
  o_pids :: "nat list"
  o_workers :: "worker list"
  o_tasks :: "(nat \<times> nat) list" \<comment> \<open>the queue of the server\<close>
  o_results :: "nat mqueue list"
  o_server :: server
  o_handling :: "nat option" \<comment> \<open>the queue \<open>mq_handler\<close> is at\<close>
  o_received :: nat
  o_sent :: "(nat \<times> nat) list"
  o_printed :: "(nat \<times> nat) list"
  o_killed :: bool

text \<open>The workers with these process numbers are started and the notifications set up before the
  first task is sent.\<close>

definition office_start :: "nat list \<Rightarrow> office" where
  "office_start pids =
     \<lparr>o_pids = pids, o_workers = replicate (length pids) (Asking 0), o_tasks = [],
      o_results = replicate (length pids) (mq_open\<lparr>q_armed := True\<rparr>), o_server = Pausing, o_handling = None,
      o_received = 0, o_sent = [], o_printed = [], o_killed = False\<rparr>"

definition child_work :: "nat \<Rightarrow> office \<Rightarrow> office option" where
  "child_work i s =
     (case o_workers s ! i of
        Asking tasks_done \<Rightarrow>
          (case o_tasks s of
             [] \<Rightarrow> None
           | data # rest \<Rightarrow> Some (s\<lparr>o_tasks := rest, o_workers := (o_workers s)[i := Working data tasks_done]\<rparr>))
      | Working (v1, v2) tasks_done \<Rightarrow>
          (if MQ_PRIO_MAX \<le> o_pids s ! i then Some (s\<lparr>o_killed := True\<rparr>)
           else
             (case mq_send MAX_MSG_COUNT (o_pids s ! i, v1 + v2) (o_results s ! i) of
                None \<Rightarrow> Some (s\<lparr>o_killed := True\<rparr>)
              | Some q \<Rightarrow>
                  Some (s\<lparr>o_results := (o_results s)[i := q],
                          o_workers := (o_workers s)[i := if tasks_done + 1 = N_TASKS then Done else Asking (tasks_done + 1)]\<rparr>)))
      | Done \<Rightarrow> None)"

text \<open>The start of \<open>mq_handler\<close> with \<open>setup_notif\<close>, and a round of its loop.\<close>

definition mq_handler_enter :: "nat \<Rightarrow> office \<Rightarrow> office option" where
  "mq_handler_enter i s =
     (case mq_event (o_results s ! i) of
        None \<Rightarrow> None
      | Some q \<Rightarrow>
          (case mq_notify q of
             None \<Rightarrow> Some (s\<lparr>o_killed := True\<rparr>)
           | Some q' \<Rightarrow> Some (s\<lparr>o_results := (o_results s)[i := q'], o_handling := Some i\<rparr>)))"

definition mq_handler_loop :: "nat \<Rightarrow> office \<Rightarrow> office" where
  "mq_handler_loop i s =
     (case mq_receive (o_results s ! i) of
        None \<Rightarrow> s\<lparr>o_handling := None\<rparr>
      | Some (x, q) \<Rightarrow> s\<lparr>o_results := (o_results s)[i := q], o_printed := o_printed s @ [x],
                         o_received := o_received s + 1\<rparr>)"

text \<open>\<open>main\<close> behind the start of the workers; \<open>delay\<close> is \<open>t2 - t1\<close>, by which a result of \<open>rand\<close> is
  divided.\<close>

definition main_work :: "int \<Rightarrow> nat \<times> nat \<Rightarrow> office \<Rightarrow> office option" where
  "main_work delay r s =
     (case o_server s of
        Pausing \<Rightarrow>
          (if delay = 0 then Some (s\<lparr>o_killed := True\<rparr>)
           else Some (s\<lparr>o_server := Trying (fst r mod (100 * 100), snd r mod (100 * 100))\<rparr>))
      | Trying data \<Rightarrow>
          (if o_received s = length (o_pids s) * N_TASKS then Some (s\<lparr>o_server := Checking\<rparr>)
           else if length (o_tasks s) < MAX_MSG_COUNT
           then Some (s\<lparr>o_tasks := o_tasks s @ [data], o_sent := o_sent s @ [data], o_server := Checking\<rparr>)
           else None)
      | Checking \<Rightarrow>
          Some (s\<lparr>o_server := if o_received s = length (o_pids s) * N_TASKS then Joining else Pausing\<rparr>)
      | Joining \<Rightarrow> if list_all (\<lambda>w. w = Done) (o_workers s) then Some (s\<lparr>o_server := Ended\<rparr>) else None
      | Ended \<Rightarrow> None)"

datatype act = Worker nat | Server "nat \<times> nat" | Notified nat | Receive

fun office_act :: "int \<Rightarrow> act \<Rightarrow> office \<Rightarrow> office option" where
  "office_act delay (Worker i) s = (if i < length (o_workers s) then child_work i s else None)"
| "office_act delay (Server r) s = (if o_handling s = None then main_work delay r s else None)"
| "office_act delay (Notified i) s =
     (if i < length (o_workers s) \<and> o_handling s = None \<and> o_server s \<noteq> Ended then mq_handler_enter i s else None)"
| "office_act delay Receive s = map_option (\<lambda>i. mq_handler_loop i s) (o_handling s)"

definition office_step :: "int \<Rightarrow> office \<Rightarrow> office \<Rightarrow> bool" where
  "office_step delay s t \<longleftrightarrow> \<not> o_killed s \<and> (\<exists>a. office_act delay a s = Some t)"

fun run_office :: "int \<Rightarrow> act list \<Rightarrow> office \<Rightarrow> office option" where
  "run_office delay [] s = Some s"
| "run_office delay (a # as) s =
     (if o_killed s then None
      else case office_act delay a s of None \<Rightarrow> None | Some t \<Rightarrow> run_office delay as t)"

lemma run_office_steps: "run_office delay as s = Some t \<Longrightarrow> (office_step delay)\<^sup>*\<^sup>* s t"
proof (induction as arbitrary: s)
  case (Cons a as)
  then obtain u where "\<not> o_killed s" "office_act delay a s = Some u" "run_office delay as u = Some t"
    by (auto split: option.splits if_splits)
  then have "office_step delay s u" "(office_step delay)\<^sup>*\<^sup>* u t" using Cons.IH unfolding office_step_def by blast+
  then show ?case by (rule converse_rtranclp_into_rtranclp)
qed simp


subsection \<open>The invariant\<close>

fun tasks_done :: "worker \<Rightarrow> nat" where
  "tasks_done (Asking k) = k" | "tasks_done (Working _ k) = k" | "tasks_done Done = N_TASKS"

fun in_hand :: "worker \<Rightarrow> nat multiset" where
  "in_hand (Working d _) = {#fst d + snd d#}" | "in_hand _ = {#}"

fun worker_ok :: "worker \<Rightarrow> bool" where
  "worker_ok (Asking k) = (k < N_TASKS)" | "worker_ok (Working _ k) = (k < N_TASKS)" | "worker_ok Done = True"

definition sums :: "(nat \<times> nat) list \<Rightarrow> nat multiset" where
  "sums ds = image_mset (\<lambda>d. fst d + snd d) (mset ds)"

definition results_in :: "nat mqueue \<Rightarrow> nat multiset" where
  "results_in q = image_mset snd (mset (q_msgs q))"

text \<open>Where the results of the tasks that were sent are.\<close>

definition accounted :: "office \<Rightarrow> bool" where
  "accounted s \<longleftrightarrow>
     sums (o_sent s) = sums (o_tasks s) + sum_list (map in_hand (o_workers s)) +
       sum_list (map results_in (o_results s)) + image_mset snd (mset (o_printed s)) \<and>
     sum_list (map tasks_done (o_workers s)) = o_received s + sum_list (map (\<lambda>q. length (q_msgs q)) (o_results s)) \<and>
     o_received s = length (o_printed s)"

text \<open>The results of one worker, and the attention its queue gets.\<close>

definition line_ok :: "nat \<Rightarrow> worker \<Rightarrow> nat mqueue \<Rightarrow> (nat \<times> nat) list \<Rightarrow> bool \<Rightarrow> bool" where
  "line_ok pid w q printed handling \<longleftrightarrow> worker_ok w \<and> alert handling q \<and> (\<forall>x \<in> set (q_msgs q). fst x = pid) \<and>
     length (q_msgs q) + length (filter (\<lambda>x. fst x = pid) printed) = tasks_done w"

definition lines_ok :: "office \<Rightarrow> bool" where
  "lines_ok s \<longleftrightarrow> (\<forall>i < length (o_pids s).
     line_ok (o_pids s ! i) (o_workers s ! i) (o_results s ! i) (o_printed s) (o_handling s = Some i))"

definition office_inv :: "nat list \<Rightarrow> office \<Rightarrow> bool" where
  "office_inv pids s \<longleftrightarrow> o_pids s = pids \<and> length (o_workers s) = length pids \<and> length (o_results s) = length pids \<and>
     length (o_tasks s) \<le> MAX_MSG_COUNT \<and> (\<forall>i. o_handling s = Some i \<longrightarrow> i < length pids) \<and>
     (o_server s \<in> {Joining, Ended} \<longrightarrow> o_received s = length pids * N_TASKS) \<and>
     (o_server s = Ended \<longrightarrow> list_all (\<lambda>w. w = Done) (o_workers s)) \<and>
     accounted s \<and> lines_ok s"

lemma office_line:
  "office_inv pids s \<Longrightarrow> i < length pids \<Longrightarrow>
     line_ok (pids ! i) (o_workers s ! i) (o_results s ! i) (o_printed s) (o_handling s = Some i)"
  by (auto simp: office_inv_def lines_ok_def)

lemma sum_list_replicate_0 [simp]: "sum_list (replicate n (0 :: 'a :: monoid_add)) = 0"
  by (induction n) simp_all

lemma office_inv_start: "office_inv pids (office_start pids)"
  by (simp add: office_inv_def office_start_def accounted_def lines_ok_def line_ok_def alert_def sums_def
      results_in_def sum_list_replicate N_TASKS_def map_replicate_const)

lemma sum_update_same:
  fixes f :: "'b \<Rightarrow> 'a :: cancel_comm_monoid_add"
  assumes "i < length xs" "f v = f (xs ! i)"
  shows "sum_list (map f (xs[i := v])) = sum_list (map f xs)"
  using sum_list_map_update_add [OF assms(1), of f v 0] assms(2) by simp

lemma worker_ask_inv:
  assumes inv: "office_inv pids s" and i: "i < length pids" and w: "o_workers s ! i = Asking k" and t: "o_tasks s = d # rest"
  shows "office_inv pids (s\<lparr>o_tasks := rest, o_workers := (o_workers s)[i := Working d k]\<rparr>)"
proof -
  note I = inv [unfolded office_inv_def]
  let ?ws = "(o_workers s)[i := Working d k]"
  have iw: "i < length (o_workers s)" using I i by simp
  have "sum_list (map in_hand ?ws) = sum_list (map in_hand (o_workers s)) + {#fst d + snd d#}"
    using sum_list_map_update_add [OF iw, of in_hand "Working d k" "{#fst d + snd d#}"] w by simp
  moreover have "sum_list (map tasks_done ?ws) = sum_list (map tasks_done (o_workers s))"
    using sum_update_same [OF iw, of tasks_done] w by simp
  ultimately have acc: "accounted (s\<lparr>o_tasks := rest, o_workers := ?ws\<rparr>)" using I t by (simp add: accounted_def sums_def)
  have "line_ok (o_pids s ! j) (?ws ! j) (o_results s ! j) (o_printed s) (o_handling s = Some j)" if j: "j < length pids" for j
  proof -
    have "line_ok (o_pids s ! j) (o_workers s ! j) (o_results s ! j) (o_printed s) (o_handling s = Some j)"
      using office_line [OF inv j] I by simp
    then show ?thesis using w iw by (cases "j = i") (simp_all add: line_ok_def)
  qed
  then have "lines_ok (s\<lparr>o_tasks := rest, o_workers := ?ws\<rparr>)" using I by (simp add: lines_ok_def)
  moreover have "\<not> list_all (\<lambda>w. w = Done) (o_workers s)" using iw w by (auto simp: list_all_length)
  ultimately show ?thesis using I t acc by (auto simp: office_inv_def)
qed

lemma worker_send_inv:
  assumes inv: "office_inv pids s" and i: "i < length pids" and w: "o_workers s ! i = Working (v1, v2) k"
    and q: "mq_send MAX_MSG_COUNT (pids ! i, v1 + v2) (o_results s ! i) = Some q"
    and w': "w' = (if k + 1 = N_TASKS then Done else Asking (k + 1))"
  shows "office_inv pids (s\<lparr>o_results := (o_results s)[i := q], o_workers := (o_workers s)[i := w']\<rparr>)"
proof -
  note I = inv [unfolded office_inv_def]
  let ?ws = "(o_workers s)[i := w']" and ?rs = "(o_results s)[i := q]"
  have iw: "i < length (o_workers s)" and ir: "i < length (o_results s)" using I i by simp_all
  note lines = office_line [OF inv]
  have k: "k < N_TASKS" using lines [OF i] w by (simp add: line_ok_def)
  have w'_simps: "in_hand w' = {#}" "tasks_done w' = k + 1" "worker_ok w'" using k by (auto simp: w')
  note Q = mq_send_SomeD [OF q]
  have "sum_list (map in_hand ?ws) + {#v1 + v2#} = sum_list (map in_hand (o_workers s))"
    using sum_list_map_update_remove [OF iw, of in_hand w' "{#v1 + v2#}"] w w'_simps by simp
  moreover have "sum_list (map results_in ?rs) = sum_list (map results_in (o_results s)) + {#v1 + v2#}"
    using sum_list_map_update_add [OF ir, of results_in q "{#v1 + v2#}"] Q by (simp add: results_in_def)
  moreover have "sum_list (map tasks_done ?ws) = sum_list (map tasks_done (o_workers s)) + 1"
    using sum_list_map_update_add [OF iw, of tasks_done w' 1] w w'_simps by simp
  moreover have "sum_list (map (\<lambda>q. length (q_msgs q)) ?rs) = sum_list (map (\<lambda>q. length (q_msgs q)) (o_results s)) + 1"
    using sum_list_map_update_add [OF ir, of "\<lambda>q. length (q_msgs q)" q 1] Q by simp
  ultimately have acc: "accounted (s\<lparr>o_results := ?rs, o_workers := ?ws\<rparr>)" using I by (simp add: accounted_def ac_simps)
  have msgs: "x \<in> set (q_msgs q) \<Longrightarrow> x = (pids ! i, v1 + v2) \<or> x \<in> set (q_msgs (o_results s ! i))" for x
    using Q by (metis insert_iff set_mset_add_mset_insert set_mset_mset)
  have "line_ok (pids ! j) (?ws ! j) (?rs ! j) (o_printed s) (o_handling s = Some j)" if j: "j < length pids" for j
  proof (cases "j = i")
    case True
    have "alert (o_handling s = Some i) q" using alert_send [OF q] lines [OF i] by (simp add: line_ok_def)
    moreover have "\<forall>x \<in> set (q_msgs q). fst x = pids ! i" using msgs lines [OF i] unfolding line_ok_def by (metis fst_conv)
    ultimately show ?thesis using True lines [OF i] w w'_simps Q iw ir by (simp add: line_ok_def)
  qed (use lines [OF j] in simp)
  then have "lines_ok (s\<lparr>o_results := ?rs, o_workers := ?ws\<rparr>)" using I by (simp add: lines_ok_def)
  moreover have "\<not> list_all (\<lambda>w. w = Done) (o_workers s)" using iw w by (auto simp: list_all_length)
  ultimately show ?thesis using I acc by (auto simp: office_inv_def)
qed


lemma done_le: "worker_ok w \<Longrightarrow> tasks_done w \<le> N_TASKS"
  by (cases w) auto

lemma workers_ok:
  assumes inv: "office_inv pids s" and w: "w \<in> set (o_workers s)"
  shows "worker_ok w"
proof -
  have len: "length (o_workers s) = length pids" using inv by (simp add: office_inv_def)
  obtain i where i: "i < length (o_workers s)" "o_workers s ! i = w" using w unfolding in_set_conv_nth by blast
  have "line_ok (pids ! i) (o_workers s ! i) (o_results s ! i) (o_printed s) (o_handling s = Some i)"
    using office_line [OF inv] i(1) unfolding len .
  then show ?thesis unfolding line_ok_def i(2) by blast
qed

lemma sum_list_le: "\<forall>x \<in> set xs. f x \<le> (c :: nat) \<Longrightarrow> sum_list (map f xs) \<le> length xs * c"
  by (induction xs) (auto intro: add_mono)

lemma received_le:
  assumes inv: "office_inv pids s"
  shows "o_received s + sum_list (map (\<lambda>q. length (q_msgs q)) (o_results s)) \<le> length pids * N_TASKS"
proof -
  have "sum_list (map tasks_done (o_workers s)) \<le> length (o_workers s) * N_TASKS"
    using workers_ok [OF inv] done_le by (intro sum_list_le) blast
  then show ?thesis using inv by (simp add: office_inv_def accounted_def)
qed

lemma received_less:
  assumes inv: "office_inv pids s" and i: "i < length pids" and q: "q_msgs (o_results s ! i) \<noteq> []"
  shows "o_received s < length pids * N_TASKS"
proof -
  have "i < length (map (\<lambda>q. length (q_msgs q)) (o_results s))" using inv i by (simp add: office_inv_def)
  then have "length (q_msgs (o_results s ! i)) \<le> sum_list (map (\<lambda>q. length (q_msgs q)) (o_results s))"
    using elem_le_sum_list [of i "map (\<lambda>q. length (q_msgs q)) (o_results s)"] by simp
  with received_le [OF inv] q show ?thesis by (cases "q_msgs (o_results s ! i)") auto
qed

text \<open>A new queue for one line that holds the same messages.\<close>

lemma same_msgs_inv:
  assumes inv: "office_inv pids s" and i: "i < length pids" and q: "q_msgs q = q_msgs (o_results s ! i)"
    and a: "alert True q" and h: "o_handling s = None"
  shows "office_inv pids (s\<lparr>o_results := (o_results s)[i := q], o_handling := Some i\<rparr>)"
proof -
  note I = inv [unfolded office_inv_def]
  let ?rs = "(o_results s)[i := q]"
  have ir: "i < length (o_results s)" using I i by simp
  have "sum_list (map results_in ?rs) = sum_list (map results_in (o_results s))"
    using sum_update_same [OF ir, of results_in q] q by (simp add: results_in_def)
  moreover have "sum_list (map (\<lambda>q. length (q_msgs q)) ?rs) = sum_list (map (\<lambda>q. length (q_msgs q)) (o_results s))"
    using sum_update_same [OF ir, of "\<lambda>q. length (q_msgs q)" q] q by simp
  ultimately have acc: "accounted (s\<lparr>o_results := ?rs, o_handling := Some i\<rparr>)" using I by (simp add: accounted_def)
  have "line_ok (pids ! j) (o_workers s ! j) (?rs ! j) (o_printed s) (Some i = Some j)" if j: "j < length pids" for j
  proof (cases "j = i")
    case True
    with office_line [OF inv i] a q ir show ?thesis by (simp add: line_ok_def)
  next
    case False
    with office_line [OF inv j] h show ?thesis by (simp add: line_ok_def)
  qed
  then have "lines_ok (s\<lparr>o_results := ?rs, o_handling := Some i\<rparr>)" using I by (simp add: lines_ok_def)
  then show ?thesis using I i acc by (simp add: office_inv_def)
qed

lemma handler_enter_inv:
  assumes inv: "office_inv pids s" and i: "i < length pids" and h: "o_handling s = None"
    and t: "mq_handler_enter i s = Some t"
  shows "office_inv pids t \<and> o_killed t = o_killed s"
proof -
  obtain q where q: "mq_event (o_results s ! i) = Some q" using t by (auto simp: mq_handler_enter_def split: option.splits)
  have "alert False (o_results s ! i)" using office_line [OF inv i] h by (simp add: line_ok_def)
  then obtain q' where "mq_notify q = Some q'" "alert True q'" "q_msgs q' = q_msgs (o_results s ! i)"
    using q by (rule alert_event)
  with t q same_msgs_inv [OF inv i _ _ h] show ?thesis by (auto simp: mq_handler_enter_def)
qed

lemma handler_loop_inv:
  assumes inv: "office_inv pids s" and h: "o_handling s = Some i" and d: "distinct pids"
  shows "office_inv pids (mq_handler_loop i s)"
proof -
  note I = inv [unfolded office_inv_def]
  have i: "i < length pids" using I h by blast
  have al: "alert True (o_results s ! i)" using office_line [OF inv i] h by (simp add: line_ok_def)
  show ?thesis
  proof (cases "mq_receive (o_results s ! i)")
    case None
    then have e: "alert False (o_results s ! i)" using alert_empty [OF al] by simp
    have "line_ok (pids ! j) (o_workers s ! j) (o_results s ! j) (o_printed s) False" if j: "j < length pids" for j
      using office_line [OF inv j] h e by (cases "j = i") (simp_all add: line_ok_def)
    then have "lines_ok (s\<lparr>o_handling := None\<rparr>)" using I by (simp add: lines_ok_def)
    moreover have "mq_handler_loop i s = s\<lparr>o_handling := None\<rparr>" unfolding mq_handler_loop_def None by simp
    moreover have "accounted (s\<lparr>o_handling := None\<rparr>)" using I by (simp add: accounted_def)
    ultimately show ?thesis using I by (simp add: office_inv_def)
  next
    case (Some xq)
    obtain x q where xq: "mq_receive (o_results s ! i) = Some (x, q)" using Some by (cases xq) simp
    note Q = mq_receive_SomeD [OF xq]
    let ?rs = "(o_results s)[i := q]"
    let ?t = "s\<lparr>o_results := ?rs, o_printed := o_printed s @ [x], o_received := o_received s + 1\<rparr>"
    have ir: "i < length (o_results s)" using I i by simp
    have x: "fst x = pids ! i" using office_line [OF inv i] Q by (simp add: line_ok_def)
    have "sum_list (map results_in ?rs) + {#snd x#} = sum_list (map results_in (o_results s))"
      using sum_list_map_update_remove [OF ir, of results_in q "{#snd x#}"] Q by (simp add: results_in_def)
    moreover have "sum_list (map (\<lambda>q. length (q_msgs q)) ?rs) + 1 = sum_list (map (\<lambda>q. length (q_msgs q)) (o_results s))"
      using sum_list_map_update_remove [OF ir, of "\<lambda>q. length (q_msgs q)" q 1] Q by simp
    ultimately have acc: "accounted ?t" using I by (auto simp: accounted_def ac_simps)
    have "line_ok (pids ! j) (o_workers s ! j) (?rs ! j) (o_printed s @ [x]) (Some i = Some j)" if j: "j < length pids" for j
    proof (cases "j = i")
      case True
      with office_line [OF inv i] h alert_receive [OF xq al] Q ir x show ?thesis by (simp add: line_ok_def)
    next
      case False
      then have "pids ! j \<noteq> pids ! i" using d i j nth_eq_iff_index_eq by blast
      with False office_line [OF inv j] h x show ?thesis by (simp add: line_ok_def)
    qed
    then have "lines_ok ?t" using I h by (simp add: lines_ok_def)
    moreover have "o_server s \<notin> {Joining, Ended}" using received_less [OF inv i] Q I by auto
    ultimately show ?thesis using I xq acc by (simp add: mq_handler_loop_def office_inv_def)
  qed
qed


lemma counted: "office_inv pids s \<Longrightarrow> accounted s" "office_inv pids s \<Longrightarrow> lines_ok s"
  by (simp_all add: office_inv_def)

lemma killed_inv: "office_inv pids s \<Longrightarrow> office_inv pids (s\<lparr>o_killed := True\<rparr>)"
proof -
  assume inv: "office_inv pids s"
  have "accounted (s\<lparr>o_killed := True\<rparr>)" using counted(1) [OF inv] by (simp add: accounted_def)
  moreover have "lines_ok (s\<lparr>o_killed := True\<rparr>)" using counted(2) [OF inv] by (simp add: lines_ok_def)
  ultimately show ?thesis using inv by (simp add: office_inv_def)
qed

lemma main_inv:
  assumes inv: "office_inv pids s" and w: "main_work delay r s = Some t"
  shows "office_inv pids t"
proof -
  note I = inv [unfolded office_inv_def]
  have count: "accounted (s\<lparr>o_server := v\<rparr>) \<and> lines_ok (s\<lparr>o_server := v\<rparr>)" for v
    using counted [OF inv] by (simp add: accounted_def lines_ok_def)
  show ?thesis
  proof (cases "o_server s")
    case Pausing
    with w I count killed_inv [OF inv] show ?thesis by (auto simp: main_work_def office_inv_def split: if_splits)
  next
    case (Trying d)
    let ?t = "s\<lparr>o_tasks := o_tasks s @ [d], o_sent := o_sent s @ [d], o_server := Checking\<rparr>"
    have "accounted ?t \<and> lines_ok ?t" using counted [OF inv] by (simp add: accounted_def lines_ok_def sums_def ac_simps)
    with w I Trying count show ?thesis by (auto simp: main_work_def office_inv_def split: if_splits)
  next
    case Checking
    with w I count show ?thesis by (auto simp: main_work_def office_inv_def split: if_splits)
  next
    case Joining
    with w I count show ?thesis by (auto simp: main_work_def office_inv_def split: if_splits)
  qed (use w in \<open>simp add: main_work_def\<close>)
qed

lemma office_step_inv:
  assumes inv: "office_inv pids s" and d: "distinct pids" and step: "office_step delay s t"
  shows "office_inv pids t"
proof -
  have len: "length (o_workers s) = length pids" "o_pids s = pids" using inv by (simp_all add: office_inv_def)
  obtain a where a: "office_act delay a s = Some t" using step by (auto simp: office_step_def)
  show ?thesis
  proof (cases a)
    case (Worker i)
    then have i: "i < length pids" and w: "child_work i s = Some t" using a len by (simp_all split: if_splits)
    show ?thesis
    proof (cases "o_workers s ! i")
      case (Asking k)
      then obtain d rest where "o_tasks s = d # rest" using w by (auto simp: child_work_def split: list.splits)
      with worker_ask_inv [OF inv i Asking] w Asking show ?thesis by (simp add: child_work_def)
    next
      case (Working d k)
      show ?thesis
      proof (cases "MQ_PRIO_MAX \<le> o_pids s ! i")
        case True
        with w Working killed_inv [OF inv] show ?thesis by (cases d) (simp add: child_work_def)
      next
        case False
        show ?thesis
        proof (cases "mq_send MAX_MSG_COUNT (pids ! i, fst d + snd d) (o_results s ! i)")
          case None
          with w Working False killed_inv [OF inv] len show ?thesis by (cases d) (simp add: child_work_def)
        next
          case (Some q)
          with w Working False worker_send_inv [OF inv i, of "fst d" "snd d" k q] len show ?thesis
            by (cases d) (simp add: child_work_def)
        qed
      qed
    qed (use w in \<open>simp add: child_work_def\<close>)
  next
    case (Server r)
    with a main_inv [OF inv] show ?thesis by (simp split: if_splits)
  next
    case (Notified i)
    with a handler_enter_inv [OF inv] len show ?thesis by (auto split: if_splits)
  next
    case Receive
    with a handler_loop_inv [OF inv _ d] show ?thesis by auto
  qed
qed


subsection \<open>Termination\<close>










lemma mq_handler_loop_same [simp]:
  "o_killed (mq_handler_loop i s) = o_killed s" "o_workers (mq_handler_loop i s) = o_workers s"
  by (auto simp: mq_handler_loop_def simp del: mq_receive_None_iff split: option.split)








subsection \<open>Properties\<close>


text \<open>
  A worker whose process number is no priority kills the whole group with its first result: the
  server never ends.
\<close>

lemma workers_pid_limit:
  assumes pids: "distinct pids" "p \<in> set pids" "MQ_PRIO_MAX \<le> p"
    and run: "(office_step delay)\<^sup>*\<^sup>* (office_start pids) s"
  shows "o_server s \<noteq> Ended \<and> p \<notin> fst ` set (o_printed s)"
proof -
  obtain i where i: "i < length pids" "pids ! i = p" using pids(2) unfolding in_set_conv_nth by blast
  have "office_inv pids s \<and> tasks_done (o_workers s ! i) = 0" using run
  proof (induction rule: rtranclp_induct)
    case base
    then show ?case using office_inv_start i by (simp add: office_start_def)
  next
    case (step s t)
    then have inv: "office_inv pids s" and d: "tasks_done (o_workers s ! i) = 0" by simp_all
    have big: "MQ_PRIO_MAX \<le> o_pids s ! i" and iw: "i < length (o_workers s)" using inv i pids(3) by (simp_all add: office_inv_def)
    obtain a where a: "office_act delay a s = Some t" using step.hyps by (auto simp: office_step_def)
    have "tasks_done (o_workers t ! i) = 0"
    proof (cases a)
      case (Worker j)
      then have w: "child_work j s = Some t" using a by (simp split: if_splits)
      show ?thesis
      proof (cases "j = i")
        case True
        with w d big iw show ?thesis
          by (auto simp: child_work_def split: worker.splits list.splits prod.splits if_splits)
      next
        case False
        with w d show ?thesis
          by (auto simp: child_work_def split: worker.splits list.splits prod.splits option.splits if_splits)
      qed
    next
      case (Server r)
      with a d show ?thesis by (auto simp: main_work_def split: if_splits server.splits)
    next
      case (Notified j)
      with a d show ?thesis by (auto simp: mq_handler_enter_def split: if_splits option.splits)
    next
      case Receive
      with a d show ?thesis by auto
    qed
    then show ?case using office_step_inv [OF inv pids(1) step.hyps(2)] by simp
  qed
  then have inv: "office_inv pids s" and none: "tasks_done (o_workers s ! i) = 0" by simp_all
  have "o_workers s ! i \<noteq> Done" using none by (auto simp: N_TASKS_def)
  then have "\<not> list_all (\<lambda>w. w = Done) (o_workers s)" using inv i by (auto simp: list_all_length office_inv_def)
  moreover have "filter (\<lambda>x. fst x = p) (o_printed s) = []" using office_line [OF inv i(1)] none i(2) by (simp add: line_ok_def)
  ultimately show ?thesis using inv by (auto simp: office_inv_def filter_empty_conv)
qed



definition killed_run :: "act list" where
  "killed_run = [Server (100, 50), Server (0, 0), Worker 0, Worker 0]"

lemma killed_run_eval:
  "run_office 500 killed_run (office_start [40000]) =
     Some ((office_start [40000])\<lparr>o_workers := [Working (100, 50) 0], o_sent := [(100, 50)], o_server := Checking, o_killed := True\<rparr>)"
  by (simp add: killed_run_def office_start_def main_work_def child_work_def MAX_MSG_COUNT_def MQ_PRIO_MAX_def N_TASKS_def)

lemma workers_pid_limit_example:
  "\<exists>s. (office_step 500)\<^sup>*\<^sup>* (office_start [40000]) s \<and> o_killed s \<and> o_server s \<noteq> Ended"
  using workers_pid_limit [of "[40000]" 40000, OF _ _ _ run_office_steps [OF killed_run_eval]]
    run_office_steps [OF killed_run_eval]
  by (auto simp: MQ_PRIO_MAX_def)

end
