(* ===== verification/MonteCarlo.thy ===== *)
theory MonteCarlo
  imports Prelude
begin

section \<open>Integration by several processes\<close>

text \<open>
  \<open>sop2/lab03/zad02/zad02.c\<close>: independently started processes join a shared memory object, add the
  points and hits of three batches to its totals under a robust mutex, and the last one to leave
  prints the result and removes the object. The counter of active processes is decremented outside
  the mutex and the semaphore, so a decrement is a load and a store here. Any process may die.
\<close>

definition ROUNDS :: nat where "ROUNDS = 3"

text \<open>A process in front of \<open>sem_wait\<close>; in front of \<open>pthread_mutex_lock\<close> in round \<open>k\<close>; inside, in front
  of each of the two additions of \<open>process_batch\<close>; in front of the test of \<open>running\<close>; in front of the
  decrement and between its load and store; in front of the test for the last process; inside it;
  returned; ended by \<open>ERR\<close>; and dead, perhaps between the two additions.\<close>

datatype process =
    Outside | Locking nat | Adding nat | Hitting nat | Asking nat
  | Loading | Storing int | Testing | Destroying | Returned | Failed | Dead bool

datatype mutex = Free | Held | OwnerDead | Destroyed

record integral =
  m_procs :: "process list"
  m_linked :: bool \<comment> \<open>the names of the object and the semaphore\<close>
  m_mutex :: mutex
  m_cnt_active :: int
  m_total :: nat
  m_total_hit :: nat
  m_batches :: "(nat \<times> nat \<times> nat) list" \<comment> \<open>printed: process, total, hits\<close>
  m_results :: "(nat \<times> nat) list" \<comment> \<open>printed by the last process: total, hits\<close>
  m_misused :: bool \<comment> \<open>a destroyed mutex has been used\<close>

definition integral_start :: "nat \<Rightarrow> integral" where
  "integral_start k =
     \<lparr>m_procs = replicate k Outside, m_linked = True, m_mutex = Destroyed, m_cnt_active = 0, m_total = 0,
      m_total_hit = 0, m_batches = [], m_results = [], m_misused = False\<rparr>"

definition goto :: "nat \<Rightarrow> process \<Rightarrow> integral \<Rightarrow> integral" where
  "goto i p s = s\<lparr>m_procs := (m_procs s)[i := p]\<rparr>"

text \<open>Joining, which the semaphore protects; the first process initialises the mutex.\<close>

definition join_in :: "nat \<Rightarrow> integral \<Rightarrow> integral" where
  "join_in i s =
     goto i (Locking 0)
       (s\<lparr>m_mutex := if m_cnt_active s = 0 then Free else m_mutex s, m_cnt_active := m_cnt_active s + 1\<rparr>)"

definition lock_mutex :: "nat \<Rightarrow> nat \<Rightarrow> integral \<Rightarrow> integral option" where
  "lock_mutex i k s =
     (case m_mutex s of
        Free \<Rightarrow> Some (goto i (Adding k) (s\<lparr>m_mutex := Held\<rparr>))
      | Held \<Rightarrow> None
      | OwnerDead \<Rightarrow> Some (goto i (Adding k) (s\<lparr>m_mutex := Held, m_cnt_active := m_cnt_active s - 1\<rparr>))
      | Destroyed \<Rightarrow> Some (s\<lparr>m_misused := True\<rparr>))"

text \<open>\<open>randomize_points\<close>: some of the \<open>n\<close> points hit, \<open>r\<close> says how many.\<close>

definition hits :: "nat \<Rightarrow> nat \<Rightarrow> nat" where
  "hits n r = min r n"

text \<open>A step of \<open>main\<close> of process \<open>i\<close> with batches of \<open>n\<close> points; \<open>quit\<close> says whether \<open>SIGINT\<close> has
  come.\<close>

definition main_step :: "nat \<Rightarrow> nat \<Rightarrow> nat \<Rightarrow> bool \<Rightarrow> integral \<Rightarrow> integral option" where
  "main_step n i r quit s =
     (case m_procs s ! i of
        Outside \<Rightarrow> if m_linked s then Some (join_in i s) else None
      | Locking k \<Rightarrow> lock_mutex i k s
      | Adding k \<Rightarrow> Some (goto i (Hitting k) (s\<lparr>m_total := m_total s + n\<rparr>))
      | Hitting k \<Rightarrow>
          (let total_hit = m_total_hit s + hits n r
           in Some (goto i (Asking k)
                (s\<lparr>m_total_hit := total_hit, m_batches := m_batches s @ [(i, m_total s, total_hit)],
                   m_mutex := if m_mutex s = Held then Free else m_mutex s\<rparr>)))
      | Asking k \<Rightarrow> Some (goto i (if quit \<or> k + 1 = ROUNDS then Loading else Locking (k + 1)) s)
      | Loading \<Rightarrow> Some (goto i (Storing (m_cnt_active s)) s)
      | Storing v \<Rightarrow> Some (goto i Testing (s\<lparr>m_cnt_active := v - 1\<rparr>))
      | Testing \<Rightarrow> Some (goto i (if m_cnt_active s = 0 then Destroying else Returned) s)
      | Destroying \<Rightarrow>
          (if m_linked s
           then Some (goto i Returned (s\<lparr>m_results := m_results s @ [(m_total s, m_total_hit s)],
                        m_mutex := Destroyed, m_linked := False\<rparr>))
           else Some (goto i Failed (s\<lparr>m_results := m_results s @ [(m_total s, m_total_hit s)],
                        m_mutex := Destroyed\<rparr>)))
      | _ \<Rightarrow> None)"

text \<open>A process dies; with the mutex, if it holds it.\<close>

definition die :: "nat \<Rightarrow> integral \<Rightarrow> integral option" where
  "die i s =
     (case m_procs s ! i of
        Adding _ \<Rightarrow> Some (goto i (Dead False) (s\<lparr>m_mutex := if m_mutex s = Held then OwnerDead else m_mutex s\<rparr>))
      | Hitting _ \<Rightarrow> Some (goto i (Dead True) (s\<lparr>m_mutex := if m_mutex s = Held then OwnerDead else m_mutex s\<rparr>))
      | p \<Rightarrow> if p \<in> {Returned, Failed, Dead True, Dead False} then None else Some (goto i (Dead False) s))"

datatype act = Step nat nat bool | Die nat

fun integral_act :: "nat list \<Rightarrow> act \<Rightarrow> integral \<Rightarrow> integral option" where
  "integral_act ns (Step i r quit) s = (if i < length (m_procs s) then main_step (ns ! i) i r quit s else None)"
| "integral_act ns (Die i) s = (if i < length (m_procs s) then die i s else None)"

definition integral_step :: "nat list \<Rightarrow> integral \<Rightarrow> integral \<Rightarrow> bool" where
  "integral_step ns s t \<longleftrightarrow> \<not> m_misused s \<and> (\<exists>a. integral_act ns a s = Some t)"

fun run_integral :: "nat list \<Rightarrow> act list \<Rightarrow> integral \<Rightarrow> integral option" where
  "run_integral ns [] s = Some s"
| "run_integral ns (a # as) s =
     (if m_misused s then None
      else case integral_act ns a s of None \<Rightarrow> None | Some t \<Rightarrow> run_integral ns as t)"

lemma run_integral_steps: "run_integral ns as s = Some t \<Longrightarrow> (integral_step ns)\<^sup>*\<^sup>* s t"
proof (induction as arbitrary: s)
  case (Cons a as)
  then obtain u where "\<not> m_misused s" "integral_act ns a s = Some u" "run_integral ns as u = Some t"
    by (auto split: option.splits if_splits)
  then have "integral_step ns s u" "(integral_step ns)\<^sup>*\<^sup>* u t" using Cons.IH unfolding integral_step_def by blast+
  then show ?case by (rule converse_rtranclp_into_rtranclp)
qed simp

subsection \<open>The invariant\<close>












subsection \<open>Properties\<close>


definition one_batch :: "nat \<Rightarrow> act list" where
  "one_batch i = [Step i 0 False, Step i 0 False, Step i 0 False, Step i 7 False, Step i 0 True]"




text \<open>
  Two processes can both be the last one. They decrement the counter one after the other and
  both read 0: each prints a result and destroys the mutex, and the \<open>shm_unlink\<close> of the second one
  fails, which makes it call \<open>ERR\<close>. And a process that joins between the last decrement and the
  removal loses its mutex: it locks a destroyed one.
\<close>

lemma integral_two_last:
  "(\<exists>s. (integral_step [10, 10])\<^sup>*\<^sup>* (integral_start 2) s \<and> m_procs s = [Returned, Failed] \<and> m_results s = [(20, 14), (20, 14)]) \<and>
   (\<exists>s. (integral_step [10, 10])\<^sup>*\<^sup>* (integral_start 2) s \<and> m_procs s = [Returned, Locking 0] \<and> m_misused s)"
proof -
  let ?both = "[Step 0 0 False] @ one_batch 1 @ tl (one_batch 0) @
    [Step 0 0 False, Step 0 0 False, Step 1 0 False, Step 1 0 False, Step 0 0 False, Step 1 0 False, Step 0 0 False, Step 1 0 False]"
  let ?late = "one_batch 0 @ [Step 0 0 False, Step 0 0 False, Step 0 0 False, Step 1 0 False, Step 0 0 False, Step 1 0 False]"
  have "(case run_integral [10, 10] ?both (integral_start 2) of None \<Rightarrow> False
      | Some s \<Rightarrow> m_procs s = [Returned, Failed] \<and> m_results s = [(20, 14), (20, 14)])" by code_simp
  then obtain s where "run_integral [10, 10] ?both (integral_start 2) = Some s" "m_procs s = [Returned, Failed]"
    "m_results s = [(20, 14), (20, 14)]" by (simp only: split: option.splits)
  moreover have "(case run_integral [10, 10] ?late (integral_start 2) of None \<Rightarrow> False
      | Some s \<Rightarrow> m_procs s = [Returned, Locking 0] \<and> m_misused s)" by code_simp
  then obtain u where "run_integral [10, 10] ?late (integral_start 2) = Some u" "m_procs u = [Returned, Locking 0]" "m_misused u"
    by (simp only: split: option.splits)
  ultimately show ?thesis using run_integral_steps by blast
qed

end
