(* ===== verification/DirList.thy ===== *)
theory DirList
  imports Prelude "HOL-Library.Sublist"
begin

section \<open>Directory listings\<close>

text \<open>
  \<open>sop1/lab01/tutorial/example02/sop-list2.c\<close>, which lists the files with some extension down to a
  depth, and \<open>sop1/lab01/tutorial/example01/sop-list.c\<close>, which lists single directories by changing
  into them. The file system is a tree that does not change meanwhile.
\<close>

text \<open>What \<open>readdir\<close> and \<open>stat\<close> say of an entry: a directory, with its size; anything else, with its
  size; and an entry whose \<open>stat\<close> fails.\<close>

datatype entry = Dir nat "(string \<times> entry) list" | File nat | Broken

text \<open>The lines of the output, and how a function ends: returning, by \<open>ERR\<close>, or with a buffer
  overrun.\<close>

datatype line = Header string | Entry string nat

datatype status = Fine | Err | Overrun

type_synonym out = "line list \<times> status"

definition andthen :: "out \<Rightarrow> out \<Rightarrow> out" where
  "andthen a b = (if snd a = Fine then (fst a @ fst b, snd b) else a)"

fun all_outputs :: "('a \<Rightarrow> out) \<Rightarrow> 'a list \<Rightarrow> out" where
  "all_outputs f [] = ([], Fine)"
| "all_outputs f (x # xs) = andthen (f x) (all_outputs f xs)"

definition MAX_N :: nat where "MAX_N = 256"

subsection \<open>The extension\<close>

definition ext_min :: "nat \<Rightarrow> nat \<Rightarrow> nat" where
  "ext_min n m = (if n < m then n else m)"

text \<open>The loop from \<open>i\<close>, with \<open>k\<close> rounds to go.\<close>

fun matches_loop :: "string \<Rightarrow> string \<Rightarrow> nat \<Rightarrow> nat \<Rightarrow> bool" where
  "matches_loop name ext i 0 = True"
| "matches_loop name ext i (Suc k) =
     (if name ! (length name - i) \<noteq> ext ! (length ext - i) then False else matches_loop name ext (i + 1) k)"

definition matches_ext :: "string \<Rightarrow> string \<Rightarrow> bool" where
  "matches_ext name ext = matches_loop name ext 1 (ext_min (length name) (length ext))"

lemma matches_loop_iff:
  "matches_loop name ext i k \<longleftrightarrow> (\<forall>j \<in> {i..<i + k}. name ! (length name - j) = ext ! (length ext - j))"
proof (induction k arbitrary: i)
  case (Suc k)
  have "{i..<i + Suc k} = insert i {i + 1..<i + 1 + k}" by auto
  then show ?case using Suc.IH [of "i + 1"] by simp
qed simp

lemma suffix_nth:
  assumes "length ys \<le> length xs"
  shows "suffix ys xs \<longleftrightarrow> (\<forall>j \<in> {1..<1 + length ys}. xs ! (length xs - j) = ys ! (length ys - j))"
proof
  assume "suffix ys xs"
  then obtain zs where xs: "xs = zs @ ys" by (auto simp: suffix_def)
  show "\<forall>j \<in> {1..<1 + length ys}. xs ! (length xs - j) = ys ! (length ys - j)"
  proof
    fix j assume "j \<in> {1..<1 + length ys}"
    then have "length zs + length ys - j = length zs + (length ys - j)" by simp
    then show "xs ! (length xs - j) = ys ! (length ys - j)" by (simp add: xs nth_append)
  qed
next
  assume eq: "\<forall>j \<in> {1..<1 + length ys}. xs ! (length xs - j) = ys ! (length ys - j)"
  have "drop (length xs - length ys) xs = ys"
  proof (rule nth_equalityI)
    show "length (drop (length xs - length ys) xs) = length ys" using assms by simp
    fix i assume i: "i < length (drop (length xs - length ys) xs)"
    then have "i < length ys" using assms by simp
    then have "length ys - i \<in> {1..<1 + length ys}" by auto
    with eq have "xs ! (length xs - (length ys - i)) = ys ! (length ys - (length ys - i))" by blast
    moreover have "length xs - (length ys - i) = length xs - length ys + i" "length ys - (length ys - i) = i"
      using \<open>i < length ys\<close> assms by simp_all
    ultimately have "xs ! (length xs - length ys + i) = ys ! i" by (simp only:)
    then show "drop (length xs - length ys) xs ! i = ys ! i" using i by simp
  qed
  then show "suffix ys xs" by (metis suffix_drop)
qed

text \<open>
  \<open>matches_ext\<close> says whether one of the two is a suffix of the other:
  besides the names that end with the extension (no dot is asked for) it accepts the names that are
  an end of the extension, the empty one included.
\<close>

lemma matches_ext_iff: "matches_ext name ext = (suffix ext name \<or> suffix name ext)"
proof (cases "length name < length ext")
  case True
  then have "\<not> suffix ext name" by (auto dest: suffix_length_le)
  then show ?thesis using True suffix_nth [of name ext]
    by (auto simp: matches_ext_def matches_loop_iff ext_min_def)
next
  case False
  have "suffix name ext \<Longrightarrow> suffix ext name" using False by (metis suffix_length_le suffix_order.order_refl
      not_less le_antisym suffix_def append_self_conv2 length_append add_cancel_left_left list.size(3) length_0_conv)
  then show ?thesis using False suffix_nth [of ext name]
    by (auto simp: matches_ext_def matches_loop_iff ext_min_def)
qed


subsection \<open>The recursive listing\<close>

text \<open>The loop over \<open>readdir\<close>: the lines, the status and \<open>to_call\<close>.\<close>

fun read_dir :: "string \<Rightarrow> string \<Rightarrow> (string \<times> entry) list \<Rightarrow> (string \<times> entry) list \<Rightarrow> out \<times> (string \<times> entry) list" where
  "read_dir ext cur_path to_call [] = (([], Fine), to_call)"
| "read_dir ext cur_path to_call ((entname, e) # es) =
     (case e of
        Dir sz sub \<Rightarrow>
          (if entname \<noteq> ''.'' \<and> entname \<noteq> ''..''
           then (if length to_call = MAX_N then (([], Overrun), to_call)
                 else read_dir ext cur_path (to_call @ [(entname, e)]) es)
           else read_dir ext cur_path to_call es)
      | _ \<Rightarrow>
          (if matches_ext entname ext
           then (if MAX_N \<le> length (cur_path @ entname) then (([], Overrun), to_call)
                 else (case e of
                         File sz \<Rightarrow> (case read_dir ext cur_path to_call es of
                             (out, calls) \<Rightarrow> (andthen ([Entry entname sz], Fine) out, calls))
                       | _ \<Rightarrow> (([], Err), to_call)))
           else read_dir ext cur_path to_call es))"

fun contents :: "entry \<Rightarrow> (string \<times> entry) list" where
  "contents (Dir _ es) = es" | "contents _ = []"

text \<open>\<open>rec\<close> of the directory with these entries.\<close>

function rec :: "string \<Rightarrow> string \<Rightarrow> string \<Rightarrow> int \<Rightarrow> int \<Rightarrow> (string \<times> entry) list \<Rightarrow> out" where
  "rec call_path dir ext cur_depth max_depth es =
     (if cur_depth > max_depth then ([], Fine)
      else
        (let cur_path = call_path @ dir @ ''/'' in
         if MAX_N \<le> length cur_path then ([], Overrun)
         else
           (case read_dir ext cur_path [] es of
              (out, to_call) \<Rightarrow>
                andthen ([Header cur_path], Fine)
                  (andthen out
                    (all_outputs (\<lambda>(name, e). rec cur_path name ext (cur_depth + 1) max_depth (contents e)) to_call)))))"
  by pat_completeness auto
termination by (relation "measure (\<lambda>(call_path, dir, ext, cur_depth, max_depth, es). nat (max_depth + 1 - cur_depth))") auto

declare rec.simps [simp del]

text \<open>\<open>list\<close> for one directory: the path without a slash at its end is looked up.\<close>

definition list_one :: "(string \<Rightarrow> entry option) \<Rightarrow> string \<Rightarrow> int \<Rightarrow> string \<Rightarrow> out" where
  "list_one fs ext depth dir =
     (if dir = [] then ([], Overrun)
      else
        (let dir' = if last dir = CHR ''/'' then butlast dir else dir in
         case fs dir' of
           Some (Dir sz es) \<Rightarrow> rec [] dir' ext 1 depth es
         | _ \<Rightarrow> ([], Err)))"

definition list_dirs :: "(string \<Rightarrow> entry option) \<Rightarrow> string \<Rightarrow> int \<Rightarrow> string list \<Rightarrow> out" where
  "list_dirs fs ext depth dirs = all_outputs (list_one fs ext depth) dirs"

text \<open>\<open>dprintf\<close> of the lines, and the file they go to, which is opened without being emptied.\<close>

fun print_line :: "string \<Rightarrow> line \<Rightarrow> string" where
  "print_line ext (Header path) = ''.'' @ ext @ '' files in dir '' @ path @ '':\<newline>''"
| "print_line ext (Entry name sz) = name @ '' '' @ decimal sz @ ''\<newline>''"

definition write_over :: "string \<Rightarrow> string \<Rightarrow> string" where
  "write_over text old = text @ drop (length text) old"

text \<open>The options (at most \<open>MAX_N\<close> directories); \<open>L1_OUTPUTFILE\<close> is the variable of the environment.\<close>

datatype opt = Opt_p string | Opt_o | Opt_e string | Opt_d string

record options =
  opt_dirs :: "string list"
  opt_out :: "string option"
  opt_ext :: "string option"
  opt_depth :: int

definition parse_opt :: "string option \<Rightarrow> options \<Rightarrow> opt \<Rightarrow> options" where
  "parse_opt L1_OUTPUTFILE os c =
     (case c of
        Opt_p dir \<Rightarrow> os\<lparr>opt_dirs := opt_dirs os @ [dir]\<rparr>
      | Opt_o \<Rightarrow> os\<lparr>opt_out := L1_OUTPUTFILE\<rparr>
      | Opt_e ext \<Rightarrow> os\<lparr>opt_ext := Some ext\<rparr>
      | Opt_d depth \<Rightarrow> os\<lparr>opt_depth := atoi depth\<rparr>)"

text \<open>\<open>main\<close>: \<open>None\<close> is \<open>usage\<close>.\<close>

definition list2_main :: "(string \<Rightarrow> entry option) \<Rightarrow> string option \<Rightarrow> opt list \<Rightarrow> (string option \<times> string \<times> status) option" where
  "list2_main fs L1_OUTPUTFILE cs =
     (let os = foldl (parse_opt L1_OUTPUTFILE) \<lparr>opt_dirs = [], opt_out = None, opt_ext = None, opt_depth = 0\<rparr> cs in
      case opt_ext os of
        None \<Rightarrow> None
      | Some ext \<Rightarrow>
          (if opt_depth os = 0 then None
           else
             (let dirs = if opt_dirs os = [] then [''.''] else opt_dirs os;
                  out = list_dirs fs ext (opt_depth os) dirs
              in Some (opt_out os, concat (map (print_line ext) (fst out)), snd out))))"


subsection \<open>The tree\<close>

definition dot :: "string \<Rightarrow> bool" where
  "dot n \<longleftrightarrow> n = ''.'' \<or> n = ''..''"













subsection \<open>What is listed\<close>
















text \<open>The file of an earlier, longer listing keeps its end.\<close>

lemma write_over_stale: "length text < length old \<Longrightarrow> write_over text old \<noteq> text"
  unfolding write_over_def by (metis append_self_conv drop_eq_Nil2 not_le)


subsection \<open>Listing by changing the directory\<close>

text \<open>The components of a path, and the place a path leads to from a directory; places are the lists of
  names from the root.\<close>

fun components :: "string \<Rightarrow> string list" where
  "components [] = [[]]"
| "components (c # cs) =
     (if c = CHR ''/'' then [] # components cs else (c # hd (components cs)) # tl (components cs))"

definition go :: "string list \<Rightarrow> string \<Rightarrow> string list" where
  "go p c = (if c = [] \<or> c = ''.'' then p else if c = ''..'' then butlast p else p @ [c])"

definition resolve :: "string list \<Rightarrow> string \<Rightarrow> string list" where
  "resolve cwd path = foldl go (if path \<noteq> [] \<and> hd path = CHR ''/'' then [] else cwd) (components path)"

text \<open>The loop over \<open>readdir\<close> in the directory itself.\<close>

fun list_entries :: "(string \<times> entry) list \<Rightarrow> out" where
  "list_entries [] = ([], Fine)"
| "list_entries ((name, e) # es) =
     (case e of
        Broken \<Rightarrow> ([], Err)
      | Dir sz sub \<Rightarrow> andthen ([Entry name sz], Fine) (list_entries es)
      | File sz \<Rightarrow> andthen ([Entry name sz], Fine) (list_entries es))"

text \<open>One round of \<open>list\<close>, with the current directory after it: \<open>chdir (dir)\<close>, then \<open>chdir ("..")\<close>.\<close>

definition list1_one :: "(string list \<Rightarrow> entry option) \<Rightarrow> string list \<Rightarrow> string \<Rightarrow> out \<times> string list" where
  "list1_one fs cwd dir =
     (case (if dir = [] then None else fs (resolve cwd dir)) of
        Some (Dir sz es) \<Rightarrow>
          (andthen ([Header dir], Fine) (list_entries es), resolve (resolve cwd dir) ''..'')
      | _ \<Rightarrow> (([], Err), cwd))"

fun list1 :: "(string list \<Rightarrow> entry option) \<Rightarrow> string list \<Rightarrow> string list \<Rightarrow> out" where
  "list1 fs cwd [] = ([], Fine)"
| "list1 fs cwd (dir # dirs) =
     (case list1_one fs cwd dir of (out, cwd') \<Rightarrow> andthen out (list1 fs cwd' dirs))"

text \<open>What is meant: every directory is looked up from where the program was started.\<close>

definition list1_meant :: "(string list \<Rightarrow> entry option) \<Rightarrow> string list \<Rightarrow> string list \<Rightarrow> out" where
  "list1_meant fs cwd dirs = all_outputs (\<lambda>dir. fst (list1_one fs cwd dir)) dirs"

definition plain :: "string \<Rightarrow> bool" where
  "plain n \<longleftrightarrow> n \<noteq> [] \<and> CHR ''/'' \<notin> set n \<and> \<not> dot n"

lemma components_plain: "CHR ''/'' \<notin> set n \<Longrightarrow> components n = [n]"
  by (induction n) auto

lemma resolve_plain: "plain n \<Longrightarrow> resolve cwd n = cwd @ [n]"
  by (cases n) (auto simp: plain_def resolve_def components_plain go_def dot_def)

lemma resolve_up: "resolve p ''..'' = butlast p"
  by (simp add: resolve_def go_def)

text \<open>
  With names of subdirectories of the current directory as arguments, \<open>list\<close> prints what listing
  each of them from the starting directory gives, up to and including the first error. A path of
  more than one name leaves the program somewhere else: after \<open>a/b\<close>, the argument \<open>c\<close> is looked up
  as \<open>a/c\<close>.
\<close>

lemma list1_relative:
  "(list_all plain dirs \<longrightarrow> list1 fs cwd dirs = list1_meant fs cwd dirs) \<and>
   (fs (cwd @ [''a'', ''b'']) = Some (Dir sz es) \<longrightarrow>
     list1 fs cwd [''a/b'', ''c''] =
       andthen (andthen ([Header ''a/b''], Fine) (list_entries es)) (fst (list1_one fs (cwd @ [''a'']) ''c'')))"
proof
  have "list1 fs cwd dirs = list1_meant fs cwd dirs" if "list_all plain dirs"
    using that
  proof (induction dirs)
    case (Cons d ds)
    have "plain d" using Cons.prems by simp
    then have r: "resolve cwd d = cwd @ [d]" "d \<noteq> []" by (simp_all add: resolve_plain plain_def)
    obtain out cwd' where one: "list1_one fs cwd d = (out, cwd')" by (cases "list1_one fs cwd d") simp
    have "cwd' = cwd \<or> snd out \<noteq> Fine"
      using one r by (auto simp: list1_one_def resolve_up split: option.splits entry.splits)
    with Cons one show ?case by (auto simp: list1_meant_def andthen_def)
  qed (simp add: list1_meant_def)
  then show "list_all plain dirs \<longrightarrow> list1 fs cwd dirs = list1_meant fs cwd dirs" by blast
  have ab: "resolve cwd ''a/b'' = cwd @ [''a'', ''b'']" by (simp add: resolve_def go_def)
  show "fs (cwd @ [''a'', ''b'']) = Some (Dir sz es) \<longrightarrow>
     list1 fs cwd [''a/b'', ''c''] =
       andthen (andthen ([Header ''a/b''], Fine) (list_entries es)) (fst (list1_one fs (cwd @ [''a'']) ''c''))"
    by (cases "list1_one fs (cwd @ [''a'']) ''c''")
      (simp add: list1_one_def [of fs cwd] ab resolve_up butlast_append andthen_def)
qed

definition three_dirs :: "string list \<Rightarrow> entry option" where
  "three_dirs = [[''h'', ''a''] \<mapsto> Dir 1 [(''f'', File 2)], [''h'', ''a'', ''b''] \<mapsto> Dir 1 [], [''h'', ''c''] \<mapsto> Dir 1 [(''g'', File 7)]]"

lemma list1_relative_example:
  "list1 three_dirs [''h''] [''a'', ''c''] = ([Header ''a'', Entry ''f'' 2, Header ''c'', Entry ''g'' 7], Fine) \<and>
   list1 three_dirs [''h''] [''a/b'', ''c''] = ([Header ''a/b''], Err)"
proof
  show "list1 three_dirs [''h''] [''a'', ''c''] = ([Header ''a'', Entry ''f'' 2, Header ''c'', Entry ''g'' 7], Fine)"
    using list1_relative [of "[''a'', ''c'']" three_dirs "[''h'']" 1 "[]"]
    by (simp add: plain_def dot_def list1_meant_def list1_one_def resolve_def go_def three_dirs_def andthen_def)
  show "list1 three_dirs [''h''] [''a/b'', ''c''] = ([Header ''a/b''], Err)"
    using list1_relative [of "[''a'', ''c'']" three_dirs "[''h'']" 1 "[]"]
    by (simp add: list1_one_def resolve_def go_def three_dirs_def andthen_def)
qed

end
