(* ===== verification/LineTools.thy ===== *)
theory LineTools
  imports Editor "HOL-Library.Sublist"
begin

section \<open>Programs on lines of text\<close>

text \<open>
  \<open>sop1/lab00/sop-grep/sop-grep.c\<close>, which prints the lines with a pattern in them;
  \<open>sop2/lab01/fifo_test/fifo_test.c\<close>, which reads letters and digits; and the menu of
  \<open>sop1/lab01/prelab/sop-dika.c\<close>.
\<close>

subsection \<open>grep\<close>

lemma getline_SomeD: "getline s = Some (line, rest) \<Longrightarrow> lines_of s = line # lines_of rest"
proof -
  have "copy_lines 1 s = (line, rest, left) \<Longrightarrow> s \<noteq> [] \<Longrightarrow> lines_of s = line # lines_of rest" for left line
  proof (induction s arbitrary: line)
    case (Cons c cs)
    show ?case
    proof (cases "c = LF")
      case True
      with Cons.prems show ?thesis by (cases cs) auto
    next
      case False
      then obtain l left' where l: "copy_lines 1 cs = (l, rest, left')" "line = c # l"
        using Cons.prems by (auto split: prod.splits)
      show ?thesis
      proof (cases "cs = []")
        case True
        with l False show ?thesis by simp
      next
        case Not_Nil: False
        have "left' = left" using l Cons.prems(1) False by (auto split: prod.splits)
        then have "lines_of cs = l # lines_of rest" using Cons.IH l(1) Not_Nil by simp
        with l(2) False show ?thesis by simp
      qed
    qed
  qed simp
  then show "getline s = Some (line, rest) \<Longrightarrow> lines_of s = line # lines_of rest"
    by (auto simp: getline_def split: if_splits prod.splits)
qed

text \<open>The loop of \<open>main\<close>.\<close>

function grep_loop :: "bool \<Rightarrow> string \<Rightarrow> nat \<Rightarrow> string \<Rightarrow> string" where
  "grep_loop line_numbering pattern cur_line stdin =
     (case getline stdin of
        None \<Rightarrow> []
      | Some (line, rest) \<Rightarrow>
          (if strstr (cstr line) pattern \<noteq> None
           then (if line_numbering then decimal cur_line @ '':'' @ cstr line else cstr line)
           else []) @ grep_loop line_numbering pattern (cur_line + 1) rest)"
  by pat_completeness auto
termination by (relation "measure (\<lambda>(_, _, _, stdin). length stdin)") (auto dest: getline_shorter)

declare grep_loop.simps [simp del]

text \<open>\<open>main\<close>: \<open>getopt\<close> moves the options to the front (a lone \<open>--\<close> aside); \<open>None\<close> is \<open>usage\<close>.\<close>

definition grep_main :: "string list \<Rightarrow> string \<Rightarrow> string option" where
  "grep_main args stdin =
     (if length args = 1 \<or> length args = 2
      then (let opts = filter (\<lambda>a. length a \<ge> 2 \<and> hd a = CHR ''-'') args;
                line_numbering = opts \<noteq> [];
                argv = opts @ filter (\<lambda>a. \<not> (length a \<ge> 2 \<and> hd a = CHR ''-'')) args
            in if list_all (\<lambda>a. list_all (\<lambda>c. c = CHR ''n'') (tl a)) opts
               then Some (grep_loop line_numbering (last argv) 1 stdin) else None)
      else None)"

text \<open>What is meant: the lines, numbered from 1, that contain the pattern.\<close>

definition grep_meant :: "bool \<Rightarrow> string \<Rightarrow> nat \<Rightarrow> string \<Rightarrow> string" where
  "grep_meant line_numbering pattern n stdin =
     concat (map (\<lambda>(i, line). (if line_numbering then decimal i @ '':'' else []) @ cstr line)
       (filter (\<lambda>(i, line). sublist pattern (cstr line)) (enumerate n (lines_of stdin))))"

lemma strstr_sublist: "strstr hay needle \<noteq> None \<longleftrightarrow> sublist needle hay"
  unfolding strstr_iff_occurs sublist_def by blast

text \<open>C25: the loop of \<open>sop-grep\<close> prints, for every input and every pattern, exactly the lines in
  which the pattern occurs, in their order and with their numbers when asked to; the last line
  counts without a newline, too. (A line ends at its first NUL.)\<close>

theorem grep_equiv: "grep_loop line_numbering pattern n stdin = grep_meant line_numbering pattern n stdin"
proof (induction "length stdin" arbitrary: n stdin rule: less_induct)
  case less
  show ?case
  proof (cases "getline stdin")
    case None
    then have "stdin = []" by (auto simp: getline_def split: if_splits prod.splits)
    then show ?thesis using None by (simp add: grep_meant_def grep_loop.simps)
  next
    case (Some lr)
    obtain line rest where l: "getline stdin = Some (line, rest)" using Some by (cases lr) simp
    then have "grep_loop line_numbering pattern (n + 1) rest = grep_meant line_numbering pattern (n + 1) rest"
      using less [OF getline_shorter [OF l]] by simp
    then show ?thesis using getline_SomeD [OF l] strstr_sublist [of "cstr line" pattern]
      by (subst grep_loop.simps) (simp add: l grep_meant_def)
  qed
qed

subsection \<open>The FIFO\<close>

definition isalnum :: "char \<Rightarrow> bool" where
  "isalnum c \<longleftrightarrow> is_digit c \<or> (65 \<le> schar c \<and> schar c \<le> 90) \<or> (97 \<le> schar c \<and> schar c \<le> 122)"

text \<open>The loop of \<open>read_from_fifo\<close>, which reads at least one byte: what it stores, and what it leaves.\<close>

fun read_from_fifo :: "string \<Rightarrow> nat \<Rightarrow> string \<times> string" where
  "read_from_fifo [] sz = ([], [])"
| "read_from_fifo (c # cs) sz =
     (if isalnum c
      then (if 1 < sz then (case read_from_fifo cs (sz - 1) of (buf, rest) \<Rightarrow> (c # buf, rest)) else ([c], cs))
      else (if 0 < sz then read_from_fifo cs sz else ([], cs)))"

lemma read_from_fifo_correct:
  "0 < sz \<Longrightarrow> fst (read_from_fifo cs sz) = take sz (filter isalnum cs) \<and>
     (length (filter isalnum cs) < sz \<longrightarrow> snd (read_from_fifo cs sz) = [])"
proof (induction cs sz rule: read_from_fifo.induct)
  case (2 c cs sz)
  then show ?case by (cases sz) (auto split: prod.splits)
qed simp

text \<open>What \<open>main\<close> prints; \<open>None\<close> when bytes are printed that were never stored.\<close>

definition N :: nat where "N = 64"

definition fifo_main :: "string \<Rightarrow> string option" where
  "fifo_main fifo =
     (let buf = fst (read_from_fifo fifo N)
      in if length buf = N then Some (buf @ [LF]) else None)"

lemma fifo_main_iff: "fifo_main fifo = (if N \<le> length (filter isalnum fifo) then Some (take N (filter isalnum fifo) @ [LF]) else None)"
  using read_from_fifo_correct [of N fifo] by (auto simp: fifo_main_def Let_def N_def)


subsection \<open>The menu\<close>

text \<open>What a path names: a regular file, with its content and whether it can be opened for reading and
  for writing; a directory, with its names and whether it can be opened; something else.\<close>

datatype node = Regular string bool bool | Directory "string list" bool | Special

text \<open>Output; a buffer without a NUL that is printed with \<open>%s\<close> goes on behind its end.\<close>

datatype event = Print string | Overread string

definition print_buf :: "string \<Rightarrow> event" where
  "print_buf buf = (if NUL \<in> set buf then Print (cstr buf @ [LF]) else Overread buf)"

definition puts :: "string \<Rightarrow> event" where
  "puts s = Print (s @ [LF])"

definition show_stage2 :: "node \<Rightarrow> event list" where
  "show_stage2 n =
     (case n of
        Regular content r w \<Rightarrow>
          puts (''file size '' @ decimal (length content)) #
            (if r then [print_buf content] else [puts ''couldn't open file''])
      | Directory names r \<Rightarrow> if r then puts ''this dir:'' # map puts names else [puts ''couldn't open dir'']
      | Special \<Rightarrow> [puts ''unknown file type''])"

text \<open>\<open>fgets\<close> with a buffer of \<open>MAX_N\<close> bytes.\<close>

definition DIKA_MAX_N :: nat where "DIKA_MAX_N = 256"

fun take_line :: "nat \<Rightarrow> string \<Rightarrow> string \<times> string" where
  "take_line 0 s = ([], s)"
| "take_line (Suc k) [] = ([], [])"
| "take_line (Suc k) (c # cs) =
     (if c = LF then ([c], cs) else (case take_line k cs of (l, rest) \<Rightarrow> (c # l, rest)))"

definition fgets :: "string \<Rightarrow> (string \<times> string) option" where
  "fgets stdin = (if stdin = [] then None else Some (take_line (DIKA_MAX_N - 1) stdin))"

lemma take_line_append: "take_line k s = (l, rest) \<Longrightarrow> s = l @ rest \<and> (0 < k \<longrightarrow> s \<noteq> [] \<longrightarrow> l \<noteq> [])"
  by (induction k s arbitrary: l rule: take_line.induct) (auto split: if_splits prod.splits)

lemma fgets_shorter: "fgets s = Some (l, rest) \<Longrightarrow> length rest < length s"
  using take_line_append [of "DIKA_MAX_N - 1" s l rest] by (auto simp: fgets_def DIKA_MAX_N_def split: if_splits)

text \<open>The loop of \<open>write_stage3\<close>: the new content and what is left of the input; \<open>None\<close> when a line that
  begins with a NUL makes it write in front of the buffer. \<open>bulk_write\<close> takes it all.\<close>

function write_loop :: "string \<Rightarrow> string \<Rightarrow> (string \<times> string) option" where
  "write_loop content stdin =
     (case fgets stdin of
        None \<Rightarrow> Some (content, [])
      | Some (in_buf, rest) \<Rightarrow>
          (if hd in_buf = LF then Some (content, rest)
           else
             (let in_len = strlen in_buf in
              if in_len = 0 then None
              else write_loop (content @ take (in_len - 1) in_buf @ [LF]) rest)))"
  by pat_completeness auto
termination by (relation "measure (\<lambda>(_, stdin). length stdin)") (auto dest: fgets_shorter)

declare write_loop.simps [simp del]

definition write_stage3 :: "node \<Rightarrow> string \<Rightarrow> (event list \<times> node \<times> string) option" where
  "write_stage3 n stdin =
     (case n of
        Regular content r w \<Rightarrow>
          (if \<not> r then Some ([puts ''couldn't open file''], n, stdin)
           else if \<not> w then Some ([print_buf content, puts ''couldn't open file''], n, stdin)
           else map_option (\<lambda>(content', rest). ([print_buf content], Regular content' r w, rest))
                  (write_loop content stdin))
      | _ \<Rightarrow> Some ([], n, stdin))"

definition print_file_info :: "string \<times> node \<Rightarrow> event" where
  "print_file_info x =
     puts (fst x @ '', '' @ (case snd x of Directory _ _ \<Rightarrow> ''dir'' | Regular _ _ _ \<Rightarrow> ''file'' | Special \<Rightarrow> ''unknown''))"

text \<open>One round of \<open>interface_stage1\<close>; the files below a path in the order of \<open>ftw\<close> are a parameter.\<close>

datatype round = Again "event list" "string \<Rightarrow> node option" string | Exit "event list" | Crash

definition menu :: event where
  "menu = puts (''1. show'' @ [LF] @ ''2. write'' @ [LF] @ ''3. walk'' @ [LF] @ ''4. exit'')"

definition fgetc :: "string \<Rightarrow> char \<times> string" where
  "fgetc stdin = (case stdin of [] \<Rightarrow> (char_of_int (-1), []) | c # cs \<Rightarrow> (c, cs))"

definition interface_stage1 ::
    "((string \<Rightarrow> node option) \<Rightarrow> string \<Rightarrow> (string \<times> node) list) \<Rightarrow> (string \<Rightarrow> node option) \<Rightarrow> string \<Rightarrow> round" where
  "interface_stage1 ftw fs stdin =
     (let (c, stdin) = fgetc stdin; (_, stdin) = fgetc stdin in
      if schar c < 49 \<or> 52 < schar c then Again [menu, puts ''bad command''] fs stdin
      else if c = CHR ''4'' then Exit [menu]
      else
        (case getline stdin of
           None \<Rightarrow> Again [menu] fs stdin
         | Some (line, stdin) \<Rightarrow>
             (let path = cstr (butlast line) in
              case fs path of
                None \<Rightarrow> Again [menu, puts ''file not available''] fs stdin
              | Some n \<Rightarrow>
                  (if c = CHR ''1'' then Again (menu # show_stage2 n) fs stdin
                   else if c = CHR ''2''
                   then (case write_stage3 n stdin of
                           None \<Rightarrow> Crash
                         | Some (out, n', stdin) \<Rightarrow> Again (menu # out) (fs(path \<mapsto> n')) stdin)
                   else Again (menu # map print_file_info (ftw fs path)) fs stdin))))"

text \<open>\<open>main\<close>: the output and the files at its end (\<open>None\<close> after a crash); \<open>None\<close> when it does not return.\<close>

partial_function (option) dika_main ::
    "((string \<Rightarrow> node option) \<Rightarrow> string \<Rightarrow> (string \<times> node) list) \<Rightarrow> (string \<Rightarrow> node option) \<Rightarrow> string \<Rightarrow>
       event list \<Rightarrow> (event list \<times> (string \<Rightarrow> node option) option) option" where
  "dika_main ftw fs stdin out =
     (case interface_stage1 ftw fs stdin of
        Exit out' \<Rightarrow> Some (out @ out', Some fs)
      | Crash \<Rightarrow> Some (out, None)
      | Again out' fs' stdin' \<Rightarrow> dika_main ftw fs' stdin' (out @ out'))"


text \<open>A line that \<open>write_stage3\<close> takes as it is.\<close>

definition writable_line :: "string \<Rightarrow> bool" where
  "writable_line l \<longleftrightarrow> l \<noteq> [] \<and> LF \<notin> set l \<and> NUL \<notin> set l \<and> length l + 1 < DIKA_MAX_N"

definition with_newlines :: "string list \<Rightarrow> string" where
  "with_newlines ls = concat (map (\<lambda>l. l @ [LF]) ls)"

lemma take_line_line: "LF \<notin> set l \<Longrightarrow> length l < k \<Longrightarrow> take_line k (l @ LF # rest) = (l @ [LF], rest)"
proof (induction l arbitrary: k)
  case Nil
  then show ?case by (cases k) simp_all
next
  case (Cons a l)
  then show ?case by (cases k) auto
qed

lemma take_line_end: "LF \<notin> set l \<Longrightarrow> length l \<le> k \<Longrightarrow> take_line k l = (l, [])"
proof (induction l arbitrary: k)
  case Nil
  then show ?case by (cases k) simp_all
next
  case (Cons a l)
  then show ?case by (cases k) auto
qed

lemma write_loop_line:
  assumes "writable_line l"
  shows "write_loop content (l @ LF # rest) = write_loop (content @ l @ [LF]) rest"
proof -
  have g: "fgets (l @ LF # rest) = Some (l @ [LF], rest)"
    using assms take_line_line [of l "DIKA_MAX_N - 1" rest] by (auto simp: fgets_def writable_line_def DIKA_MAX_N_def)
  have "strlen (l @ [LF]) = length l + 1" using assms by (simp add: strlen_def writable_line_def cstr_id)
  moreover have "hd (l @ [LF]) \<noteq> LF" using assms by (cases l) (auto simp: writable_line_def)
  ultimately show ?thesis by (subst write_loop.simps) (simp add: g)
qed

lemma write_loop_lines:
  "list_all writable_line ls \<Longrightarrow> write_loop content (with_newlines ls @ rest) = write_loop (content @ with_newlines ls) rest"
  by (induction ls arbitrary: content) (simp_all add: with_newlines_def write_loop_line)

lemma write_loop_blank: "write_loop content (LF # rest) = Some (content, rest)"
  by (subst write_loop.simps) (simp add: fgets_def DIKA_MAX_N_def numeral_eq_Suc)

lemma write_loop_last:
  assumes "writable_line l"
  shows "write_loop content l = Some (content @ butlast l @ [LF], [])"
proof -
  have g: "fgets l = Some (l, [])"
    using assms take_line_end [of l "DIKA_MAX_N - 1"] by (auto simp: fgets_def writable_line_def DIKA_MAX_N_def)
  have len: "strlen l = length l" using assms by (simp add: strlen_def writable_line_def cstr_id)
  have hd: "hd l \<noteq> LF \<and> l \<noteq> []" using assms by (cases l) (auto simp: writable_line_def)
  have e: "write_loop c [] = Some (c, [])" for c by (subst write_loop.simps) (simp add: fgets_def)
  have "write_loop content l = write_loop (content @ take (strlen l - 1) l @ [LF]) []"
    by (subst write_loop.simps) (simp add: g hd len)
  then show ?thesis unfolding e len by (simp add: butlast_conv_take)
qed

lemma getline_path: "LF \<notin> set path \<Longrightarrow> getline (path @ LF # rest) = Some (path @ [LF], rest)"
  by (rule getline_line)

text \<open>
  The write command of the menu. For a file that can be opened, the lines typed up to the first
  empty one (each shorter than the buffer and without a NUL) are appended to it as they are, and the
  rest of the input is left for the next round. A last line that ends with the input instead of a
  newline loses its last character to one.
\<close>

lemma dika_write:
  assumes reg: "fs path = Some (Regular content True True)" "LF \<notin> set path" "NUL \<notin> set path"
    and lines: "list_all writable_line ls" "writable_line l"
    and cmd: "cmd = ''2'' @ [LF] @ path @ [LF] @ with_newlines ls"
  shows "interface_stage1 ftw fs (cmd @ [LF] @ rest) =
      Again [menu, print_buf content] (fs(path \<mapsto> Regular (content @ with_newlines ls) True True)) rest \<and>
    interface_stage1 ftw fs (cmd @ l) =
      Again [menu, print_buf content] (fs(path \<mapsto> Regular (content @ with_newlines ls @ butlast l @ [LF]) True True)) []"
proof -
  have "schar (CHR ''2'') = 50" by (simp add: schar_def)
  then show ?thesis
    using reg getline_path [OF reg(2)]
    by (simp add: cmd interface_stage1_def fgetc_def write_stage3_def cstr_id write_loop_lines [OF lines(1)]
        write_loop_blank write_loop_last [OF lines(2)])
qed

lemma dika_write_example:
  "interface_stage1 (\<lambda>_ _. []) [''f'' \<mapsto> Regular ''a'' True True] (''2'' @ [LF] @ ''f'' @ [LF] @ ''bc'' @ [LF] @ [LF]) =
      Again [menu, Overread ''a''] [''f'' \<mapsto> Regular (''abc'' @ [LF]) True True] [] \<and>
   interface_stage1 (\<lambda>_ _. []) [''f'' \<mapsto> Regular ''a'' True True] (''2'' @ [LF] @ ''f'' @ [LF] @ ''bc'' @ [LF] @ ''de'') =
      Again [menu, Overread ''a''] [''f'' \<mapsto> Regular (''abc'' @ [LF] @ ''d'' @ [LF]) True True] []"
  using dika_write [of "[''f'' \<mapsto> Regular ''a'' True True]" "''f''" "''a''" "[''bc'']" "''de''" _ "\<lambda>_ _. []" "[]", OF _ _ _ _ _ refl]
  by (simp add: writable_line_def with_newlines_def DIKA_MAX_N_def print_buf_def)

subsection \<open>The end of the menu\<close>

lemma fgetc_set: "set (snd (fgetc s)) \<subseteq> set s"
  by (cases s) (auto simp: fgetc_def)

lemma getline_set: "getline s = Some (line, rest) \<Longrightarrow> set rest \<subseteq> set s"
proof -
  have "copy_lines k s = (l, rest, left) \<Longrightarrow> set rest \<subseteq> set s" for k l left
    by (induction k s arbitrary: l rule: copy_lines.induct) (auto split: if_splits prod.splits)
  then show "getline s = Some (line, rest) \<Longrightarrow> set rest \<subseteq> set s"
    by (auto simp: getline_def split: if_splits prod.splits)
qed

lemma fgets_set: "fgets s = Some (l, rest) \<Longrightarrow> set l \<subseteq> set s \<and> set rest \<subseteq> set s \<and> l \<noteq> []"
  using take_line_append [of "DIKA_MAX_N - 1" s l rest] by (auto simp: fgets_def DIKA_MAX_N_def split: if_splits)

lemma write_loop_no_NUL:
  "NUL \<notin> set stdin \<Longrightarrow> \<exists>content' rest. write_loop content stdin = Some (content', rest) \<and> set rest \<subseteq> set stdin"
proof (induction content stdin rule: write_loop.induct)
  case (1 content stdin)
  show ?case
  proof (cases "fgets stdin")
    case None
    then show ?thesis by (subst write_loop.simps) simp
  next
    case (Some lr)
    obtain l rest where l: "fgets stdin = Some (l, rest)" using Some by (cases lr) simp
    note sets = fgets_set [OF l]
    then have "strlen l \<noteq> 0" using 1(2) by (cases l) (auto simp: strlen_def cstr_def)
    moreover have "NUL \<notin> set rest" using sets 1(2) by blast
    ultimately show ?thesis using 1(1) [OF l refl _ refl] l sets
      by (subst write_loop.simps) (fastforce simp: Let_def)
  qed
qed

lemma write_stage3_no_NUL:
  "NUL \<notin> set stdin \<Longrightarrow> \<exists>out n' rest. write_stage3 n stdin = Some (out, n', rest) \<and> set rest \<subseteq> set stdin"
proof (cases n)
  case (Regular content r w)
  assume "NUL \<notin> set stdin"
  then obtain content' rest where "write_loop content stdin = Some (content', rest)" "set rest \<subseteq> set stdin"
    using write_loop_no_NUL by blast
  with Regular show ?thesis by (simp add: write_stage3_def)
qed (simp_all add: write_stage3_def)


lemma interface_sets:
  "(case interface_stage1 ftw fs stdin of
      Exit _ \<Rightarrow> CHR ''4'' \<in> set stdin
    | Crash \<Rightarrow> NUL \<in> set stdin
    | Again _ _ stdin' \<Rightarrow> NUL \<notin> set stdin \<longrightarrow> set stdin' \<subseteq> set stdin)"
proof -
  obtain c s1 where c: "fgetc stdin = (c, s1)" by (cases "fgetc stdin") simp
  obtain d s2 where d: "fgetc s1 = (d, s2)" by (cases "fgetc s1") simp
  have s1: "set s1 \<subseteq> set stdin" using fgetc_set [of stdin] c by simp
  have s2: "set s2 \<subseteq> set stdin" using fgetc_set [of s1] d s1 by auto
  consider (bad) "schar c < 49 \<or> 52 < schar c" | (four) "\<not> (schar c < 49 \<or> 52 < schar c)" "c = CHR ''4''"
    | (path) "\<not> (schar c < 49 \<or> 52 < schar c)" "c \<noteq> CHR ''4''" by blast
  then show ?thesis
  proof cases
    case bad
    then show ?thesis using s2 by (simp add: interface_stage1_def c d)
  next
    case four
    have "char_of_int (-1) \<noteq> CHR ''4''"
    proof
      assume "char_of_int (-1) = CHR ''4''"
      then have "(of_char (char_of (255 :: nat)) :: nat) = of_char (CHR ''4'')" by (simp add: char_of_int_def)
      then show False by simp
    qed
    then have "stdin \<noteq> []" using four c by (auto simp: fgetc_def)
    then have "c \<in> set stdin" using c by (cases stdin) (simp_all add: fgetc_def)
    then show ?thesis using four by (simp add: interface_stage1_def c d)
  next
    case path
    show ?thesis
    proof (cases "getline s2")
      case None
      then show ?thesis using path s2 by (simp add: interface_stage1_def c d)
    next
      case (Some lr)
      obtain line s3 where l: "getline s2 = Some (line, s3)" using Some by (cases lr) simp
      then have s3: "set s3 \<subseteq> set stdin" using getline_set [OF l] s2 by blast
      show ?thesis
      proof (cases "fs (cstr (butlast line))")
        case None
        then show ?thesis using path l s3 by (simp add: interface_stage1_def c d Let_def)
      next
        case (Some n)
        show ?thesis
        proof (cases "NUL \<in> set stdin")
          case True
          then show ?thesis using path l Some
            by (simp add: interface_stage1_def c d Let_def split: option.split prod.split)
        next
          case False
          then have "NUL \<notin> set s3" using s3 by blast
          then obtain out n' rest where w: "write_stage3 n s3 = Some (out, n', rest)" "set rest \<subseteq> set s3"
            using write_stage3_no_NUL by blast
          then have "set rest \<subseteq> set stdin" using s3 by blast
          then show ?thesis using path l Some s3 w(1) by (simp add: interface_stage1_def c d Let_def)
        qed
      qed
    qed
  qed
qed

lemma dika_returns: "dika_main ftw fs stdin out = Some r \<Longrightarrow> CHR ''4'' \<in> set stdin \<or> NUL \<in> set stdin"
proof (rule dika_main.raw_induct [where P = "\<lambda>ftw fs stdin out r. CHR ''4'' \<in> set stdin \<or> NUL \<in> set stdin"])
  fix main ftw fs stdin out r
  assume IH: "\<And>ftw fs stdin out r. main ftw fs stdin out = Some r \<Longrightarrow> CHR ''4'' \<in> set stdin \<or> NUL \<in> set stdin"
    and r: "(case interface_stage1 ftw fs stdin of
      Again out' fs' stdin' \<Rightarrow> main ftw fs' stdin' (out @ out')
    | Exit out' \<Rightarrow> Some (out @ out', Some fs) | Crash \<Rightarrow> Some (out, None)) = Some r"
  show "CHR ''4'' \<in> set stdin \<or> NUL \<in> set stdin"
  proof (cases "interface_stage1 ftw fs stdin")
    case (Again out' fs' stdin')
    then have "main ftw fs' stdin' (out @ out') = Some r" using r by simp
    then have "CHR ''4'' \<in> set stdin' \<or> NUL \<in> set stdin'" by (rule IH)
    then show ?thesis using Again interface_sets [where ftw = ftw and fs = fs and stdin = stdin] by auto
  qed (use interface_sets [where ftw = ftw and fs = fs and stdin = stdin] in auto)
qed

text \<open>
  The menu ends by the command 4 only. An input without that character (and without NULs, which
  can crash it) makes \<open>main\<close> run for ever: at the end of the input \<open>fgetc\<close> gives \<open>EOF\<close>, which is
  taken for a bad command, again and again.
\<close>

lemma dika_needs_exit:
  assumes "CHR ''4'' \<notin> set stdin" "NUL \<notin> set stdin"
  shows "dika_main ftw fs stdin out = None"
proof (rule ccontr)
  assume "dika_main ftw fs stdin out \<noteq> None"
  then obtain r where "dika_main ftw fs stdin out = Some r" by blast
  then have "CHR ''4'' \<in> set stdin \<or> NUL \<in> set stdin" by (rule dika_returns)
  with assms show False by blast
qed

lemma dika_needs_exit_example:
  "dika_main (\<lambda>_ _. []) Map.empty (''1'' @ [LF] @ ''f'' @ [LF]) [] = None \<and>
   dika_main (\<lambda>_ _. []) Map.empty (''1'' @ [LF] @ ''f'' @ [LF] @ ''4'') [] = Some ([menu, puts ''file not available'', menu], Some Map.empty)"
proof
  show "dika_main (\<lambda>_ _. []) Map.empty (''1'' @ [LF] @ ''f'' @ [LF]) [] = None" by (rule dika_needs_exit) simp_all
  have l: "getline (''f'' @ LF # rest) = Some (''f'' @ [LF], rest)" for rest by (rule getline_path) simp
  show "dika_main (\<lambda>_ _. []) Map.empty (''1'' @ [LF] @ ''f'' @ [LF] @ ''4'') [] = Some ([menu, puts ''file not available'', menu], Some Map.empty)"
    using l [of "''4''"]
    by (simp add: dika_main.simps interface_stage1_def fgetc_def schar_def)
qed

end
