(* ===== verification/City.thy ===== *)
theory City
  imports Prelude
begin

section \<open>The client of the city game\<close>

text \<open>
  \<open>sop2/lab04/zad04/zad04.c\<close>: commands from standard input change a table of owners and go to the
  server as four-byte messages. \<open>epoll_wait\<close> looks at the descriptor, \<open>getline\<close> at the buffer of
  the stream; both are in the model. Nothing is ever read from the server.
\<close>

definition MAX_EVENTS :: nat where "MAX_EVENTS = 20"

text \<open>Owners: \<open>-1\<close> nobody, 0 the Greeks, 1 the Persians. The bytes that have arrived at the
  descriptor as the pieces that \<open>read\<close> will get, and the bytes in the buffer of the stream.\<close>

record city_client =
  cc_owner :: "int list"
  cc_arrived :: "string list"
  cc_buffer :: string
  cc_sent :: string
  cc_printed :: "string list"
  cc_do_work :: bool

definition run_client_start :: city_client where
  "run_client_start =
     \<lparr>cc_owner = replicate MAX_EVENTS (-1), cc_arrived = [], cc_buffer = [], cc_sent = [], cc_printed = [],
      cc_do_work = True\<rparr>"

text \<open>\<open>sprintf\<close> with \<open>"%c%02d\n"\<close>.\<close>

definition city_msg :: "char \<Rightarrow> int \<Rightarrow> string" where
  "city_msg c x = c # (if x < 10 then CHR ''0'' # show_int x else show_int x) @ [LF]"

definition owner_line :: "nat \<Rightarrow> int \<Rightarrow> string" where
  "owner_line i o' =
     ''City '' @ decimal (i + 1) @ '' belongs to the '' @
       (if o' = 0 then ''Greeks'' else if o' = 1 then ''Persians'' else ''???'') @ [LF]"

text \<open>What is done with a line (of any length, with its newline) and a result of \<open>rand\<close>.\<close>

definition command :: "string \<Rightarrow> nat \<Rightarrow> city_client \<Rightarrow> city_client" where
  "command buf r s =
     (if length buf = 2 \<and> buf ! 0 = CHR ''e'' then s\<lparr>cc_do_work := False\<rparr>
      else
        (let s = (if length buf = 2 \<and> buf ! 0 = CHR ''o''
                  then s\<lparr>cc_printed := cc_printed s @ map (\<lambda>i. owner_line i (cc_owner s ! i)) [0..<MAX_EVENTS]\<rparr>
                  else s)
         in if length buf = 5 \<and> buf ! 0 = CHR ''t''
            then
              (let x = atoi (cstr (drop 2 buf))
               in if x < 1 \<or> 20 < x then s\<lparr>cc_printed := cc_printed s @ [''t XX, where 01 <= XX <= 20'' @ [LF]]\<rparr>
                  else
                    (let persian = r mod 2 = 0;
                         random_c = if persian then CHR ''p'' else CHR ''g''
                     in s\<lparr>cc_owner := (cc_owner s)[nat (x - 1) := if persian then 1 else 0],
                          cc_sent := cc_sent s @ city_msg random_c x\<rparr>))
            else s))"

text \<open>\<open>getline\<close>: the line, the rest of the buffer and the pieces left; \<open>None\<close> while it waits.\<close>

fun getline_from :: "string \<Rightarrow> string list \<Rightarrow> (string \<times> string \<times> string list) option" where
  "getline_from buffer [] =
     (if LF \<in> set buffer
      then Some (takeWhile (\<lambda>c. c \<noteq> LF) buffer @ [LF], tl (dropWhile (\<lambda>c. c \<noteq> LF) buffer), []) else None)"
| "getline_from buffer (piece # pieces) =
     (if LF \<in> set buffer
      then Some (takeWhile (\<lambda>c. c \<noteq> LF) buffer @ [LF], tl (dropWhile (\<lambda>c. c \<noteq> LF) buffer), piece # pieces)
      else getline_from (buffer @ piece) pieces)"

text \<open>A round of the loop: \<open>epoll_wait\<close> reports standard input when something has arrived there.\<close>

definition city_round :: "nat \<Rightarrow> city_client \<Rightarrow> city_client option" where
  "city_round r s =
     (if \<not> cc_do_work s \<or> cc_arrived s = [] then None
      else
        (case getline_from (cc_buffer s) (cc_arrived s) of
           None \<Rightarrow> None
         | Some (line, rest, pieces) \<Rightarrow> Some (command line r (s\<lparr>cc_buffer := rest, cc_arrived := pieces\<rparr>))))"

datatype city_event = Arrive string | Round nat

definition city_act :: "city_event \<Rightarrow> city_client \<Rightarrow> city_client" where
  "city_act e s =
     (case e of
        Arrive piece \<Rightarrow> s\<lparr>cc_arrived := cc_arrived s @ [piece]\<rparr>
      | Round r \<Rightarrow> (case city_round r s of None \<Rightarrow> s | Some t \<Rightarrow> t))"

definition run_client :: "city_event list \<Rightarrow> city_client \<Rightarrow> city_client" where
  "run_client es s = fold city_act es s"

subsection \<open>The messages\<close>

text \<open>What a reader of the messages makes of them: for each four bytes the owner and the city.\<close>

fun read_msgs :: "string \<Rightarrow> (int \<times> int) list option" where
  "read_msgs [] = Some []"
| "read_msgs (c # a # b # d # rest) =
     (if (c = CHR ''g'' \<or> c = CHR ''p'') \<and> d = LF
      then map_option (\<lambda>ms. (if c = CHR ''p'' then 1 else 0, atoi [a, b]) # ms) (read_msgs rest) else None)"
| "read_msgs _ = None"

definition take_city :: "int list \<Rightarrow> int \<times> int \<Rightarrow> int list" where
  "take_city owner m = owner[nat (snd m - 1) := fst m]"

lemma read_msgs_append:
  "read_msgs xs = Some ms \<Longrightarrow> read_msgs ys = Some ns \<Longrightarrow> read_msgs (xs @ ys) = Some (ms @ ns)"
  by (induction xs arbitrary: ms rule: read_msgs.induct) (auto split: if_splits)

lemma city_number:
  assumes "1 \<le> x" "x \<le> 20"
  shows "\<exists>a b. (if x < 10 then CHR ''0'' # show_int x else show_int x) = [a, b] \<and> atoi [a, b] = x"
proof -
  have "x = 1 \<or> x = 2 \<or> x = 3 \<or> x = 4 \<or> x = 5 \<or>
      x = 6 \<or> x = 7 \<or> x = 8 \<or> x = 9 \<or> x = 10 \<or>
      x = 11 \<or> x = 12 \<or> x = 13 \<or> x = 14 \<or> x = 15 \<or>
      x = 16 \<or> x = 17 \<or> x = 18 \<or> x = 19 \<or> x = 20"
    using assms by presburger
  then show ?thesis
    by (elim disjE)
      (simp_all add: show_int_def decimal.simps cstr_simps atoi_def is_blank_def digits_value_def is_digit_def)
qed

lemma read_city_msg:
  assumes "1 \<le> x" "x \<le> 20" "c = CHR ''p'' \<or> c = CHR ''g''"
  shows "read_msgs (city_msg c x) = Some [(if c = CHR ''p'' then 1 else 0, x)]" "length (city_msg c x) = 4"
  using city_number [OF assms(1,2)] assms(3) by (auto simp: city_msg_def)

text \<open>The invariant: the messages read back give the table.\<close>

definition city_inv :: "city_client \<Rightarrow> bool" where
  "city_inv s \<longleftrightarrow> (\<exists>ms. read_msgs (cc_sent s) = Some ms \<and> length (cc_sent s) = 4 * length ms \<and>
     cc_owner s = foldl take_city (replicate MAX_EVENTS (-1)) ms \<and> list_all (\<lambda>m. snd m \<in> {1..20}) ms)"

lemma city_command_inv: "city_inv s \<Longrightarrow> city_inv (command buf r s)"
proof -
  assume inv: "city_inv s"
  define c where "c = (if r mod 2 = 0 then CHR ''p'' else CHR ''g'')"
  define x where "x = atoi (cstr (drop 2 buf))"
  define s1 where "s1 = s\<lparr>cc_owner := (cc_owner s)[nat (x - 1) := if r mod 2 = 0 then 1 else 0],
    cc_sent := cc_sent s @ city_msg c x\<rparr>"
  have same: "city_inv t" if "cc_sent t = cc_sent s" "cc_owner t = cc_owner s" for t
    using inv that by (simp add: city_inv_def)
  have taken: "city_inv s1" if x: "1 \<le> x" "x \<le> 20"
  proof -
    obtain ms where ms: "read_msgs (cc_sent s) = Some ms" "length (cc_sent s) = 4 * length ms"
      "cc_owner s = foldl take_city (replicate MAX_EVENTS (-1)) ms" "list_all (\<lambda>m. snd m \<in> {1..20}) ms"
      using inv by (auto simp: city_inv_def)
    define m :: "int \<times> int" where "m = (if c = CHR ''p'' then 1 else 0, x)"
    have "c = CHR ''p'' \<or> c = CHR ''g''" by (simp add: c_def)
    note rd = read_city_msg [OF x this]
    have "read_msgs (cc_sent s1) = Some (ms @ [m])" using read_msgs_append [OF ms(1) rd(1)] by (simp add: s1_def m_def)
    moreover have "length (cc_sent s1) = 4 * length (ms @ [m])" using ms(2) rd(2) by (simp add: s1_def)
    moreover have "cc_owner s1 = foldl take_city (replicate MAX_EVENTS (-1)) (ms @ [m])"
      using ms(3) by (simp add: s1_def m_def take_city_def c_def)
    moreover have "list_all (\<lambda>m. snd m \<in> {1..20}) (ms @ [m])" using ms(4) x by (simp add: m_def)
    ultimately show ?thesis unfolding city_inv_def by blast
  qed
  show ?thesis
  proof (cases "length buf = 5 \<and> buf ! 0 = CHR ''t''")
    case True
    then have cmd: "command buf r s = (if x < 1 \<or> 20 < x
        then s\<lparr>cc_printed := cc_printed s @ [''t XX, where 01 <= XX <= 20'' @ [LF]]\<rparr> else s1)"
      by (auto simp: command_def Let_def x_def c_def s1_def)
    show ?thesis
    proof (cases "x < 1 \<or> 20 < x")
      case True
      then show ?thesis unfolding cmd by (simp add: same)
    next
      case False
      then show ?thesis unfolding cmd using taken by simp
    qed
  next
    case False
    then show ?thesis by (intro same) (auto simp: command_def Let_def)
  qed
qed


lemma city_act_inv: "city_inv s \<Longrightarrow> city_inv (city_act e s)"
proof -
  assume inv: "city_inv s"
  have more: "city_inv (s\<lparr>cc_arrived := x, cc_buffer := y\<rparr>)" "city_inv (s\<lparr>cc_arrived := x\<rparr>)"
    "city_inv (s\<lparr>cc_buffer := y, cc_arrived := x\<rparr>)" for x y
    using inv by (simp_all add: city_inv_def)
  show ?thesis
  proof (cases e)
    case (Arrive piece)
    then show ?thesis using more by (simp add: city_act_def)
  next
    case (Round r)
    then show ?thesis using inv more city_command_inv
      by (auto simp: city_act_def city_round_def split: option.splits if_splits)
  qed
qed

lemma city_inv_start: "city_inv run_client_start"
  by (auto simp: city_inv_def run_client_start_def)

interpretation city_sys: invariant_system "\<lambda>s. s = run_client_start" "\<lambda>s t. \<exists>e. t = city_act e s" city_inv
  by unfold_locales (auto simp: city_inv_start city_act_inv)

lemma run_client_steps: "(\<lambda>s t. \<exists>e. t = city_act e s)\<^sup>*\<^sup>* s (run_client es s)"
proof (induction es arbitrary: s)
  case (Cons e es)
  have "(\<lambda>s t. \<exists>e. t = city_act e s)\<^sup>*\<^sup>* (city_act e s) (run_client (e # es) s)" using Cons by (simp add: run_client_def)
  then show ?case by (rule converse_rtranclp_into_rtranclp [rotated]) blast
qed (simp add: run_client_def)

text \<open>
  C29: the table and the messages. Whatever arrives on standard input, in pieces of any size, and
  whatever \<open>rand\<close> gives, the bytes sent to the server are messages of four bytes, each with the
  number of one of the twenty cities, and a reader that takes the cities over one by one as the
  messages say gets the client's own table of owners.
\<close>

theorem city_table:
  "\<exists>ms. read_msgs (cc_sent (run_client es run_client_start)) = Some ms \<and>
     length (cc_sent (run_client es run_client_start)) = 4 * length ms \<and> snd ` set ms \<subseteq> {1..20} \<and>
     cc_owner (run_client es run_client_start) = foldl take_city (replicate MAX_EVENTS (-1)) ms"
proof -
  have "city_inv (run_client es run_client_start)"
    using city_sys.inv_reachable [OF refl run_client_steps] .
  then show ?thesis unfolding city_inv_def list_all_iff by blast
qed

text \<open>Lines that arrive one by one are all executed; of two lines in one piece the second one waits in
  the buffer of the stream, where \<open>epoll_wait\<close> does not see it.\<close>

lemma city_line:
  assumes "LF \<notin> set body" "cc_do_work s" "cc_arrived s = []" "cc_buffer s = []"
  shows "run_client [Arrive (body @ [LF]), Round r] s = command (body @ [LF]) r s"
proof -
  have tw: "takeWhile (\<lambda>c. c \<noteq> LF) (body @ [LF]) = body" "dropWhile (\<lambda>c. c \<noteq> LF) (body @ [LF]) = [LF]"
    using assms(1) by (auto simp: takeWhile_append dropWhile_append takeWhile_eq_all_conv)
  have g: "getline_from [] [body @ [LF]] = Some (body @ [LF], [], [])" by (simp add: tw)
  have e: "s\<lparr>cc_buffer := [], cc_arrived := []\<rparr> = s" using assms(3,4) by (cases s) simp
  have "run_client [Arrive (body @ [LF]), Round r] s = command (body @ [LF]) r (s\<lparr>cc_buffer := [], cc_arrived := []\<rparr>)"
    using assms g by (simp add: run_client_def city_act_def city_round_def del: getline_from.simps)
  then show ?thesis unfolding e .
qed

lemma city_stuck:
  "(let s = run_client [Arrive (''o'' @ [LF] @ ''t 01'' @ [LF]), Round 0] run_client_start
    in cc_buffer s = ''t 01'' @ [LF] \<and> cc_sent s = [] \<and> (\<forall>r. city_round r s = None))"
  by (simp add: run_client_def city_act_def city_round_def command_def run_client_start_def Let_def)

end
