(* ===== verification/Signals.thy ===== *)
theory Signals
  imports Prelude
begin

section \<open>Programs driven by signals\<close>

text \<open>
  \<open>sop1/lab02/prelab/retake2023/src_retake/sop-cluster.c\<close> (a parent lets one child after the other
  count), \<open>sop1/lab02/prelab/task2023/src/sop-kg.c\<close> (children that infect each other) and
  \<open>sop1/lab02/tutorial/example1/sop-fork.c\<close> (a parent that collects its children). A signal is
  handled at once, between any two steps of its receiver.
\<close>

subsection \<open>The cluster\<close>

text \<open>A child before and between its two calls of \<open>sethandler\<close>; in front of a test of \<open>child_running\<close>
  that guards \<open>sigsuspend\<close>; between that test and \<open>sigsuspend\<close>; in it; in the counting loop, in front of
  its test; and killed.\<close>

datatype child_point = Fresh | Half | Checking | Suspending | Suspended | Counting | Killed

record child =
  ch_point :: child_point
  ch_running :: bool \<comment> \<open>\<open>child_running\<close>\<close>
  ch_counter :: nat

text \<open>The parent, with its \<open>i\<close>: in front of \<open>kill (SIGUSR1)\<close>, of \<open>parent_running = 0\<close>, of the test,
  of \<open>sigsuspend\<close>, in it, and in front of \<open>kill (SIGUSR2)\<close>.\<close>

datatype parent_point = Starting | Clearing | Testing | Dozing | Sleeping | Stopping

record cluster =
  cl_children :: "child list"
  cl_i :: nat
  cl_point :: parent_point
  cl_running :: bool \<comment> \<open>\<open>parent_running\<close>\<close>

definition cluster_start :: "nat \<Rightarrow> cluster" where
  "cluster_start n =
     \<lparr>cl_children = replicate n \<lparr>ch_point = Fresh, ch_running = False, ch_counter = 1\<rparr>, cl_i = 0,
      cl_point = Starting, cl_running = False\<rparr>"

text \<open>\<open>sigusr1_child_handler\<close>; a fresh child still has the handler of its parent.\<close>

definition sigusr1_child :: "child \<Rightarrow> child" where
  "sigusr1_child c =
     (case ch_point c of
        Fresh \<Rightarrow> c | Killed \<Rightarrow> c
      | Suspended \<Rightarrow> c\<lparr>ch_running := True, ch_point := Checking\<rparr>
      | _ \<Rightarrow> c\<lparr>ch_running := True\<rparr>)"

text \<open>\<open>sigusr2_handler\<close>; without it the signal kills.\<close>

definition sigusr2_child :: "child \<Rightarrow> child" where
  "sigusr2_child c =
     (case ch_point c of
        Fresh \<Rightarrow> c\<lparr>ch_point := Killed\<rparr> | Half \<Rightarrow> c\<lparr>ch_point := Killed, ch_running := False\<rparr> | Killed \<Rightarrow> c
      | Suspended \<Rightarrow> c\<lparr>ch_running := False, ch_point := Checking\<rparr>
      | _ \<Rightarrow> c\<lparr>ch_running := False\<rparr>)"

text \<open>A step of \<open>child_work\<close>: both waiting loops are the same, and between the test of the counting
  loop and the next one lies a round of it.\<close>

definition child_work :: "child \<Rightarrow> child option" where
  "child_work c =
     (case ch_point c of
        Fresh \<Rightarrow> Some (c\<lparr>ch_point := Half\<rparr>)
      | Half \<Rightarrow> Some (c\<lparr>ch_point := Checking\<rparr>)
      | Checking \<Rightarrow> Some (c\<lparr>ch_point := if ch_running c then Counting else Suspending\<rparr>)
      | Suspending \<Rightarrow> Some (c\<lparr>ch_point := Suspended\<rparr>)
      | Counting \<Rightarrow>
          Some (if ch_running c then c\<lparr>ch_counter := ch_counter c + 1\<rparr> else c\<lparr>ch_point := Checking\<rparr>)
      | _ \<Rightarrow> None)"

definition on_child :: "nat \<Rightarrow> (child \<Rightarrow> child) \<Rightarrow> cluster \<Rightarrow> cluster" where
  "on_child i f s = s\<lparr>cl_children := (cl_children s)[i := f (cl_children s ! i)]\<rparr>"

text \<open>A step of the loop of \<open>main\<close>.\<close>

definition cluster_main :: "cluster \<Rightarrow> cluster option" where
  "cluster_main s =
     (case cl_point s of
        Starting \<Rightarrow> Some (on_child (cl_i s) sigusr1_child (s\<lparr>cl_point := Clearing\<rparr>))
      | Clearing \<Rightarrow> Some (s\<lparr>cl_running := False, cl_point := Testing\<rparr>)
      | Testing \<Rightarrow> Some (s\<lparr>cl_point := if cl_running s then Stopping else Dozing\<rparr>)
      | Dozing \<Rightarrow> Some (s\<lparr>cl_point := Sleeping\<rparr>)
      | Sleeping \<Rightarrow> None
      | Stopping \<Rightarrow>
          Some (on_child (cl_i s) sigusr2_child
            (s\<lparr>cl_i := (cl_i s + 1) mod length (cl_children s), cl_point := Starting\<rparr>)))"

text \<open>\<open>sigusr1_parent_handler\<close>: somebody outside wants the next child.\<close>

definition sigusr1_parent :: "cluster \<Rightarrow> cluster" where
  "sigusr1_parent s =
     s\<lparr>cl_running := True, cl_point := if cl_point s = Sleeping then Testing else cl_point s\<rparr>"

inductive cluster_step :: "cluster \<Rightarrow> cluster \<Rightarrow> bool" where
  main: "cluster_main s = Some t \<Longrightarrow> cluster_step s t"
| outside: "cluster_step s (sigusr1_parent s)"
| child: "i < length (cl_children s) \<Longrightarrow> child_work (cl_children s ! i) = Some c \<Longrightarrow>
    cluster_step s (on_child i (\<lambda>_. c) s)"

inductive_cases cluster_stepE: "cluster_step s t"










text \<open>Runs of the cluster as lists of choices.\<close>

datatype cluster_choice = Main | Outside | Child nat

definition cluster_act :: "cluster_choice \<Rightarrow> cluster \<Rightarrow> cluster option" where
  "cluster_act a s =
     (case a of
        Main \<Rightarrow> cluster_main s
      | Outside \<Rightarrow> Some (sigusr1_parent s)
      | Child i \<Rightarrow>
          (if i < length (cl_children s) then map_option (\<lambda>c. on_child i (\<lambda>_. c) s) (child_work (cl_children s ! i))
           else None))"

fun run_cluster :: "cluster_choice list \<Rightarrow> cluster \<Rightarrow> cluster option" where
  "run_cluster [] s = Some s"
| "run_cluster (a # as) s = (case cluster_act a s of None \<Rightarrow> None | Some t \<Rightarrow> run_cluster as t)"





text \<open>A child that the start reaches between its test and \<open>sigsuspend\<close> sleeps on: nothing it or the
  parent does wakes it, until it is told to stop.\<close>

lemma cluster_lost_start:
  "(case run_cluster [Child 0, Child 0, Child 0, Main, Child 0, Main, Main, Main] (cluster_start 1) of None \<Rightarrow> False
    | Some s \<Rightarrow> ch_running (cl_children s ! 0) \<and> ch_point (cl_children s ! 0) = Suspended \<and>
        cluster_act Main s = None \<and> cluster_act (Child 0) s = None)"
  by code_simp

subsection \<open>The kindergarten\<close>

text \<open>
  Every process has its own copy of the globals. A child in front of each of its two calls of
  \<open>set_handler\<close>; in its loop; ended by \<open>SIGTERM\<close>. The parent in front of \<open>alarm\<close>'s end; and behind
  \<open>kill (0, SIGTERM)\<close>, where it sets \<open>sick[0]\<close> in its copy and waits.
\<close>

definition KG_MAX_N :: nat where "KG_MAX_N = 100"

datatype kg_point = KgStart | KgTerm | KgLoop | KgEnded

record kg_child =
  kg_at :: kg_point
  kg_sick :: "nat list"
  kg_cough_cnt :: "nat list"
  kg_last_signal :: bool

record kindergarten =
  kg_children :: "kg_child list"
  kg_parent_sick :: "nat list"
  kg_alarm :: bool \<comment> \<open>\<open>SIGALRM\<close> has come\<close>
  kg_waiting :: bool

definition kg_start :: "nat \<Rightarrow> kindergarten" where
  "kg_start n =
     \<lparr>kg_children = replicate n \<lparr>kg_at = KgStart, kg_sick = replicate KG_MAX_N 0,
        kg_cough_cnt = replicate KG_MAX_N 0, kg_last_signal = False\<rparr>,
      kg_parent_sick = replicate KG_MAX_N 0, kg_alarm = False, kg_waiting = False\<rparr>"

text \<open>\<open>sig_handler\<close>, which is what is installed for \<open>SIGUSR1\<close>; before that it is ignored.\<close>

definition kg_sigusr1 :: "kg_child \<Rightarrow> kg_child" where
  "kg_sigusr1 c = (if kg_at c = KgLoop then c\<lparr>kg_last_signal := True\<rparr> else c)"

text \<open>\<open>sigterm_handler\<close>; before it is installed \<open>SIGTERM\<close> is ignored.\<close>

definition kg_sigterm :: "kg_child \<Rightarrow> kg_child" where
  "kg_sigterm c = (if kg_at c \<in> {KgTerm, KgLoop} then c\<lparr>kg_at := KgEnded\<rparr> else c)"

text \<open>A step of \<open>child_work\<close>: a round of the loop of a sick child sends \<open>SIGUSR1\<close> to all.\<close>

definition kg_child_work :: "nat \<Rightarrow> kindergarten \<Rightarrow> kindergarten option" where
  "kg_child_work i s =
     (let c = kg_children s ! i in
      case kg_at c of
        KgStart \<Rightarrow> Some (s\<lparr>kg_children := (kg_children s)[i := c\<lparr>kg_at := KgTerm\<rparr>]\<rparr>)
      | KgTerm \<Rightarrow> Some (s\<lparr>kg_children := (kg_children s)[i := c\<lparr>kg_at := KgLoop\<rparr>]\<rparr>)
      | KgLoop \<Rightarrow>
          Some (if kg_sick c ! i \<noteq> 0
                then s\<lparr>kg_children := map kg_sigusr1 ((kg_children s)[i := c\<lparr>kg_cough_cnt := (kg_cough_cnt c)[i := kg_cough_cnt c ! i + 1]\<rparr>])\<rparr>
                else s)
      | KgEnded \<Rightarrow> None)"

definition kg_parent_work :: "kindergarten \<Rightarrow> kindergarten option" where
  "kg_parent_work s =
     (if kg_waiting s then None
      else if kg_alarm s
      then Some (s\<lparr>kg_children := map kg_sigterm (kg_children s), kg_parent_sick := (kg_parent_sick s)[0 := 1], kg_waiting := True\<rparr>)
      else Some (s\<lparr>kg_alarm := True\<rparr>))"

inductive kg_step :: "kindergarten \<Rightarrow> kindergarten \<Rightarrow> bool" where
  "kg_parent_work s = Some t \<Longrightarrow> kg_step s t"
| "i < length (kg_children s) \<Longrightarrow> kg_child_work i s = Some t \<Longrightarrow> kg_step s t"

definition healthy :: "nat \<Rightarrow> kg_child \<Rightarrow> bool" where
  "healthy n c \<longleftrightarrow> kg_sick c = replicate KG_MAX_N 0 \<and> kg_cough_cnt c = replicate KG_MAX_N 0 \<and> \<not> kg_last_signal c"

definition kg_inv :: "nat \<Rightarrow> kindergarten \<Rightarrow> bool" where
  "kg_inv n s \<longleftrightarrow> length (kg_children s) = n \<and> list_all (healthy n) (kg_children s)"

lemma kg_step_inv: "kg_step s t \<Longrightarrow> n \<le> KG_MAX_N \<Longrightarrow> kg_inv n s \<Longrightarrow> kg_inv n t"
proof (induction rule: kg_step.induct)
  case (1 s t)
  have "list_all (healthy n) (map kg_sigterm (kg_children s))"
    using 1 by (auto simp: kg_inv_def list_all_iff healthy_def kg_sigterm_def)
  with 1 show ?case by (auto simp: kg_parent_work_def kg_inv_def split: if_splits)
next
  case (2 i s t)
  let ?c = "kg_children s ! i"
  have c: "healthy n ?c" using 2 by (simp add: kg_inv_def list_all_length)
  then have well: "kg_sick ?c ! i = 0" using 2 by (simp add: healthy_def kg_inv_def)
  have keep: "list_all (healthy n) ((kg_children s)[i := ?c\<lparr>kg_at := p\<rparr>])" for p
    using 2 c by (intro list_all_update) (simp_all add: kg_inv_def healthy_def)
  show ?case using 2 well keep by (cases "kg_at ?c") (auto simp: kg_child_work_def Let_def kg_inv_def)
qed

interpretation kg_sys: invariant_system "\<lambda>s. n \<le> KG_MAX_N \<and> s = kg_start n" kg_step "\<lambda>s. kg_inv n s \<and> n \<le> KG_MAX_N" for n
proof unfold_locales
  fix s assume "n \<le> KG_MAX_N \<and> s = kg_start n"
  then show "kg_inv n s \<and> n \<le> KG_MAX_N" by (auto simp: kg_inv_def kg_start_def healthy_def list_all_length)
qed (use kg_step_inv in blast)

text \<open>
  Nobody in the kindergarten ever falls ill. In every interleaving no child is sick, coughs or
  gets \<open>SIGUSR1\<close>: the handler that would infect is never installed, and the parent marks the first
  child as sick in its own memory, after the children are told to end.
\<close>

lemma kindergarten_healthy:
  assumes "n \<le> KG_MAX_N" "kg_step\<^sup>*\<^sup>* (kg_start n) s"
  shows "list_all (\<lambda>c. kg_sick c = replicate KG_MAX_N 0 \<and> kg_cough_cnt c = replicate KG_MAX_N 0 \<and> \<not> kg_last_signal c) (kg_children s)"
proof -
  have "kg_inv n s \<and> n \<le> KG_MAX_N" using kg_sys.inv_reachable [of n] assms by blast
  then show ?thesis by (simp add: kg_inv_def healthy_def [abs_def])
qed

lemma kindergarten_healthy_example:
  "\<exists>s. kg_step\<^sup>*\<^sup>* (kg_start 1) s \<and> map kg_at (kg_children s) = [KgTerm] \<and> kg_sick (kg_children s ! 0) = replicate KG_MAX_N 0"
proof -
  have "kg_child_work 0 (kg_start 1) = Some ((kg_start 1)\<lparr>kg_children := [(kg_children (kg_start 1) ! 0)\<lparr>kg_at := KgTerm\<rparr>]\<rparr>)"
    by (simp add: kg_child_work_def kg_start_def)
  then have "kg_step (kg_start 1) ((kg_start 1)\<lparr>kg_children := [(kg_children (kg_start 1) ! 0)\<lparr>kg_at := KgTerm\<rparr>]\<rparr>)"
    by (rule kg_step.intros(2) [rotated]) (simp add: kg_start_def)
  then have run: "kg_step\<^sup>*\<^sup>* (kg_start 1) ((kg_start 1)\<lparr>kg_children := [(kg_children (kg_start 1) ! 0)\<lparr>kg_at := KgTerm\<rparr>]\<rparr>)"
    by (rule r_into_rtranclp)
  have "1 \<le> KG_MAX_N" by (simp add: KG_MAX_N_def)
  from kindergarten_healthy [OF this run] run show ?thesis by (intro exI conjI) (assumption, simp_all)
qed

text \<open>A child that \<open>SIGTERM\<close> reaches too early ignores it, and the parent waits for it for ever.\<close>

lemma kindergarten_deaf: "kg_at c = KgStart \<Longrightarrow> kg_sigterm c = c"
  by (simp add: kg_sigterm_def)

subsection \<open>Collecting the children\<close>

text \<open>\<open>main\<close> of \<open>sop-fork.c\<close>: children that run, children that have ended and are not waited for, and
  the parent's count; \<open>Collecting\<close> is the inner loop.\<close>

datatype fork_point = Sleep3 | Collecting | Done

record family =
  fa_alive :: nat
  fa_zombies :: nat
  fa_n :: nat
  fa_point :: fork_point

definition fork_start :: "nat \<Rightarrow> family" where
  "fork_start n = \<lparr>fa_alive = n, fa_zombies = 0, fa_n = n, fa_point = if n > 0 then Sleep3 else Done\<rparr>"

text \<open>A round of the inner loop with \<open>waitpid\<close>, and the test of the outer one behind it.\<close>

definition fork_main :: "family \<Rightarrow> family option" where
  "fork_main s =
     (case fa_point s of
        Sleep3 \<Rightarrow> Some (s\<lparr>fa_point := Collecting\<rparr>)
      | Collecting \<Rightarrow>
          (if fa_zombies s > 0 then Some (s\<lparr>fa_zombies := fa_zombies s - 1, fa_n := fa_n s - 1\<rparr>)
           else Some (s\<lparr>fa_point := if fa_n s > 0 then Sleep3 else Done\<rparr>))
      | Done \<Rightarrow> None)"

inductive fork_step :: "family \<Rightarrow> family \<Rightarrow> bool" where
  "fork_main s = Some t \<Longrightarrow> fork_step s t"
| "fa_alive s > 0 \<Longrightarrow> fork_step s (s\<lparr>fa_alive := fa_alive s - 1, fa_zombies := fa_zombies s + 1\<rparr>)"

definition fork_inv :: "family \<Rightarrow> bool" where
  "fork_inv s \<longleftrightarrow> fa_n s = fa_alive s + fa_zombies s \<and> (fa_point s = Done \<longrightarrow> fa_n s = 0)"

lemma fork_step_inv: "fork_step s t \<Longrightarrow> fork_inv s \<Longrightarrow> fork_inv t"
  by (induction rule: fork_step.induct)
    (auto simp: fork_main_def fork_inv_def split: fork_point.splits if_splits)

interpretation fork_sys: invariant_system "\<lambda>s. s = fork_start n" fork_step fork_inv for n
proof unfold_locales
  fix s assume "s = fork_start n"
  then show "fork_inv s" by (simp add: fork_start_def fork_inv_def)
qed (rule fork_step_inv)

text \<open>The count is that of the children not waited for, and \<open>main\<close> returns only when none is left.\<close>

lemma fork_collects:
  assumes "fork_step\<^sup>*\<^sup>* (fork_start n) s"
  shows "fa_n s = fa_alive s + fa_zombies s" "fa_point s = Done \<Longrightarrow> fa_alive s = 0 \<and> fa_zombies s = 0"
  using fork_sys.inv_reachable [OF refl assms] by (auto simp: fork_inv_def)

end
