(* ===== verification/PiLog.thy ===== *)
theory PiLog
  imports Prelude
begin

section \<open>Children with a part of a shared file each\<close>

text \<open>
  \<open>sop2/lab03/mmap_children/mmap_children.c\<close>: each child estimates pi, puts the share of its hits into
  its cell of a shared array and a line of eight bytes into its part of a file that is mapped into
  memory. The share of \<open>sample\<close> hits times four has five decimals, so the line shows it exactly.
\<close>

definition ITERS :: nat where "ITERS = 100000"
definition LOG_LEN :: nat where "LOG_LEN = 8"

fun last_digits :: "nat \<Rightarrow> nat \<Rightarrow> string" where
  "last_digits 0 v = []"
| "last_digits (Suc k) v = last_digits k (v div 10) @ [char_of (48 + v mod 10)]"

text \<open>\<open>snprintf\<close> with \<open>"%7.5f\n"\<close> of \<open>4 * sample / ITERS\<close>.\<close>

definition pi_line :: "nat \<Rightarrow> string" where
  "pi_line sample =
     (let v = 4 * sample in decimal (v div ITERS) @ ''.'' @ last_digits 5 (v mod ITERS) @ [LF])"

record pi_memory =
  pi_out :: "nat list" \<comment> \<open>hits, in units of \<open>1 / ITERS\<close>\<close>
  pi_log :: string

text \<open>\<open>mmap\<close> of both: zeros.\<close>

definition pi_start :: "nat \<Rightarrow> pi_memory" where
  "pi_start n = \<lparr>pi_out = replicate n 0, pi_log = replicate (n * LOG_LEN) NUL\<rparr>"

text \<open>The two writes of child \<open>i\<close>, which \<open>child_work\<close> makes one after the other.\<close>

datatype pi_write = Out nat nat | Log nat nat

definition memcpy :: "string \<Rightarrow> nat \<Rightarrow> string \<Rightarrow> string" where
  "memcpy mem off bytes = take off mem @ bytes @ drop (off + length bytes) mem"

fun child_write :: "pi_write \<Rightarrow> pi_memory \<Rightarrow> pi_memory" where
  "child_write (Out i sample) m = m\<lparr>pi_out := (pi_out m)[i := sample]\<rparr>"
| "child_write (Log i sample) m = m\<lparr>pi_log := memcpy (pi_log m) (i * LOG_LEN) (take LOG_LEN (pi_line sample))\<rparr>"

text \<open>\<open>child_work\<close> with these hits.\<close>

definition child_work :: "nat \<Rightarrow> nat \<Rightarrow> pi_write list" where
  "child_work i sample = [Out i sample, Log i sample]"

text \<open>\<open>parent_work\<close>: the sum of the shares, in units of \<open>1 / ITERS\<close>; it is printed times four and
  divided by \<open>n\<close>. The rounding of the shares to \<open>float\<close> is left out.\<close>

definition parent_work :: "nat \<Rightarrow> pi_memory \<Rightarrow> nat" where
  "parent_work n m = sum_list (map (\<lambda>i. pi_out m ! i) [0..<n])"

lemma last_digits_length [simp]: "length (last_digits k v) = k"
  by (induction k arbitrary: v) simp_all

lemma pi_line_length:
  assumes "sample \<le> ITERS"
  shows "length (pi_line sample) = LOG_LEN"
proof -
  have "4 * sample div ITERS < 10" using assms by (simp add: ITERS_def less_mult_imp_div_less)
  then show ?thesis by (simp add: pi_line_def Let_def LOG_LEN_def decimal_digit)
qed

lemma last_digits_value: "v < 10 ^ k \<Longrightarrow> digits_fold a (last_digits k v) = a * 10 ^ k + int v"
proof (induction k arbitrary: v)
  case 0
  then show ?case by (simp add: digits_fold_def)
next
  case (Suc k)
  have "v div 10 < 10 ^ k" using Suc.prems by (simp add: less_mult_imp_div_less)
  from Suc.IH [OF this] have "digits_fold a (last_digits (Suc k) v) = 10 * (a * 10 ^ k + int (v div 10)) + int (v mod 10)"
    using digit_chars(2) [of "v mod 10"] by (simp add: digits_fold_def)
  moreover have "int v = 10 * int (v div 10) + int (v mod 10)" using mult_div_mod_eq [of 10 v] by linarith
  ultimately show ?case by (simp add: algebra_simps)
qed

text \<open>The line without its point and newline is the number of hits times four.\<close>

lemma pi_line_reads_back:
  assumes "sample \<le> ITERS"
  shows "digits_fold 0 (filter is_digit (pi_line sample)) = int (4 * sample)"
proof -
  define a b where "a = 4 * sample div ITERS" and "b = 4 * sample mod ITERS"
  have a: "a < 10" using assms by (simp add: a_def ITERS_def less_mult_imp_div_less)
  have b: "b < 10 ^ 5" by (simp add: b_def ITERS_def)
  have digits: "list_all is_digit (last_digits k v)" for k v
    by (induction k arbitrary: v) (simp_all add: digit_chars)
  have "filter is_digit (pi_line sample) = char_of (48 + a) # last_digits 5 b"
    using a digits [of 5 b] digit_chars(1) [OF a]
    by (simp add: pi_line_def Let_def a_def [symmetric] b_def [symmetric] decimal_digit list_all_iff filter_id_conv is_digit_def)
  then have "digits_fold 0 (filter is_digit (pi_line sample)) = digits_fold (int a) (last_digits 5 b)"
    using digit_chars(2) [OF a] by (simp add: digits_fold_def)
  also have "\<dots> = int a * 10 ^ 5 + int b" by (rule last_digits_value [OF b])
  also have "\<dots> = int (ITERS * a + b)" by (simp add: ITERS_def)
  also have "ITERS * a + b = 4 * sample" by (simp add: a_def b_def)
  finally show ?thesis .
qed

subsection \<open>All children\<close>

definition part :: "pi_memory \<Rightarrow> nat \<Rightarrow> string" where
  "part m i = take LOG_LEN (drop (i * LOG_LEN) (pi_log m))"

lemma memcpy_parts:
  assumes "length mem = n * LOG_LEN" "i < n" "length bytes = LOG_LEN" "j < n"
  shows "take LOG_LEN (drop (j * LOG_LEN) (memcpy mem (i * LOG_LEN) bytes)) =
    (if j = i then bytes else take LOG_LEN (drop (j * LOG_LEN) mem))"
    "length (memcpy mem (i * LOG_LEN) bytes) = length mem"
proof -
  have le: "i * LOG_LEN + LOG_LEN \<le> length mem" using assms(1,2) mult_le_mono1 [of "Suc i" n LOG_LEN] by simp
  show "length (memcpy mem (i * LOG_LEN) bytes) = length mem" using le assms(3) by (simp add: memcpy_def)
  consider "j = i" | "j < i" | "i < j" by linarith
  then show "take LOG_LEN (drop (j * LOG_LEN) (memcpy mem (i * LOG_LEN) bytes)) =
      (if j = i then bytes else take LOG_LEN (drop (j * LOG_LEN) mem))"
  proof cases
    case 1
    then show ?thesis using le assms(3) by (simp add: memcpy_def)
  next
    case 2
    then have "j * LOG_LEN + LOG_LEN \<le> i * LOG_LEN" using mult_le_mono1 [of "Suc j" i LOG_LEN] by simp
    then show ?thesis using 2 le by (simp add: memcpy_def drop_take [symmetric] take_drop min_def)
  next
    case 3
    then have "i * LOG_LEN + LOG_LEN \<le> j * LOG_LEN" using mult_le_mono1 [of "Suc i" j LOG_LEN] by simp
    then show ?thesis using 3 le assms(3) by (simp add: memcpy_def)
  qed
qed

lemma concat_parts:
  "length xs = n * k \<Longrightarrow> (\<And>i. i < n \<Longrightarrow> take k (drop (i * k) xs) = f i) \<Longrightarrow> xs = concat (map f [0..<n])"
proof (induction n arbitrary: xs)
  case (Suc n)
  have "take (n * k) xs = concat (map f [0..<n])"
  proof (rule Suc.IH)
    fix i assume i: "i < n"
    then have "i * k + k \<le> n * k" using mult_le_mono1 [of "Suc i" n k] by simp
    then have "k \<le> n * k - i * k" by linarith
    then show "take k (drop (i * k) (take (n * k) xs)) = f i" using Suc.prems(2) [of i] i by (simp add: drop_take min_def)
  qed (use Suc.prems in simp)
  moreover have "drop (n * k) xs = f n" using Suc.prems(1) Suc.prems(2) [of n] by simp
  ultimately show ?case by (metis append_take_drop_id concat_append concat.simps(1) concat.simps(2) list.map map_append self_append_conv upt_Suc_append zero_le)
qed simp

text \<open>Writes of the children, each of which has its own hits.\<close>

definition writes_ok :: "nat list \<Rightarrow> pi_write list \<Rightarrow> bool" where
  "writes_ok samples ws \<longleftrightarrow> (\<forall>w \<in> set ws. \<exists>i < length samples. w = Out i (samples ! i) \<or> w = Log i (samples ! i))"

lemma writes_kept:
  assumes "list_all (\<lambda>s. s \<le> ITERS) samples" "writes_ok samples ws"
    "length (pi_out m) = length samples" "length (pi_log m) = length samples * LOG_LEN"
  shows "length (pi_out (fold child_write ws m)) = length samples \<and>
    length (pi_log (fold child_write ws m)) = length samples * LOG_LEN \<and>
    (\<forall>i < length samples.
       (pi_out (fold child_write ws m) ! i = (if Out i (samples ! i) \<in> set ws then samples ! i else pi_out m ! i)) \<and>
       (part (fold child_write ws m) i = (if Log i (samples ! i) \<in> set ws then pi_line (samples ! i) else part m i)))"
  using assms(2-4)
proof (induction ws arbitrary: m)
  case (Cons w ws)
  have ws: "writes_ok samples ws" using Cons.prems(1) by (simp add: writes_ok_def)
  obtain i where i: "i < length samples" "w = Out i (samples ! i) \<or> w = Log i (samples ! i)"
    using Cons.prems(1) by (auto simp: writes_ok_def)
  have line: "length (pi_line (samples ! i)) = LOG_LEN" using assms(1) i(1) by (simp add: list_all_length pi_line_length)
  from i(2) show ?case
  proof
    assume w: "w = Out i (samples ! i)"
    have "length (pi_out (child_write w m)) = length samples" "length (pi_log (child_write w m)) = length samples * LOG_LEN"
      using Cons.prems by (simp_all add: w)
    from Cons.IH [OF ws this] show ?thesis using i(1) Cons.prems by (auto simp: w nth_list_update part_def)
  next
    assume w: "w = Log i (samples ! i)"
    note mem = memcpy_parts [OF Cons.prems(3) i(1) line]
    have "length (pi_out (child_write w m)) = length samples" "length (pi_log (child_write w m)) = length samples * LOG_LEN"
      using Cons.prems mem(2) i(1) line by (simp_all add: w)
    from Cons.IH [OF ws this] show ?thesis using i(1) Cons.prems line mem(1) by (auto simp: w part_def)
  qed
qed simp

text \<open>
  The shared memory of the children. In whatever order the writes of the children come, when all
  of them are done the log is the lines of the children one after the other, each of which reads
  back as four times the hits of its child, and the parent adds up exactly the hits of all.
\<close>

lemma pi_log_complete:
  assumes samples: "list_all (\<lambda>s. s \<le> ITERS) samples"
    and order: "mset ws = mset (concat (map (\<lambda>i. child_work i (samples ! i)) [0..<length samples]))"
    and m: "m = fold child_write ws (pi_start (length samples))"
  shows "pi_log m = concat (map pi_line samples) \<and> parent_work (length samples) m = sum_list samples \<and>
    (\<forall>s \<in> set samples. digits_fold 0 (filter is_digit (pi_line s)) = int (4 * s))"
proof -
  let ?n = "length samples"
  have ws: "set ws = (\<Union>i < ?n. {Out i (samples ! i), Log i (samples ! i)})"
    using mset_eq_setD [OF order] by (simp add: child_work_def atLeast0LessThan)
  have ok: "writes_ok samples ws" unfolding writes_ok_def ws by blast
  have start: "length (pi_out (pi_start ?n)) = ?n" "length (pi_log (pi_start ?n)) = ?n * LOG_LEN"
    by (simp_all add: pi_start_def)
  have len: "length (pi_log m) = ?n * LOG_LEN" and out: "\<And>i. i < ?n \<Longrightarrow> pi_out m ! i = samples ! i"
    and parts: "\<And>i. i < ?n \<Longrightarrow> part m i = pi_line (samples ! i)"
    using writes_kept [OF samples ok start] ws unfolding m by auto
  have "pi_log m = concat (map (\<lambda>i. pi_line (samples ! i)) [0..<?n])"
    using concat_parts [OF len] parts by (simp add: part_def)
  also have "map (\<lambda>i. pi_line (samples ! i)) [0..<?n] = map pi_line samples" by (simp add: map_nth flip: map_map [unfolded o_def])
  finally have "pi_log m = concat (map pi_line samples)" .
  moreover have "parent_work ?n m = sum_list samples"
  proof -
    have "map (\<lambda>i. pi_out m ! i) [0..<?n] = map ((!) samples) [0..<?n]" using out by simp
    then show ?thesis unfolding parent_work_def by (simp add: map_nth)
  qed
  ultimately show ?thesis using pi_line_reads_back samples by (simp add: list_all_iff)
qed

lemma pi_log_complete_example:
  "pi_log (fold child_write [Out 1 78000, Out 0 79001, Log 1 78000, Log 0 79001] (pi_start 2)) =
     ''3.16004'' @ [LF] @ ''3.12000'' @ [LF]"
proof -
  have "(5 :: nat) = Suc (Suc (Suc (Suc (Suc 0))))" by simp
  then have five: "last_digits 5 v = last_digits (Suc (Suc (Suc (Suc (Suc 0))))) v" for v by (simp only:)
  have l: "pi_line 79001 = ''3.16004'' @ [LF]" "pi_line 78000 = ''3.12000'' @ [LF]"
    unfolding pi_line_def five ITERS_def by (simp_all add: Let_def decimal_digit char_of_digits)
  show ?thesis
    using pi_log_complete [of "[79001, 78000]" "[Out 1 78000, Out 0 79001, Log 1 78000, Log 0 79001]", OF _ _ refl]
    by (simp add: ITERS_def child_work_def numeral_2_eq_2 l)
qed

end
