(* ===== verification/FileCopy.thy ===== *)
theory FileCopy
  imports SopIO
begin

section \<open>Copying a file\<close>

text \<open>
  \<open>sop1/lab01/tutorial/tests/lab01t-5.c\<close>: \<open>bulk_read\<close> and \<open>bulk_write\<close> in turns of
  \<open>FILE_BUF_LEN\<close> bytes. The two are those of \<open>SopIO\<close> (the file has its own copies of them), here on
  two descriptors of one file system: both may be open on the same file, and the target, opened
  without \<open>O_TRUNC\<close>, may have had a content before.
\<close>

definition FILE_BUF_LEN :: nat where "FILE_BUF_LEN = 256"

text \<open>The files by inode, the descriptors as inode and offset, and the choices of the kernel, one
  for each call.\<close>

record copy_state =
  cs_data :: "nat \<Rightarrow> string"
  cs_in :: nat
  cs_in_pos :: nat
  cs_out :: nat
  cs_out_pos :: nat
  cs_script :: "outcome list"

definition transfer :: "outcome list \<Rightarrow> nat \<Rightarrow> int + nat" where
  "transfer script n =
     (case script of
        [] \<Rightarrow> Inr n
      | Interrupt # _ \<Rightarrow> Inl EINTR
      | Failure e # _ \<Rightarrow> Inl (fail_errno e)
      | Short k # _ \<Rightarrow> Inr (min n (Suc k)))"

text \<open>read(2): the bytes at the offset, which moves on.\<close>

definition file_read :: "copy_state \<Rightarrow> nat \<Rightarrow> copy_state \<times> string sysres" where
  "file_read s n =
     (case transfer (cs_script s) n of
        Inl e \<Rightarrow> (s\<lparr>cs_script := tl (cs_script s)\<rparr>, SysErr e)
      | Inr m \<Rightarrow>
          (let bs = take m (drop (cs_in_pos s) (cs_data s (cs_in s)))
           in (s\<lparr>cs_in_pos := cs_in_pos s + length bs, cs_script := tl (cs_script s)\<rparr>, SysOk bs)))"

text \<open>write(2): the bytes replace those at the offset; a gap in front of it is filled with zeros.\<close>

definition overwrite :: "string \<Rightarrow> nat \<Rightarrow> string \<Rightarrow> string" where
  "overwrite old pos bs = take pos (old @ replicate (pos - length old) NUL) @ bs @ drop (pos + length bs) old"

definition file_write :: "copy_state \<Rightarrow> string \<Rightarrow> copy_state \<times> nat sysres" where
  "file_write s bs =
     (case transfer (cs_script s) (length bs) of
        Inl e \<Rightarrow> (s\<lparr>cs_script := tl (cs_script s)\<rparr>, SysErr e)
      | Inr m \<Rightarrow>
          (s\<lparr>cs_data := (cs_data s)(cs_out s := overwrite (cs_data s (cs_out s)) (cs_out_pos s) (take m bs)),
             cs_out_pos := cs_out_pos s + m, cs_script := tl (cs_script s)\<rparr>, SysOk m))"

text \<open>The loop of \<open>main\<close>: \<open>None\<close> if it never ends.\<close>

partial_function (option) copy_loop :: "copy_state \<Rightarrow> (copy_state \<times> unit or_err) option" where
  "copy_loop s =
     (case bulk_read file_read s FILE_BUF_LEN of
        None \<Rightarrow> None
      | Some (s', SysErr e) \<Rightarrow> Some (s', ERR ''bulk_read'')
      | Some (s', SysOk file_buf) \<Rightarrow>
          if file_buf = [] then Some (s', Inr ())
          else
            (case bulk_write file_write s' file_buf of
               None \<Rightarrow> None
             | Some (s'', SysErr e) \<Rightarrow> Some (s'', ERR ''bulk_write'')
             | Some (s'', SysOk n) \<Rightarrow> copy_loop s''))"

text \<open>\<open>main\<close>, with the files, the inodes that \<open>open\<close> finds (\<open>None\<close>: it fails; a created file is
  empty), and whether \<open>close\<close> succeeds.\<close>

definition copy_main ::
  "nat \<Rightarrow> nat option \<Rightarrow> nat option \<Rightarrow> bool \<Rightarrow> bool \<Rightarrow> (nat \<Rightarrow> string) \<Rightarrow> outcome list \<Rightarrow> ((nat \<Rightarrow> string) \<times> unit or_err) option" where
  "copy_main argc fd_1 fd_2 close_2 close_1 data script =
     (if argc \<noteq> 3 then Some (data, ERR ''usage'')
      else
        (case fd_1 of
           None \<Rightarrow> Some (data, ERR ''open'')
         | Some i \<Rightarrow>
             (case fd_2 of
                None \<Rightarrow> Some (data, ERR ''open'')
              | Some j \<Rightarrow>
                  (case copy_loop \<lparr>cs_data = data, cs_in = i, cs_in_pos = 0, cs_out = j, cs_out_pos = 0, cs_script = script\<rparr> of
                     None \<Rightarrow> None
                   | Some (s, r) \<Rightarrow>
                       Some (cs_data s, bind_err r (\<lambda>_. if \<not> close_2 then ERR ''close'' else if \<not> close_1 then ERR ''close'' else Inr ()))))))"

subsection \<open>The descriptors keep the promises of the kernel\<close>

abbreviation to_read :: "copy_state \<Rightarrow> string" where
  "to_read s \<equiv> drop (cs_in_pos s) (cs_data s (cs_in s))"

definition written :: "copy_state \<Rightarrow> string" where
  "written s = take (cs_out_pos s) (cs_data s (cs_out s) @ replicate (cs_out_pos s - length (cs_data s (cs_out s))) NUL)"

lemma length_written: "length (written s) = cs_out_pos s"
  by (simp add: written_def)

lemma transfer_Inr: "transfer script n = Inr m \<Longrightarrow> m \<le> n \<and> (0 < n \<longrightarrow> 0 < m)"
  by (auto simp: transfer_def split: list.splits outcome.splits)

lemma transfer_intr: "transfer script n = Inl EINTR \<Longrightarrow> length (tl script) < length script"
  by (auto simp: transfer_def fail_errno_not_EINTR split: list.splits outcome.splits)

lemma transfer_reliable:
  "no_failure script \<Longrightarrow> no_failure (tl script) \<and> (\<forall>e. transfer script n = Inl e \<longrightarrow> e = EINTR)"
  by (cases script; cases "hd script") (simp_all add: transfer_def)

interpretation copy_source: byte_source file_read to_read "\<lambda>s. length (cs_script s)" "\<lambda>s. no_failure (cs_script s)"
proof unfold_locales
  fix s n s' bs
  assume "file_read s n = (s', SysOk bs)"
  then obtain m where m: "transfer (cs_script s) n = Inr m" "bs = take m (to_read s)"
    "to_read s' = drop (cs_in_pos s + length bs) (cs_data s (cs_in s))"
    by (auto simp: file_read_def Let_def split: sum.splits)
  have "to_read s' = drop (length bs) (to_read s)" using m(3) by (simp add: add.commute)
  moreover have "take (length (take m xs)) xs = take m xs" for xs :: string by (simp add: min_def)
  then have "take (length bs) (to_read s) = bs" unfolding m(2) .
  ultimately have "to_read s = bs @ to_read s'" by (metis append_take_drop_id)
  then show "to_read s = bs @ to_read s' \<and> length bs \<le> n \<and> (bs = [] \<longrightarrow> n = 0 \<or> to_read s = [])"
    using m transfer_Inr [OF m(1)] by auto
next
  fix s n s' r
  assume "no_failure (cs_script s)" and "file_read s n = (s', r)"
  then show "no_failure (cs_script s') \<and> (\<forall>e. r = SysErr e \<longrightarrow> e = EINTR)"
    using transfer_reliable [of "cs_script s" n] by (auto simp: file_read_def Let_def split: sum.splits)
qed (auto simp: file_read_def Let_def dest: transfer_intr split: sum.splits)

lemma overwrite_prefix:
  "take (pos + length bs) (overwrite old pos bs) = take pos (old @ replicate (pos - length old) NUL) @ bs"
  "pos + length bs \<le> length (overwrite old pos bs)"
  by (simp_all add: overwrite_def)

interpretation copy_sink: byte_sink file_write written "\<lambda>s. length (cs_script s)"
proof unfold_locales
  fix s bs s' n
  assume "file_write s bs = (s', SysOk n)"
  then have n: "transfer (cs_script s) (length bs) = Inr n"
    and s': "cs_out s' = cs_out s" "cs_out_pos s' = cs_out_pos s + n"
      "cs_data s' (cs_out s) = overwrite (cs_data s (cs_out s)) (cs_out_pos s) (take n bs)"
    by (auto simp: file_write_def split: sum.splits)
  then have "written s' = written s @ take n bs"
    using overwrite_prefix [of "cs_out_pos s" "take n bs" "cs_data s (cs_out s)"] transfer_Inr [OF n]
    by (simp add: written_def)
  then show "written s' = written s @ take n bs \<and> n \<le> length bs \<and> (bs \<noteq> [] \<longrightarrow> 0 < n)"
    using transfer_Inr [OF n] by simp
qed (auto simp: file_write_def written_def dest: transfer_intr split: sum.splits)

subsection \<open>The loop\<close>

text \<open>What the descriptors have done after \<open>p\<close> bytes: the target begins with as many bytes of the
  source, and everything else is as before. \<open>A\<close> and \<open>B\<close> are the contents at the start.\<close>

definition copied :: "(nat \<Rightarrow> string) \<Rightarrow> nat \<Rightarrow> nat \<Rightarrow> nat \<Rightarrow> nat \<Rightarrow> string" where
  "copied data i j p = data(j := take p (data i) @ drop p (data j))"

definition copy_at :: "(nat \<Rightarrow> string) \<Rightarrow> nat \<Rightarrow> nat \<Rightarrow> nat \<Rightarrow> copy_state \<Rightarrow> bool" where
  "copy_at data i j p s \<longleftrightarrow> cs_in s = i \<and> cs_out s = j \<and> cs_in_pos s = p \<and> cs_out_pos s = p \<and>
     p \<le> length (data i) \<and> cs_data s = copied data i j p"

lemma copied_source: "p \<le> length (data i) \<Longrightarrow> copied data i j p i = data i"
  by (simp add: copied_def)

text \<open>Reading leaves the files and the target's descriptor alone; writing leaves the source's
  descriptor and, behind the bytes written so far, the old target alone.\<close>

lemma file_read_keeps:
  assumes "bulk_read file_read s n = Some (s', r)"
  shows "cs_in s' = cs_in s \<and> cs_out s' = cs_out s \<and> cs_out_pos s' = cs_out_pos s \<and> cs_data s' = cs_data s \<and>
    (cs_in_pos s \<le> length (cs_data s (cs_in s)) \<longrightarrow> cs_in_pos s' \<le> length (cs_data s (cs_in s)))"
proof -
  let ?P = "\<lambda>t. cs_in t = cs_in s \<and> cs_out t = cs_out s \<and> cs_out_pos t = cs_out_pos s \<and> cs_data t = cs_data s \<and>
    (cs_in_pos s \<le> length (cs_data s (cs_in s)) \<longrightarrow> cs_in_pos t \<le> length (cs_data s (cs_in s)))"
  have "?P (fst (s', r))"
  proof (rule bulk_read_frame [OF assms, of ?P])
    fix t n t' r assume "?P t" "file_read t n = (t', r)"
    then show "?P t'" by (auto simp: file_read_def Let_def split: sum.splits)
  qed simp
  then show ?thesis by simp
qed

lemma file_write_keeps:
  assumes "bulk_write file_write s bs = Some (s', r)" "cs_out_pos s \<le> length (cs_data s (cs_out s))"
  shows "cs_in s' = cs_in s \<and> cs_in_pos s' = cs_in_pos s \<and> cs_out s' = cs_out s \<and>
    cs_data s' = (cs_data s)(cs_out s := written s' @ drop (cs_out_pos s') (cs_data s (cs_out s)))"
proof -
  let ?P = "\<lambda>t. cs_in t = cs_in s \<and> cs_in_pos t = cs_in_pos s \<and> cs_out t = cs_out s \<and>
    cs_out_pos t \<le> length (cs_data t (cs_out t)) \<and>
    cs_data t = (cs_data s)(cs_out s := written t @ drop (cs_out_pos t) (cs_data s (cs_out s)))"
  have "?P (fst (s', r))"
  proof (rule bulk_write_frame [OF assms(1), of ?P])
    fix t bs t' r assume t: "?P t" and w: "file_write t bs = (t', r)"
    show "?P t'"
    proof (cases "transfer (cs_script t) (length bs)")
      case (Inl e)
      then have "t' = t\<lparr>cs_script := tl (cs_script t)\<rparr>" using w by (simp add: file_write_def)
      then have "written t' = written t" "cs_data t' = cs_data t" "cs_out t' = cs_out t" "cs_out_pos t' = cs_out_pos t"
        "cs_in t' = cs_in t" "cs_in_pos t' = cs_in_pos t" by (simp_all add: written_def)
      then show ?thesis using t by metis
    next
      case (Inr m)
      let ?old = "cs_data t (cs_out t)"
      have t': "cs_in t' = cs_in t" "cs_in_pos t' = cs_in_pos t" "cs_out t' = cs_out t" "cs_out_pos t' = cs_out_pos t + m"
        "cs_data t' = (cs_data t)(cs_out t := overwrite ?old (cs_out_pos t) (take m bs))"
        using w Inr by (auto simp: file_write_def)
      have len: "length (take m bs) = m" using transfer_Inr [OF Inr] by simp
      have "r = SysOk m" using w Inr unfolding file_write_def by simp
      then have "written t' = written t @ take m bs" using copy_sink.wr_ok [of t bs t' m] w by blast
      moreover have "overwrite ?old (cs_out_pos t) (take m bs) = written t @ take m bs @ drop (cs_out_pos t + m) ?old"
        using len by (simp add: overwrite_def written_def)
      moreover have "drop (cs_out_pos t + m) ?old = drop (cs_out_pos t + m) (cs_data s (cs_out s))"
      proof -
        have "?old = written t @ drop (cs_out_pos t) (cs_data s (cs_out s))" using t by (metis fun_upd_same)
        then have "drop (cs_out_pos t + m) ?old = drop (cs_out_pos t + m) (written t @ drop (cs_out_pos t) (cs_data s (cs_out s)))"
          by simp
        also have "\<dots> = drop m (drop (cs_out_pos t) (cs_data s (cs_out s)))" by (simp add: length_written)
        finally show ?thesis by (simp add: add.commute)
      qed
      ultimately have "cs_data t' = (cs_data s)(cs_out s := written t' @ drop (cs_out_pos t') (cs_data s (cs_out s)))"
        using t t' by (metis append.assoc fun_upd_upd)
      moreover have "cs_out_pos t' \<le> length (cs_data t' (cs_out t'))"
        using t' len overwrite_prefix(2) [of "cs_out_pos t" "take m bs" ?old] by simp
      ultimately show ?thesis using t t' by simp
    qed
  qed (use assms(2) in \<open>simp add: written_def\<close>)
  then show ?thesis by simp
qed

lemma copied_more:
  assumes "p \<le> length (data i)" "bs = take l (drop p (data i))"
  shows "(copied data i j p)(j := take p (data i) @ bs @ drop (p + length bs) (copied data i j p j)) =
    copied data i j (p + length bs)" "p + length bs \<le> length (data i)"
proof -
  have take_len: "take (length (take l xs)) xs = take l xs" for xs :: string by (simp add: min_def)
  have "take p (data i) @ bs = take (p + length bs) (data i)"
    unfolding take_add using take_len [of "drop p (data i)"] assms(2) by simp
  moreover have "drop (p + length bs) (copied data i j p j) = drop (p + length bs) (data j)"
    using assms(1) by (simp add: copied_def add.commute)
  ultimately show "(copied data i j p)(j := take p (data i) @ bs @ drop (p + length bs) (copied data i j p j)) =
      copied data i j (p + length bs)"
    by (simp add: copied_def flip: append_assoc)
  show "p + length bs \<le> length (data i)" using assms by simp
qed

lemma copy_read:
  assumes s: "copy_at data i j p s" and r: "bulk_read file_read s n = Some (s', r)"
  shows "cs_data s' = copied data i j p"
    "r = SysOk bs \<Longrightarrow> bs = take n (drop p (data i)) \<and> cs_in s' = i \<and> cs_out s' = j \<and> cs_out_pos s' = p \<and>
       cs_in_pos s' = p + length bs"
proof -
  note at = s [unfolded copy_at_def]
  have src: "cs_data s i = data i" using at by (simp add: copied_source)
  have kept: "cs_in s' = i" "cs_out s' = j" "cs_out_pos s' = p" "cs_data s' = cs_data s" "cs_in_pos s' \<le> length (data i)"
    using file_read_keeps [OF r] at src by auto
  show "cs_data s' = copied data i j p" using kept at by simp
  assume "r = SysOk bs"
  then have bs: "bs = take n (to_read s)" "to_read s' = drop n (to_read s)" using copy_source.bulk_read_ok r by blast+
  then have "length (to_read s') = length (to_read s) - n" by simp
  then have "length (data i) - cs_in_pos s' = length (data i) - p - n" using kept at src by simp
  then have "cs_in_pos s' = p + length bs" using bs(1) kept(5) at src by auto
  then show "bs = take n (drop p (data i)) \<and> cs_in s' = i \<and> cs_out s' = j \<and> cs_out_pos s' = p \<and> cs_in_pos s' = p + length bs"
    using bs(1) kept at src by simp
qed

lemma copy_write:
  assumes s: "cs_data s = copied data i j p" "cs_in s = i" "cs_out s = j" "cs_out_pos s = p" "cs_in_pos s = p + length bs"
    and p: "p \<le> length (data i)" and bs: "bs = take l (drop p (data i))"
    and w: "bulk_write file_write s bs = Some (s', r)"
  shows "r = SysOk n \<Longrightarrow> copy_at data i j (p + length bs) s'"
    "\<exists>q \<le> length (data i). cs_data s' = copied data i j q"
proof -
  have start: "written s = take p (data i)" "p \<le> length (cs_data s j)" using s p by (simp_all add: written_def copied_def)
  have kept: "cs_in s' = i" "cs_in_pos s' = p + length bs" "cs_out s' = j"
    "cs_data s' = (copied data i j p)(j := written s' @ drop (cs_out_pos s') (copied data i j p j))"
    using file_write_keeps [OF w] s start(2) by auto
  have part: "cs_data s' = copied data i j (p + length bs') \<and> cs_out_pos s' = p + length bs' \<and> p + length bs' \<le> length (data i)"
    if "written s' = written s @ bs'" "bs' = take m bs" for bs' m
  proof -
    have "cs_out_pos s' = p + length bs'" using that(1) length_written [of s'] start p by simp
    moreover have "bs' = take (min m l) (drop p (data i))" using that(2) bs by simp
    ultimately show ?thesis using copied_more(1) [of p data i bs' "min m l" j, OF p] copied_more(2) [of p data i bs' "min m l", OF p]
        kept(4) that(1) start(1) by simp
  qed
  show "copy_at data i j (p + length bs) s'" if "r = SysOk n"
  proof -
    have "written s' = written s @ bs" using copy_sink.bulk_write_ok w that by blast
    from part [OF this, of "length bs"] show ?thesis unfolding copy_at_def using kept(1-3) by simp
  qed
  obtain k where "written s' = written s @ take k bs"
  proof (cases r)
    case (SysErr e)
    then show ?thesis using copy_sink.bulk_write_err w that by blast
  next
    case (SysOk m)
    then show ?thesis using copy_sink.bulk_write_ok [of s bs s' m] w that [of "length bs"] by simp
  qed
  then show "\<exists>q \<le> length (data i). cs_data s' = copied data i j q" using part [OF _ refl] by metis
qed

subsection \<open>The program\<close>

lemma copy_loop_spec:
  "copy_at data i j p s \<Longrightarrow> \<exists>s' r q. copy_loop s = Some (s', r) \<and> q \<le> length (data i) \<and>
     cs_data s' = copied data i j q \<and> (r = Inr () \<longrightarrow> q = length (data i)) \<and> (no_failure (cs_script s) \<longrightarrow> r = Inr ())"
proof (induction "length (data i) - p" arbitrary: p s rule: less_induct)
  case less
  have p: "p \<le> length (data i)" using less.prems by (simp add: copy_at_def)
  obtain s1 r1 where rd: "bulk_read file_read s FILE_BUF_LEN = Some (s1, r1)"
    using copy_source.bulk_read_returns by blast
  note unfold = copy_loop.simps [of s]
  have rel: "no_failure (cs_script s) \<longrightarrow> no_failure (cs_script s1) \<and> (\<exists>bs. r1 = SysOk bs)"
    using copy_source.bulk_read_reliable [of s FILE_BUF_LEN] rd by auto
  show ?case
  proof (cases r1)
    case (SysErr e)
    have "copy_loop s = Some (s1, ERR ''bulk_read'')" using rd SysErr by (simp add: unfold)
    then show ?thesis using copy_read(1) [OF less.prems rd] p rel SysErr by auto
  next
    case (SysOk bs)
    have bs: "bs = take FILE_BUF_LEN (drop p (data i))" and s1: "cs_data s1 = copied data i j p" "cs_in s1 = i"
      "cs_out s1 = j" "cs_out_pos s1 = p" "cs_in_pos s1 = p + length bs"
      using copy_read [OF less.prems rd] SysOk by auto
    show ?thesis
    proof (cases "bs = []")
      case True
      then have "p = length (data i)" using bs p by (simp add: FILE_BUF_LEN_def)
      moreover have "copy_loop s = Some (s1, Inr ())" using rd SysOk True by (simp add: unfold)
      ultimately show ?thesis using s1(1) by auto
    next
      case False
      obtain s2 r2 where wr: "bulk_write file_write s1 bs = Some (s2, r2)"
        using copy_sink.bulk_write_returns by blast
      note written = copy_write [OF s1 p bs wr]
      have ok: "\<exists>n. r2 = SysOk n" "no_failure (cs_script s2)" if "no_failure (cs_script s1)"
      proof -
        have call: "no_failure (cs_script u') \<and> (\<forall>e. r = SysErr e \<longrightarrow> e = EINTR)"
          if "no_failure (cs_script u)" "file_write u bs = (u', r)" for u bs u' r
          using that transfer_reliable [of "cs_script u" "length bs"] by (auto simp: file_write_def split: sum.splits)
        show "\<exists>n. r2 = SysOk n"
          using bulk_write_reliable [OF wr, of "\<lambda>u. no_failure (cs_script u)"] that call by simp
        show "no_failure (cs_script s2)"
          using bulk_write_frame [OF wr, of "\<lambda>u. no_failure (cs_script u)"] that call by simp
      qed
      show ?thesis
      proof (cases r2)
        case (SysErr e)
        have "copy_loop s = Some (s2, ERR ''bulk_write'')" using rd \<open>r1 = SysOk bs\<close> False wr SysErr by (simp add: unfold)
        then show ?thesis using written(2) rel ok SysErr by auto
      next
        case (SysOk n)
        have "length (data i) - (p + length bs) < length (data i) - p" using False bs by auto
        from less.hyps [OF this written(1) [OF SysOk]] obtain s' r q where
          "copy_loop s2 = Some (s', r)" "q \<le> length (data i)" "cs_data s' = copied data i j q"
          "r = Inr () \<longrightarrow> q = length (data i)" "no_failure (cs_script s2) \<longrightarrow> r = Inr ()" by blast
        moreover have "copy_loop s = copy_loop s2" using rd \<open>r1 = SysOk bs\<close> False wr SysOk by (subst unfold) simp
        ultimately show ?thesis using rel ok by auto
      qed
    qed
  qed
qed

text \<open>
  C20: the copy. With two files that \<open>open\<close> finds, the same one perhaps, the program always ends, and
  the target then begins with a part of the source as it was and goes on with what was there before
  behind it; no other file has changed. When it ends with success the part is the whole source, so a
  longer old target keeps its tail. Without failures of the kernel, however short the transfers and
  however many the interrupts, it does end with success.
\<close>

theorem copy_main_copies:
  "\<exists>q r. q \<le> length (data i) \<and> copy_main 3 (Some i) (Some j) True True data script = Some (data(j := take q (data i) @ drop q (data j)), r) \<and>
     (r = Inr () \<longrightarrow> q = length (data i)) \<and> (no_failure script \<longrightarrow> r = Inr ())"
proof -
  let ?s = "\<lparr>cs_data = data, cs_in = i, cs_in_pos = 0, cs_out = j, cs_out_pos = 0, cs_script = script\<rparr>"
  have "copy_at data i j 0 ?s" by (simp add: copy_at_def copied_def)
  from copy_loop_spec [OF this] obtain s' r q where
    *: "copy_loop ?s = Some (s', r)" "q \<le> length (data i)" "cs_data s' = copied data i j q"
    "r = Inr () \<longrightarrow> q = length (data i)" "no_failure script \<longrightarrow> r = Inr ()" by auto
  have "bind_err r (\<lambda>_. Inr ()) = r" by (cases r) auto
  then have "copy_main 3 (Some i) (Some j) True True data script = Some (data(j := take q (data i) @ drop q (data j)), r)"
    using * by (simp add: copy_main_def copied_def)
  then show ?thesis using * by blast
qed

text \<open>The old tail shows when a short file is copied over a longer one.\<close>

theorem copy_main_copies_witness:
  "copy_main 3 (Some 0) (Some 1) True True ((\<lambda>_. ''older'')(0 := ''new'')) [Interrupt, Short 0] =
     Some ((\<lambda>_. ''older'')(0 := ''new'', 1 := ''newer''), Inr ())"
  using copy_main_copies [of "(\<lambda>_. ''older'')(0 := ''new'')" 0 1 "[Interrupt, Short 0]"] by auto

end
