(* ===== verification/FileTools.thy ===== *)
theory FileTools
  imports FileCopy
begin

section \<open>Small programs on files and arguments\<close>

text \<open>
  \<open>sop1/lab01/tutorial/tests/lab01t-3.c\<close> (a file of letters at random places), \<open>lab01t-1.c\<close> and
  \<open>lab01t-2.c\<close> there (counting what is in a directory), \<open>sop1/lab00/tutorial/prog_env.c\<close> (setting
  variables of the environment) and \<open>prog_opt.c\<close> there (options). What \<open>getopt\<close> finds in the
  arguments is a list of options with their texts.
\<close>

subsection \<open>A file of letters\<close>

text \<open>\<open>strtol\<close> for a base of at most ten: blanks, a sign, digits; out of range it gives the nearest
  number of type \<open>long\<close>.\<close>

definition digits_in :: "nat \<Rightarrow> string \<Rightarrow> int" where
  "digits_in base ds =
     foldl (\<lambda>v d. int base * v + (of_char d - 48)) 0
       (takeWhile (\<lambda>c. 48 \<le> (of_char c :: nat) \<and> (of_char c :: nat) < 48 + base) ds)"

definition strtol :: "nat \<Rightarrow> string \<Rightarrow> int" where
  "strtol base str =
     (let v = (case dropWhile is_blank str of
                 [] \<Rightarrow> 0
               | c # cs \<Rightarrow>
                   if c = CHR ''-'' then - digits_in base cs
                   else if c = CHR ''+'' then digits_in base cs
                   else digits_in base (c # cs))
      in max (- (2 ^ 63)) (min (2 ^ 63 - 1) v))"

record make_args =
  ma_name :: "string option"
  ma_perms :: "32 word" \<comment> \<open>\<open>mode_t\<close>\<close>
  ma_size :: int

text \<open>The loop over the options, and the test behind it.\<close>

fun parse_make :: "(char \<times> string) list \<Rightarrow> make_args \<Rightarrow> make_args or_err" where
  "parse_make [] a = (if ma_name a = None \<or> ma_size a = -1 \<or> ma_perms a = -1 then ERR ''usage'' else Inr a)"
| "parse_make ((c, optarg) # opts) a =
     (if c = CHR ''n'' then parse_make opts (a\<lparr>ma_name := Some optarg\<rparr>)
      else if c = CHR ''p'' then parse_make opts (a\<lparr>ma_perms := word_of_int (strtol 8 optarg)\<rparr>)
      else if c = CHR ''s'' then parse_make opts (a\<lparr>ma_size := strtol 10 optarg\<rparr>)
      else ERR ''usage'')"

text \<open>The permissions that \<open>fopen\<close>, which asks for \<open>0666\<close>, gives a new file under this \<open>umask\<close>.\<close>

definition created_mode :: "32 word \<Rightarrow> 32 word" where
  "created_mode perms = Bit_Operations.and 0x1B6 (not (Bit_Operations.and 0x1FF (not perms)))"

definition letter :: "nat \<Rightarrow> char" where "letter i = char_of (65 + i mod 26)"

text \<open>\<open>size / 10\<close>, which truncates, and the loop with the results of \<open>rand\<close>.\<close>

definition n_letters :: "int \<Rightarrow> nat" where
  "n_letters size' = nat (if size' < 0 then - (- size' div 10) else size' div 10)"

definition make_file :: "(nat \<Rightarrow> nat) \<Rightarrow> int \<Rightarrow> string" where
  "make_file rands size' = foldl (\<lambda>f i. overwrite f (rands i mod nat size') [letter i]) [] [0..<n_letters size']"

text \<open>\<open>main\<close>: the name, the permissions and the content of the new file; \<open>unlinked\<close> is false when
  \<open>unlink\<close> fails for another reason than a missing file, \<open>opened\<close> when \<open>fopen\<close> fails.\<close>

definition make_main ::
  "(char \<times> string) list \<Rightarrow> bool \<Rightarrow> bool \<Rightarrow> (nat \<Rightarrow> nat) \<Rightarrow> (string \<times> 32 word \<times> string) or_err" where
  "make_main opts unlinked opened rands =
     bind_err (parse_make opts \<lparr>ma_name = None, ma_perms = -1, ma_size = -1\<rparr>)
       (\<lambda>a. if \<not> unlinked then ERR ''unlink''
            else if \<not> opened then ERR ''fopen''
            else Inr (the (ma_name a), created_mode (ma_perms a), make_file rands (ma_size a)))"

lemma created_mode_and: "created_mode perms = Bit_Operations.and 0x1B6 perms"
proof (rule bit_word_eqI)
  fix n assume "n < LENGTH(32)"
  show "bit (created_mode perms) n = bit (Bit_Operations.and 0x1B6 perms) n"
  proof -
    have "Bit_Operations.and (0x1B6 :: 32 word) 0x1FF = 0x1B6" by simp
    then have "bit (0x1B6 :: 32 word) n \<Longrightarrow> bit (0x1FF :: 32 word) n" by (metis bit_and_iff)
    then show ?thesis using \<open>n < LENGTH(32)\<close> by (auto simp only: created_mode_def bit_and_iff bit_not_iff bit_imp_possible_bit)
  qed
qed

text \<open>The last round below \<open>n\<close> that hits a place, and the end of the file.\<close>

fun last_hit :: "(nat \<Rightarrow> nat) \<Rightarrow> nat \<Rightarrow> nat \<Rightarrow> nat \<Rightarrow> nat option" where
  "last_hit rands m p 0 = None"
| "last_hit rands m p (Suc i) = (if rands i mod m = p then Some i else last_hit rands m p i)"

fun file_end :: "(nat \<Rightarrow> nat) \<Rightarrow> nat \<Rightarrow> nat \<Rightarrow> nat" where
  "file_end rands m 0 = 0"
| "file_end rands m (Suc i) = max (file_end rands m i) (rands i mod m + 1)"

definition byte_at :: "(nat \<Rightarrow> nat) \<Rightarrow> nat \<Rightarrow> nat \<Rightarrow> nat \<Rightarrow> char" where
  "byte_at rands m n p = (case last_hit rands m p n of None \<Rightarrow> NUL | Some i \<Rightarrow> letter i)"

lemma last_hit_end: "file_end rands m n \<le> p \<Longrightarrow> last_hit rands m p n = None"
  by (induction n) auto

lemma file_end_le: "0 < m \<Longrightarrow> file_end rands m n \<le> m"
  by (induction n) (auto simp: Suc_le_eq)

lemma overwrite_one:
  assumes "\<And>p. e \<le> p \<Longrightarrow> f p = NUL"
  shows "overwrite (map f [0..<e]) q [x] = map (f(q := x)) [0..<max e (q + 1)]"
proof (rule nth_equalityI)
  show "length (overwrite (map f [0..<e]) q [x]) = length (map (f(q := x)) [0..<max e (q + 1)])"
    by (simp add: overwrite_def)
  fix k assume "k < length (overwrite (map f [0..<e]) q [x])"
  then have k: "k < max e (q + 1)" by (simp add: overwrite_def split: if_splits)
  show "overwrite (map f [0..<e]) q [x] ! k = map (f(q := x)) [0..<max e (q + 1)] ! k"
    using k assms [of k] by (auto simp: overwrite_def nth_append nth_Cons' not_less max_def split: if_splits)
qed

text \<open>
  The file of letters. Byte \<open>p\<close> is the letter of the last round that hit it or zero, the file ends
  behind the last byte that was hit and so within the size asked for, and the permissions are those
  asked for without the right to execute, which \<open>fopen\<close> never gives.
\<close>

lemma make_file_bytes:
  assumes "0 < size'"
  shows "make_file rands size' = map (byte_at rands (nat size') (n_letters size')) [0..<file_end rands (nat size') (n_letters size')] \<and>
    length (make_file rands size') \<le> nat size' \<and> created_mode perms = Bit_Operations.and 0x1B6 perms"
proof -
  have "foldl (\<lambda>f i. overwrite f (rands i mod m) [letter i]) [] [0..<n] = map (byte_at rands m n) [0..<file_end rands m n]" for m n
  proof (induction n)
    case (Suc n)
    have next_byte: "(byte_at rands m n)(rands n mod m := letter n) = byte_at rands m (Suc n)"
      by (auto simp: byte_at_def fun_eq_iff)
    have "byte_at rands m n p = NUL" if "file_end rands m n \<le> p" for p using last_hit_end [OF that] by (simp add: byte_at_def)
    from overwrite_one [of "file_end rands m n" "byte_at rands m n", OF this]
    have "overwrite (map (byte_at rands m n) [0..<file_end rands m n]) (rands n mod m) [letter n] =
        map (byte_at rands m (Suc n)) [0..<file_end rands m (Suc n)]"
      unfolding next_byte [symmetric] file_end.simps by blast
    then show ?case using Suc by simp
  qed simp
  then have "make_file rands size' = map (byte_at rands (nat size') (n_letters size')) [0..<file_end rands (nat size') (n_letters size')]"
    by (simp add: make_file_def)
  then show ?thesis using file_end_le [of "nat size'" rands "n_letters size'"] assms created_mode_and by simp
qed

lemma make_file_bytes_example:
  "make_file (\<lambda>i. if i = 0 then 23 else 41) 20 = [NUL, CHR ''B'', NUL, CHR ''A''] \<and> created_mode 0x1ED = 0x1A4"
proof -
  have "letter 0 = CHR ''A''" "letter 1 = CHR ''B''" by (simp_all add: letter_def char_of_def bit_0)
  then show ?thesis
    using make_file_bytes [of 20 "\<lambda>i. if i = 0 then 23 else 41" "0x1ED"]
    by (simp add: n_letters_def byte_at_def numeral_2_eq_2 upt_rec)
qed

subsection \<open>The environment\<close>

text \<open>The environment as the list of its variables, and \<open>setenv\<close> with \<open>overwrite\<close> set; \<open>None\<close> is
  \<open>EINVAL\<close>.\<close>

type_synonym environ = "(string \<times> string) list"

fun put_env :: "string \<Rightarrow> string \<Rightarrow> environ \<Rightarrow> environ" where
  "put_env name val [] = [(name, val)]"
| "put_env name val ((n, v) # env) = (if n = name then (n, val) # env else (n, v) # put_env name val env)"

definition bad_name :: "string \<Rightarrow> bool" where
  "bad_name name \<longleftrightarrow> name = [] \<or> CHR ''='' \<in> set name"

definition setenv :: "string \<Rightarrow> string \<Rightarrow> environ \<Rightarrow> environ option" where
  "setenv name val env = (if bad_name name then None else Some (put_env name val env))"

definition einval_msg :: string where
  "einval_msg = ''setenv - variable name contains '' @ [CHR 0x27, CHR ''='', CHR 0x27]"

text \<open>The loop from the last pair of arguments to the first; \<open>i\<close> is that of the code.\<close>

fun env_loop :: "string list \<Rightarrow> nat \<Rightarrow> environ \<Rightarrow> environ or_err" where
  "env_loop argv 0 env = Inr env"
| "env_loop argv (Suc i) env =
     (case setenv (argv ! i) (argv ! Suc i) env of
        None \<Rightarrow> ERR einval_msg
      | Some env' \<Rightarrow> env_loop argv (i - 1) env')"

definition env_main :: "string list \<Rightarrow> environ \<Rightarrow> string list or_err" where
  "env_main argv env =
     (if length argv mod 2 \<noteq> 1 then ERR ''usage''
      else bind_err (env_loop argv (length argv - 1) env) (\<lambda>env. Inr (map (\<lambda>(n, v). n @ CHR ''='' # v) env)))"

lemma put_env_map: "map_of (put_env name val env) = (map_of env)(name \<mapsto> val)"
  by (induction env rule: put_env.induct) auto

lemma put_env_names:
  "set (map fst (put_env name val env)) = insert name (set (map fst env))"
  "distinct (map fst env) \<Longrightarrow> distinct (map fst (put_env name val env))"
  by (induction env rule: put_env.induct) auto

text \<open>The arguments behind the name of the program, as pairs.\<close>

fun flatten :: "(string \<times> string) list \<Rightarrow> string list" where
  "flatten [] = []"
| "flatten ((n, v) # ps) = n # v # flatten ps"

lemma flatten_append: "flatten (ps @ qs) = flatten ps @ flatten qs"
  by (induction ps rule: flatten.induct) auto

lemma length_flatten [simp]: "length (flatten ps) = 2 * length ps"
  by (induction ps rule: flatten.induct) auto

lemma env_loop_snoc:
  "env_loop (p # flatten (ps @ [(n, v)]) @ rest) (2 * length (ps @ [(n, v)])) env =
     (case setenv n v env of
        None \<Rightarrow> ERR einval_msg
      | Some env' \<Rightarrow> env_loop (p # flatten ps @ n # v # rest) (2 * length ps) env')"
  by (simp add: flatten_append nth_Cons' nth_append split: option.splits)

lemma env_loop_spec:
  "env_loop (p # flatten ps @ rest) (2 * length ps) env =
     (if \<exists>x \<in> set ps. bad_name (fst x) then ERR einval_msg
      else Inr (foldr (\<lambda>(n, v). put_env n v) ps env))"
proof (induction ps arbitrary: rest env rule: rev_induct)
  case (snoc x ps)
  obtain n v where x: "x = (n, v)" by (cases x)
  show ?case unfolding x env_loop_snoc using snoc.IH [of "n # v # rest"] by (auto simp: setenv_def)
qed simp

text \<open>
  The environment. With a name that is empty or contains the sign \<open>=\<close> anywhere among the arguments
  the program fails; otherwise it prints every variable once, and a variable has the value of the
  first pair that names it, or the one it had before.
\<close>

lemma env_main_sets:
  assumes "distinct (map fst env)"
  shows "if \<exists>x \<in> set ps. bad_name (fst x) then env_main (p # flatten ps) env = ERR einval_msg
    else \<exists>env'. env_main (p # flatten ps) env = Inr (map (\<lambda>(n, v). n @ CHR ''='' # v) env') \<and>
      distinct (map fst env') \<and> map_of env' = map_of env ++ map_of ps"
proof -
  let ?env = "foldr (\<lambda>(n, v). put_env n v) ps env"
  have "map_of ?env = map_of env ++ map_of ps" by (induction ps) (auto simp: put_env_map map_add_def fun_eq_iff)
  moreover have "distinct (map fst ?env)" by (induction ps) (auto simp: assms put_env_names)
  ultimately show ?thesis using env_loop_spec [of p ps "[]" env] by (auto simp: env_main_def)
qed

lemma env_main_sets_example:
  "\<exists>env'. env_main [''prog'', ''A'', ''1'', ''B'', ''2'', ''A'', ''3''] [(''B'', ''0'')] = Inr (map (\<lambda>(n, v). n @ CHR ''='' # v) env') \<and>
     map_of env' ''A'' = Some ''1'' \<and> map_of env' ''B'' = Some ''2''"
  using env_main_sets [of "[(''B'', ''0'')]" "[(''A'', ''1''), (''B'', ''2''), (''A'', ''3'')]" "''prog''"]
  by (auto simp: bad_name_def)

subsection \<open>Options\<close>

text \<open>\<open>prog_opt.c\<close>: the greetings printed with the number \<open>x\<close> in force, and whether the program ends
  with \<open>usage\<close>; \<open>rest\<close> says that arguments are left.\<close>

fun opt_loop :: "(char \<times> string) list \<Rightarrow> bool \<Rightarrow> int \<Rightarrow> string list \<times> bool" where
  "opt_loop [] rest x = ([], rest)"
| "opt_loop ((c, optarg) # opts) rest x =
     (if c = CHR ''t'' then opt_loop opts rest (atoi optarg)
      else if c = CHR ''n''
      then (case opt_loop opts rest x of
              (out, u) \<Rightarrow> (replicate (nat x) (''Hello '' @ optarg @ [LF]) @ out, u))
      else ([], True))"

definition opt_main :: "(char \<times> string) list \<Rightarrow> bool \<Rightarrow> string list \<times> bool" where
  "opt_main opts rest = opt_loop opts rest 1"

text \<open>A name is printed as often as the last \<open>-t\<close> in front of it says, once without one.\<close>

lemma opt_loop_append:
  "\<forall>o' \<in> set opts. fst o' \<in> {CHR ''t'', CHR ''n''} \<Longrightarrow>
     fst (opt_loop (opts @ (CHR ''n'', name) # later) rest x) = fst (opt_loop opts rest x) @
       replicate (nat (case filter (\<lambda>o'. fst o' = CHR ''t'') (rev opts) of [] \<Rightarrow> x | o' # _ \<Rightarrow> atoi (snd o')))
         (''Hello '' @ name @ [LF]) @
       fst (opt_loop later rest (case filter (\<lambda>o'. fst o' = CHR ''t'') (rev opts) of [] \<Rightarrow> x | o' # _ \<Rightarrow> atoi (snd o')))"
proof (induction opts rest x rule: opt_loop.induct)
  case (1 rest x)
  then show ?case by (simp split: prod.splits)
next
  case (2 c optarg opts rest x)
  then show ?case by (auto split: prod.splits list.splits)
qed

subsection \<open>Counting what is in a directory\<close>

text \<open>\<open>lab01t-1.c\<close>: what \<open>lstat\<close> says of an entry; \<open>Unknown\<close> when it fails.\<close>

datatype kind = Directory | Regular | Link | Special | Unknown

record counts =
  n_dirs :: nat
  n_files :: nat
  n_links :: nat
  n_other :: nat

definition no_counts :: counts where
  "no_counts = \<lparr>n_dirs = 0, n_files = 0, n_links = 0, n_other = 0\<rparr>"

fun scan_loop :: "kind list \<Rightarrow> counts \<Rightarrow> counts or_err" where
  "scan_loop [] c = Inr c"
| "scan_loop (k # ks) c =
     (case k of
        Directory \<Rightarrow> scan_loop ks (c\<lparr>n_dirs := n_dirs c + 1\<rparr>)
      | Regular \<Rightarrow> scan_loop ks (c\<lparr>n_files := n_files c + 1\<rparr>)
      | Link \<Rightarrow> scan_loop ks (c\<lparr>n_links := n_links c + 1\<rparr>)
      | Special \<Rightarrow> scan_loop ks (c\<lparr>n_other := n_other c + 1\<rparr>)
      | Unknown \<Rightarrow> ERR ''lstat'')"

text \<open>\<open>scan_dir\<close> of the entries of the current directory, \<open>None\<close> when it cannot be opened;
  \<open>read_ok\<close> is false when \<open>readdir\<close> ends with an error.\<close>

definition scan_dir :: "kind list option \<Rightarrow> bool \<Rightarrow> bool \<Rightarrow> counts or_err" where
  "scan_dir dir read_ok close_ok =
     (case dir of
        None \<Rightarrow> ERR ''opendir''
      | Some ks \<Rightarrow>
          bind_err (scan_loop ks no_counts)
            (\<lambda>c. if \<not> read_ok then ERR ''readdir'' else if \<not> close_ok then ERR ''closedir'' else Inr c))"

text \<open>\<open>lab01t-2.c\<close>: the callback of \<open>nftw\<close>, with its counters, and the loop over the arguments, each
  with the flags of the files that \<open>nftw\<close> visits and whether it returns zero.\<close>

datatype ftw_flag = FTW_F | FTW_D | FTW_DNR | FTW_SL | FTW_OTHER

definition walk :: "ftw_flag \<Rightarrow> counts \<Rightarrow> counts" where
  "walk type c =
     (case type of
        FTW_DNR \<Rightarrow> c\<lparr>n_dirs := n_dirs c + 1\<rparr>
      | FTW_D \<Rightarrow> c\<lparr>n_dirs := n_dirs c + 1\<rparr>
      | FTW_F \<Rightarrow> c\<lparr>n_files := n_files c + 1\<rparr>
      | FTW_SL \<Rightarrow> c\<lparr>n_links := n_links c + 1\<rparr>
      | FTW_OTHER \<Rightarrow> c\<lparr>n_other := n_other c + 1\<rparr>)"

fun walk_main :: "(ftw_flag list \<times> bool) list \<Rightarrow> counts \<Rightarrow> counts option list" where
  "walk_main [] c = []"
| "walk_main ((visits, ok) # args) c =
     (if ok then Some (fold walk visits c) else None) # walk_main args no_counts"

text \<open>The flag that \<open>nftw\<close> has for an entry under \<open>FTW_PHYS\<close>.\<close>

fun flag_of :: "kind \<Rightarrow> ftw_flag" where
  "flag_of Directory = FTW_D"
| "flag_of Regular = FTW_F"
| "flag_of Link = FTW_SL"
| "flag_of Special = FTW_OTHER"
| "flag_of Unknown = FTW_OTHER"

lemma scan_loop_counts:
  "Unknown \<notin> set ks \<Longrightarrow> scan_loop ks c =
     Inr \<lparr>n_dirs = n_dirs c + length (filter (\<lambda>k. k = Directory) ks), n_files = n_files c + length (filter (\<lambda>k. k = Regular) ks),
       n_links = n_links c + length (filter (\<lambda>k. k = Link) ks), n_other = n_other c + length (filter (\<lambda>k. k = Special) ks)\<rparr>"
  by (induction ks c rule: scan_loop.induct) (auto split: kind.splits)

lemma scan_loop_walk: "Unknown \<notin> set ks \<Longrightarrow> scan_loop ks c = Inr (fold walk (map flag_of ks) c)"
proof (induction ks arbitrary: c)
  case (Cons k ks)
  then show ?case by (cases k) (auto simp: walk_def)
qed simp

lemma scan_loop_unknown: "Unknown \<in> set ks \<Longrightarrow> scan_loop ks c = ERR ''lstat''"
  by (induction ks c rule: scan_loop.induct) (auto split: kind.splits)

text \<open>
  Two ways to count. For a directory with these entries and no directory below, \<open>scan_dir\<close>, which
  also sees \<open>.\<close> and \<open>..\<close>, counts the same files, links and others as \<open>nftw\<close>, one directory more, and
  its four counts add up to the number of entries it has read; and what \<open>nftw\<close> counts for an argument
  does not depend on the arguments before it, failures included.
\<close>

lemma counts_agree:
  assumes "set ks \<subseteq> {Regular, Link, Special}"
  shows "\<exists>c d. scan_dir (Some (Directory # Directory # ks)) True True = Inr c \<and>
    walk_main (args @ [(FTW_D # map flag_of ks, True)]) no_counts = walk_main args no_counts @ [Some d] \<and>
    n_files c = n_files d \<and> n_links c = n_links d \<and> n_other c = n_other d \<and> n_dirs c = n_dirs d + 1 \<and>
    n_dirs c + n_files c + n_links c + n_other c = length (Directory # Directory # ks)"
proof -
  let ?d = "fold walk (FTW_D # map flag_of ks) no_counts"
  have main: "walk_main (args @ [(v, True)]) no_counts = walk_main args no_counts @ [Some (fold walk v no_counts)]" for v
  proof -
    have "walk_main (args @ [(v, True)]) c = walk_main args c @ [Some (fold walk v (if args = [] then c else no_counts))]" for c
      by (induction args c rule: walk_main.induct) (auto split: if_splits)
    from this [of no_counts] show ?thesis by simp
  qed
  have unknown: "Unknown \<notin> set ks" "Unknown \<notin> set (Directory # Directory # ks)" using assms by auto
  have len: "length (filter (\<lambda>k. k = Regular) ks) + length (filter (\<lambda>k. k = Link) ks) + length (filter (\<lambda>k. k = Special) ks) = length ks"
    and dirs: "filter (\<lambda>k. k = Directory) ks = []"
    using assms by (induction ks) auto
  have d: "Inr ?d = scan_loop (Directory # ks) no_counts"
    using scan_loop_walk [of "Directory # ks"] unknown(1) by simp
  show ?thesis
    unfolding main using d len dirs unknown
    by (auto simp: scan_dir_def scan_loop_counts no_counts_def)
qed

lemma counts_agree_example:
  "\<exists>c d. scan_dir (Some [Directory, Directory, Regular, Link, Regular]) True True = Inr c \<and>
     walk_main [([FTW_D, FTW_DNR], False), ([FTW_D, FTW_F, FTW_SL, FTW_F], True)] no_counts = [None, Some d] \<and>
     n_files c = n_files d \<and> n_dirs c = n_dirs d + 1"
  using counts_agree [of "[Regular, Link, Regular]" "[([FTW_D, FTW_DNR], False)]"] by auto

end
