(* ===== verification/SignalLoops.thy ===== *)
theory SignalLoops
  imports Prelude
begin

section \<open>Programs that wait for a signal\<close>

text \<open>
  \<open>sop1/lab02/tutorial/example2/sop-signals.c\<close> (a parent sends signals to its children until an
  alarm, a handler collects them), \<open>sop1/lab04/prelab/sop-abc.c\<close> (a thread turns \<open>SIGINT\<close> into a
  flag) and \<open>sop2/lab01/pipe_test/pipe_test.c\<close> (a line through a pipe). Any time may pass between two
  steps.
\<close>

subsection \<open>Children in rounds\<close>

text \<open>A child in front of each \<open>sethandler\<close>, at the test of its loop, asleep, and ended.\<close>

datatype usr = Usr1 | Usr2

datatype child_point = BeforeUsr1 | BeforeUsr2 | AtTest | Asleep | Ended

record child =
  c_point :: child_point
  c_last_signal :: "usr option"
  c_r :: nat
  c_out :: "bool list" \<comment> \<open>success or failure\<close>

text \<open>The parent in front of \<open>alarm\<close>, at the test of its loop, in each \<open>nanosleep\<close>, in the loop over
  \<open>wait\<close>, and behind it.\<close>

datatype parent_point = BeforeAlarm | LoopTest | FirstNap | SecondNap | Waiting | Returned

record family =
  f_children :: "child list"
  f_parent :: parent_point
  f_alarm :: bool \<comment> \<open>\<open>last_signal == SIGALRM\<close> in the parent\<close>
  f_zombies :: nat
  f_collected :: nat
  f_sigchld :: bool \<comment> \<open>pending\<close>


text \<open>\<open>sig_handler\<close> of a child; until it is installed the signal is ignored, as in the parent.\<close>

definition sig_handler :: "usr \<Rightarrow> child \<Rightarrow> child" where
  "sig_handler sig c =
     (case c_point c of
        BeforeUsr1 \<Rightarrow> c
      | BeforeUsr2 \<Rightarrow> if sig = Usr1 then c\<lparr>c_last_signal := Some sig\<rparr> else c
      | Ended \<Rightarrow> c
      | _ \<Rightarrow> c\<lparr>c_last_signal := Some sig\<rparr>)"

definition child_work :: "child \<Rightarrow> child option" where
  "child_work c =
     (case c_point c of
        BeforeUsr1 \<Rightarrow> Some (c\<lparr>c_point := BeforeUsr2\<rparr>)
      | BeforeUsr2 \<Rightarrow> Some (c\<lparr>c_point := AtTest\<rparr>)
      | AtTest \<Rightarrow> Some (if c_r c > 0 then c\<lparr>c_r := c_r c - 1, c_point := Asleep\<rparr> else c\<lparr>c_point := Ended\<rparr>)
      | Asleep \<Rightarrow> Some (c\<lparr>c_out := c_out c @ [c_last_signal c = Some Usr1], c_point := AtTest\<rparr>)
      | Ended \<Rightarrow> None)"

text \<open>A step of child \<open>i\<close>; its end is a zombie and a pending \<open>SIGCHLD\<close>.\<close>

definition child_step :: "nat \<Rightarrow> family \<Rightarrow> family option" where
  "child_step i s =
     (if i < length (f_children s)
      then
        (case child_work (f_children s ! i) of
           None \<Rightarrow> None
         | Some c \<Rightarrow>
             Some (s\<lparr>f_children := (f_children s)[i := c],
                    f_zombies := if c_point c = Ended then f_zombies s + 1 else f_zombies s,
                    f_sigchld := f_sigchld s \<or> c_point c = Ended\<rparr>))
      else None)"

definition kill_all :: "usr \<Rightarrow> family \<Rightarrow> family" where
  "kill_all sig s = s\<lparr>f_children := map (sig_handler sig) (f_children s)\<rparr>"

text \<open>\<open>parent_work\<close>, and the loop over \<open>wait\<close> behind it, which blocks while a child lives and none has
  ended.\<close>

definition parent_work :: "family \<Rightarrow> family option" where
  "parent_work s =
     (case f_parent s of
        BeforeAlarm \<Rightarrow> Some (s\<lparr>f_parent := LoopTest\<rparr>)
      | LoopTest \<Rightarrow> Some (s\<lparr>f_parent := if f_alarm s then Waiting else FirstNap\<rparr>)
      | FirstNap \<Rightarrow> Some ((kill_all Usr1 s)\<lparr>f_parent := SecondNap\<rparr>)
      | SecondNap \<Rightarrow> Some ((kill_all Usr2 s)\<lparr>f_parent := LoopTest\<rparr>)
      | Waiting \<Rightarrow>
          if f_zombies s > 0 then Some (s\<lparr>f_zombies := f_zombies s - 1, f_collected := f_collected s + 1\<rparr>)
          else if list_all (\<lambda>c. c_point c = Ended) (f_children s) then Some (s\<lparr>f_parent := Returned\<rparr>)
          else None
      | Returned \<Rightarrow> None)"

text \<open>\<open>sigchld_handler\<close> collects all that have ended; another one that ends meanwhile leaves the signal
  pending again.\<close>

definition sigchld_handler :: "bool \<Rightarrow> family \<Rightarrow> family" where
  "sigchld_handler again s =
     s\<lparr>f_zombies := 0, f_collected := f_collected s + f_zombies s, f_sigchld := again\<rparr>"

inductive family_step :: "family \<Rightarrow> family \<Rightarrow> bool" where
  parent: "parent_work s = Some t \<Longrightarrow> family_step s t"
| child: "child_step i s = Some t \<Longrightarrow> family_step s t"
| alarm: "f_parent s \<noteq> BeforeAlarm \<Longrightarrow> f_parent s \<noteq> Returned \<Longrightarrow> family_step s (s\<lparr>f_alarm := True\<rparr>)"
| sigchld: "f_sigchld s \<Longrightarrow> f_parent s \<noteq> Returned \<Longrightarrow> family_step s (sigchld_handler again s)"

inductive_cases family_stepE: "family_step s t"

text \<open>Every child has done its rounds up to the one it is in; the ended ones are the zombies and the
  collected ones.\<close>

definition child_ok :: "nat \<Rightarrow> child \<Rightarrow> bool" where
  "child_ok r c \<longleftrightarrow> length (c_out c) + c_r c + (if c_point c = Asleep then 1 else 0) = r \<and>
     (c_point c = Ended \<longrightarrow> c_r c = 0) \<and> (c_point c \<in> {BeforeUsr1, BeforeUsr2} \<longrightarrow> c_out c = [])"

definition n_ended :: "family \<Rightarrow> nat" where
  "n_ended s = length (filter (\<lambda>c. c_point c = Ended) (f_children s))"


lemma sig_handler_keeps [simp]:
  "c_point (sig_handler sig c) = c_point c" "c_r (sig_handler sig c) = c_r c" "c_out (sig_handler sig c) = c_out c"
  by (simp_all add: sig_handler_def split: child_point.split)

lemma kill_all_keeps [simp]:
  "length (f_children (kill_all sig s)) = length (f_children s)" "n_ended (kill_all sig s) = n_ended s"
  "list_all (child_ok r) (f_children (kill_all sig s)) = list_all (child_ok r) (f_children s)"
  "f_zombies (kill_all sig s) = f_zombies s" "f_collected (kill_all sig s) = f_collected s"
  "f_alarm (kill_all sig s) = f_alarm s" "f_parent (kill_all sig s) = f_parent s"
  by (simp_all add: kill_all_def n_ended_def filter_map comp_def list_all_iff child_ok_def)


lemma n_ended_simps [simp]:
  "n_ended (s\<lparr>f_parent := p\<rparr>) = n_ended s" "n_ended (s\<lparr>f_alarm := a\<rparr>) = n_ended s"
  "n_ended (s\<lparr>f_zombies := z, f_collected := k\<rparr>) = n_ended s"
  "n_ended (sigchld_handler again s) = n_ended s"
  by (simp_all add: n_ended_def sigchld_handler_def)





text \<open>What is left to do, with the alarm going off at once.\<close>

definition child_rank :: "child \<Rightarrow> nat" where
  "child_rank c = 2 * (case c_point c of BeforeUsr1 \<Rightarrow> 2 * c_r c + 3 | BeforeUsr2 \<Rightarrow> 2 * c_r c + 2 | AtTest \<Rightarrow> 2 * c_r c + 1
     | Asleep \<Rightarrow> 2 * c_r c + 2 | Ended \<Rightarrow> 0)"


lemma kill_all_rank [simp]: "map child_rank (f_children (kill_all sig s)) = map child_rank (f_children s)"
proof -
  have "child_rank (sig_handler sig c) = child_rank c" for c by (simp add: child_rank_def cong: child_point.case_cong)
  then show ?thesis by (simp add: kill_all_def)
qed






subsection \<open>A thread for a signal\<close>

text \<open>\<open>sop-abc.c\<close>: the mutex with its holder. \<open>main\<close> in front of the lock, of the test, of each unlock,
  asleep, and behind the loop; the other thread in \<open>sigwait\<close>, in front of the lock, of the
  assignment, of the unlock, and ended.\<close>

datatype main_point = M_Lock | M_Test | M_Unlock_Break | M_Unlock | M_Sleep | M_End
datatype sig_point = S_Wait | S_Lock | S_Set | S_Unlock | S_End
datatype holder = Nobody | Main | Signal_Handling

record abc =
  a_holder :: holder
  a_quit :: bool
  a_main :: main_point
  a_sig :: sig_point
  a_sigint :: bool \<comment> \<open>\<open>SIGINT\<close> has come\<close>

definition abc_start :: abc where
  "abc_start = \<lparr>a_holder = Nobody, a_quit = False, a_main = M_Lock, a_sig = S_Wait, a_sigint = False\<rparr>"

definition abc_main :: "abc \<Rightarrow> abc option" where
  "abc_main s =
     (case a_main s of
        M_Lock \<Rightarrow> if a_holder s = Nobody then Some (s\<lparr>a_holder := Main, a_main := M_Test\<rparr>) else None
      | M_Test \<Rightarrow> Some (s\<lparr>a_main := if a_quit s then M_Unlock_Break else M_Unlock\<rparr>)
      | M_Unlock_Break \<Rightarrow> Some (s\<lparr>a_holder := Nobody, a_main := M_End\<rparr>)
      | M_Unlock \<Rightarrow> Some (s\<lparr>a_holder := Nobody, a_main := M_Sleep\<rparr>)
      | M_Sleep \<Rightarrow> Some (s\<lparr>a_main := M_Lock\<rparr>)
      | M_End \<Rightarrow> None)"

definition abc_signal_handling :: "abc \<Rightarrow> abc option" where
  "abc_signal_handling s =
     (case a_sig s of
        S_Wait \<Rightarrow> if a_sigint s then Some (s\<lparr>a_sig := S_Lock\<rparr>) else None
      | S_Lock \<Rightarrow> if a_holder s = Nobody then Some (s\<lparr>a_holder := Signal_Handling, a_sig := S_Set\<rparr>) else None
      | S_Set \<Rightarrow> Some (s\<lparr>a_quit := True, a_sig := S_Unlock\<rparr>)
      | S_Unlock \<Rightarrow> Some (s\<lparr>a_holder := Nobody, a_sig := S_End\<rparr>)
      | S_End \<Rightarrow> None)"

text \<open>The end of \<open>main\<close> is the end of the process.\<close>

inductive abc_step :: "abc \<Rightarrow> abc \<Rightarrow> bool" where
  "abc_main s = Some t \<Longrightarrow> abc_step s t"
| "a_main s \<noteq> M_End \<Longrightarrow> abc_signal_handling s = Some t \<Longrightarrow> abc_step s t"
| "a_main s \<noteq> M_End \<Longrightarrow> abc_step s (s\<lparr>a_sigint := True\<rparr>)"

definition abc_inv :: "abc \<Rightarrow> bool" where
  "abc_inv s \<longleftrightarrow>
     (a_holder s = Main \<longleftrightarrow> a_main s \<in> {M_Test, M_Unlock_Break, M_Unlock}) \<and>
     (a_holder s = Signal_Handling \<longleftrightarrow> a_sig s \<in> {S_Set, S_Unlock}) \<and>
     (a_quit s \<longleftrightarrow> a_sig s \<in> {S_Unlock, S_End}) \<and>
     (a_sig s \<noteq> S_Wait \<longrightarrow> a_sigint s) \<and> (a_main s \<in> {M_Unlock_Break, M_End} \<longrightarrow> a_quit s)"

lemma abc_step_inv: "abc_step s t \<Longrightarrow> abc_inv s \<Longrightarrow> abc_inv t"
proof (induction rule: abc_step.induct)
  case (1 s t)
  then show ?case
    by (cases "a_main s"; cases "a_quit s"; clarsimp simp: abc_main_def abc_inv_def split: if_splits)
next
  case (2 s t)
  then show ?case
    by (cases "a_sig s"; cases "a_holder s"; clarsimp simp: abc_signal_handling_def abc_inv_def split: if_splits)
qed (auto simp: abc_inv_def)

fun main_rank :: "bool \<Rightarrow> main_point \<Rightarrow> nat" where
  "main_rank quit M_Test = (if quit then 2 else 6)"
| "main_rank quit M_Unlock = 5"
| "main_rank quit M_Sleep = 4"
| "main_rank quit M_Lock = 3"
| "main_rank quit M_Unlock_Break = 1"
| "main_rank quit M_End = 0"

fun sig_rank :: "sig_point \<Rightarrow> nat" where
  "sig_rank S_Wait = 4"
| "sig_rank S_Lock = 3"
| "sig_rank S_Set = 2"
| "sig_rank S_Unlock = 1"
| "sig_rank S_End = 0"

definition abc_rank :: "abc \<Rightarrow> nat" where
  "abc_rank s = (if a_sigint s then 0 else 1) + sig_rank (a_sig s) + main_rank (a_quit s) (a_main s)"

lemma main_rank_quit: "main_rank True p \<le> main_rank quit p"
  by (cases p) auto

lemma abc_sig_rank:
  assumes "abc_signal_handling s = Some t"
  shows "abc_rank t < abc_rank s"
  using assms main_rank_quit [of "a_main s" "a_quit s"]
  by (cases "a_sig s") (auto simp: abc_signal_handling_def abc_rank_def split: if_splits)

lemma abc_main_rank:
  assumes "abc_main s = Some t" "a_quit s \<or> a_main s \<noteq> M_Lock"
  shows "abc_rank t < abc_rank s"
  using assms by (cases "a_main s") (auto simp: abc_main_def abc_rank_def split: if_splits)

lemma abc_helpful:
  assumes inv: "abc_inv s" and run: "a_main s \<noteq> M_End"
  shows "\<exists>t. abc_step s t \<and> abc_rank t < abc_rank s"
proof (cases "a_sigint s")
  case False
  then have "abc_rank (s\<lparr>a_sigint := True\<rparr>) < abc_rank s" by (simp add: abc_rank_def cong: main_point.case_cong)
  then show ?thesis using abc_step.intros(3) [OF run] by blast
next
  case True
  show ?thesis
  proof (cases "abc_signal_handling s")
    case (Some t)
    then show ?thesis using abc_sig_rank abc_step.intros(2) [OF run] by blast
  next
    case None
    then have "a_sig s = S_End \<or> a_sig s = S_Lock \<and> a_holder s \<noteq> Nobody"
      using True by (cases "a_sig s") (auto simp: abc_signal_handling_def split: if_splits)
    then have go: "(a_quit s \<or> a_main s \<noteq> M_Lock) \<and> (a_main s = M_Lock \<longrightarrow> a_holder s = Nobody)"
      using inv by (cases "a_holder s") (simp_all add: abc_inv_def, auto)
    then have "abc_main s \<noteq> None" using run go by (cases "a_main s") (auto simp: abc_main_def)
    then obtain t where t: "abc_main s = Some t" by blast
    then show ?thesis using abc_main_rank [OF t] go abc_step.intros(1) by blast
  qed
qed

interpretation abc_sys: completable_system "\<lambda>s. s = abc_start" abc_step abc_inv abc_rank "\<lambda>s. a_main s = M_End"
proof unfold_locales
  fix s assume "s = abc_start"
  then show "abc_inv s" by (simp add: abc_inv_def abc_start_def)
qed (auto intro: abc_step_inv dest: abc_helpful)

text \<open>
  The flag. In every interleaving each thread looks at the flag and changes it only while it holds
  the mutex, and never both; \<open>main\<close> ends only after \<open>SIGINT\<close>, and from every state it can come to its
  end.
\<close>

lemma abc_flag:
  assumes run: "abc_step\<^sup>*\<^sup>* abc_start s"
  shows "(a_main s = M_Test \<longrightarrow> a_holder s = Main) \<and> (a_sig s = S_Set \<longrightarrow> a_holder s = Signal_Handling) \<and>
    (a_main s = M_End \<longrightarrow> a_sigint s) \<and> (\<exists>t. abc_step\<^sup>*\<^sup>* s t \<and> a_main t = M_End)"
  using abc_sys.inv_reachable [OF refl run] abc_sys.reachable_completes [OF refl run]
  by (auto simp: abc_inv_def)

lemma abc_flag_example:
  "\<exists>t. abc_step\<^sup>*\<^sup>* (abc_start\<lparr>a_holder := Main, a_main := M_Test\<rparr>) t \<and> a_main t = M_End"
proof -
  have "abc_main abc_start = Some (abc_start\<lparr>a_holder := Main, a_main := M_Test\<rparr>)" by (simp add: abc_main_def abc_start_def)
  then have "abc_step\<^sup>*\<^sup>* abc_start (abc_start\<lparr>a_holder := Main, a_main := M_Test\<rparr>)"
    by (intro r_into_rtranclp abc_step.intros(1))
  from abc_flag [OF this] show ?thesis by blast
qed

subsection \<open>A line through a pipe\<close>

text \<open>\<open>pipe_test.c\<close>: the parent writes sixteen equal letters at once, the child reads once, up to 32
  bytes, and prints them as a string.\<close>

record pipe_state =
  pi_bytes :: string
  pi_written :: bool
  pi_closed :: bool
  pi_printed :: "string option"

definition pipe_start :: pipe_state where
  "pipe_start = \<lparr>pi_bytes = [], pi_written = False, pi_closed = False, pi_printed = None\<rparr>"

definition pipe_parent_work :: "nat \<Rightarrow> pipe_state \<Rightarrow> pipe_state option" where
  "pipe_parent_work r s =
     (if \<not> pi_written s then Some (s\<lparr>pi_bytes := pi_bytes s @ replicate 16 (char_of (97 + r mod 26)), pi_written := True\<rparr>)
      else if \<not> pi_closed s then Some (s\<lparr>pi_closed := True\<rparr>)
      else None)"

text \<open>\<open>read\<close> waits for bytes or for the writing end to be closed.\<close>

definition pipe_child_work :: "pipe_state \<Rightarrow> pipe_state option" where
  "pipe_child_work s =
     (if pi_printed s \<noteq> None \<or> pi_bytes s = [] \<and> \<not> pi_closed s then None
      else
        (let buf = take 32 (pi_bytes s)
         in Some (s\<lparr>pi_bytes := drop 32 (pi_bytes s),
              pi_printed := Some (''(child) read '' @ decimal (length buf) @ '' chars: '' @ cstr (buf @ [NUL]) @ [LF])\<rparr>)))"

inductive pipe_step :: "nat \<Rightarrow> pipe_state \<Rightarrow> pipe_state \<Rightarrow> bool" for r where
  "pipe_parent_work r s = Some t \<Longrightarrow> pipe_step r s t"
| "pipe_child_work s = Some t \<Longrightarrow> pipe_step r s t"

definition pipe_line :: "nat \<Rightarrow> string" where
  "pipe_line r = ''(child) read 16 chars: '' @ replicate 16 (char_of (97 + r mod 26)) @ [LF]"

definition pipe_inv :: "nat \<Rightarrow> pipe_state \<Rightarrow> bool" where
  "pipe_inv r s \<longleftrightarrow>
     (case pi_printed s of
        None \<Rightarrow> pi_bytes s = (if pi_written s then replicate 16 (char_of (97 + r mod 26)) else []) \<and> (pi_closed s \<longrightarrow> pi_written s)
      | Some line \<Rightarrow> pi_bytes s = [] \<and> pi_written s \<and> line = pipe_line r)"

lemma pipe_step_inv: "pipe_step r s t \<Longrightarrow> pipe_inv r s \<Longrightarrow> pipe_inv r t"
proof (induction rule: pipe_step.induct)
  case (1 s t)
  then show ?case by (auto simp: pipe_parent_work_def pipe_inv_def split: if_splits option.splits)
next
  case (2 s t)
  define l where "l = replicate 16 (char_of (97 + r mod 26))"
  have "(of_char (char_of (97 + r mod 26 :: nat)) :: nat) = 97 + r mod 26"
    by (simp add: less_trans [of "97 + r mod 26" 123 256])
  moreover have "(of_char NUL :: nat) = 0" by simp
  ultimately have "char_of (97 + r mod 26 :: nat) \<noteq> NUL" by (metis add_is_0 zero_neq_numeral)
  then have l: "cstr (l @ [NUL]) = l" "length l = 16"
    unfolding l_def by (intro cstr_append_NUL) (simp_all add: in_set_replicate)
  have sixteen: "decimal 16 = ''16''" by (simp add: decimal.simps cstr_simps)
  have none: "pi_printed s = None" and "pi_bytes s \<noteq> [] \<or> pi_closed s"
    using "2.hyps" by (auto simp: pipe_child_work_def split: if_splits)
  have "pi_bytes s = (if pi_written s then l else []) \<and> (pi_closed s \<longrightarrow> pi_written s)"
    using "2.prems" unfolding pipe_inv_def none l_def option.case .
  with \<open>pi_bytes s \<noteq> [] \<or> pi_closed s\<close> have s: "pi_written s" "pi_bytes s = l" by (cases "pi_written s"; simp)+
  have "take 32 l = l" "drop 32 l = []" using l(2) by simp_all
  then have "t = s\<lparr>pi_bytes := [], pi_printed := Some (''(child) read '' @ ''16'' @ '' chars: '' @ l @ [LF])\<rparr>"
    using "2.hyps" none \<open>pi_bytes s \<noteq> [] \<or> pi_closed s\<close> s(2) l sixteen by (auto simp: pipe_child_work_def Let_def)
  then show ?case using s(1) by (simp add: pipe_inv_def pipe_line_def l_def)
qed

interpretation pipe_sys: invariant_system "\<lambda>s. s = pipe_start" "pipe_step r" "pipe_inv r" for r
proof unfold_locales
  fix s assume "s = pipe_start"
  then show "pipe_inv r s" by (simp add: pipe_inv_def pipe_start_def)
qed (rule pipe_step_inv)

text \<open>Whenever the child reads, it prints the whole line.\<close>

lemma pipe_prints:
  "(pipe_step r)\<^sup>*\<^sup>* pipe_start s \<Longrightarrow> pi_printed s = Some line \<Longrightarrow> line = pipe_line r"
  using pipe_sys.inv_reachable [OF refl, of r s] by (simp add: pipe_inv_def)

end
