(* ===== verification/PiThreads.thy ===== *)
theory PiThreads
  imports Prelude Complex_Main
begin

section \<open>An estimate by several threads\<close>

text \<open>
  \<open>sop1/lab03/tutorial/zad1/zad1.c\<close>: each thread draws points with a seed of its own and returns its
  share of hits, \<open>main\<close> joins the threads in order and adds up. The generator of the library and the
  arithmetic of \<open>double\<close> are parameters.
\<close>

definition DEFAULT_THREADCOUNT :: int where "DEFAULT_THREADCOUNT = 10"
definition DEFAULT_SAMPLESIZE :: int where "DEFAULT_SAMPLESIZE = 100"

text \<open>The arguments: the counts of threads and of samples.\<close>

definition ReadArguments :: "string list \<Rightarrow> (int \<times> int) or_err" where
  "ReadArguments argv =
     (let threadCount = if length argv \<ge> 2 then atoi (argv ! 1) else DEFAULT_THREADCOUNT in
      if length argv \<ge> 2 \<and> threadCount \<le> 0 then ERR ''threadCount''
      else
        (let samplesCount = if length argv \<ge> 3 then atoi (argv ! 2) else DEFAULT_SAMPLESIZE in
         if length argv \<ge> 3 \<and> samplesCount \<le> 0 then ERR ''samplesCount''
         else Inr (threadCount, samplesCount)))"

lemma ReadArguments_positive:
  "ReadArguments argv = Inr (threads, samples) \<Longrightarrow> 0 < threads \<and> 0 < samples"
  by (auto simp: ReadArguments_def Let_def DEFAULT_THREADCOUNT_def DEFAULT_SAMPLESIZE_def split: if_splits)

text \<open>\<open>rand_r\<close>; whether a point lies in the circle; \<open>4.0 * inside / samples\<close>; the sum, its start, and
  the division at the end.\<close>

record 'd arith =
  rand_r :: "32 word \<Rightarrow> nat \<times> 32 word"
  in_circle :: "nat \<Rightarrow> nat \<Rightarrow> bool"
  share :: "nat \<Rightarrow> nat \<Rightarrow> 'd"
  zero_d :: 'd
  plus_d :: "'d \<Rightarrow> 'd \<Rightarrow> 'd"
  over :: "'d \<Rightarrow> nat \<Rightarrow> 'd"

text \<open>A round of the loop of \<open>pi_estimation\<close> on the seed and \<open>insideCount\<close>, and all that are left.\<close>

definition pi_round :: "'d arith \<Rightarrow> 32 word \<times> nat \<Rightarrow> 32 word \<times> nat" where
  "pi_round ar s =
     (case rand_r ar (fst s) of
        (x, seed) \<Rightarrow>
          (case rand_r ar seed of
             (y, seed') \<Rightarrow> (seed', if in_circle ar x y then snd s + 1 else snd s)))"

fun pi_rounds :: "'d arith \<Rightarrow> nat \<Rightarrow> 32 word \<times> nat \<Rightarrow> 32 word \<times> nat" where
  "pi_rounds ar 0 s = s"
| "pi_rounds ar (Suc k) s = pi_rounds ar k (pi_round ar s)"

definition pi_estimation :: "'d arith \<Rightarrow> nat \<Rightarrow> 32 word \<Rightarrow> 'd" where
  "pi_estimation ar samples seed = share ar (snd (pi_rounds ar samples (seed, 0))) samples"

text \<open>A thread: not created, with this many rounds to go, returned, and joined. \<open>main\<close> at the loop
  that creates, at the one that joins with \<open>cumulativeResult\<close>, and behind \<open>printf\<close>.\<close>

datatype 'd thread = Uncreated | Sampling nat "32 word \<times> nat" | Returned 'd | Joined

datatype 'd main_point = Creating nat | Joining nat 'd | Printed 'd

record 'd estimation =
  es_threads :: "'d thread list"
  es_main :: "'d main_point"

definition estimation_start :: "nat \<Rightarrow> 'd estimation" where
  "estimation_start n = \<lparr>es_threads = replicate n Uncreated, es_main = Creating 0\<rparr>"

definition thread_step :: "'d arith \<Rightarrow> nat \<Rightarrow> 'd thread \<Rightarrow> 'd thread option" where
  "thread_step ar samples t =
     (case t of
        Sampling (Suc k) s \<Rightarrow> Some (Sampling k (pi_round ar s))
      | Sampling 0 s \<Rightarrow> Some (Returned (share ar (snd s) samples))
      | _ \<Rightarrow> None)"

text \<open>\<open>seeds\<close> are the results of \<open>rand\<close> that \<open>main\<close> has put into the arguments of the threads.\<close>

definition main_step :: "'d arith \<Rightarrow> nat \<Rightarrow> 32 word list \<Rightarrow> 'd estimation \<Rightarrow> 'd estimation option" where
  "main_step ar samples seeds e =
     (case es_main e of
        Creating i \<Rightarrow>
          Some (if i < length seeds
                then e\<lparr>es_threads := (es_threads e)[i := Sampling samples (seeds ! i, 0)], es_main := Creating (i + 1)\<rparr>
                else e\<lparr>es_main := Joining 0 (zero_d ar)\<rparr>)
      | Joining i cumulative \<Rightarrow>
          if i < length seeds
          then (case es_threads e ! i of
                  Returned d \<Rightarrow>
                    Some (e\<lparr>es_threads := (es_threads e)[i := Joined], es_main := Joining (i + 1) (plus_d ar cumulative d)\<rparr>)
                | _ \<Rightarrow> None)
          else Some (e\<lparr>es_main := Printed (over ar cumulative (length seeds))\<rparr>)
      | Printed d \<Rightarrow> None)"

inductive estimation_step :: "'d arith \<Rightarrow> nat \<Rightarrow> 32 word list \<Rightarrow> 'd estimation \<Rightarrow> 'd estimation \<Rightarrow> bool"
  for ar samples seeds where
  "main_step ar samples seeds e = Some e' \<Longrightarrow> estimation_step ar samples seeds e e'"
| "i < length (es_threads e) \<Longrightarrow> thread_step ar samples (es_threads e ! i) = Some t \<Longrightarrow>
     estimation_step ar samples seeds e (e\<lparr>es_threads := (es_threads e)[i := t]\<rparr>)"

text \<open>What a single thread would compute, and the program without threads.\<close>

definition sequential :: "'d arith \<Rightarrow> nat \<Rightarrow> 32 word list \<Rightarrow> 'd" where
  "sequential ar samples seeds =
     over ar (foldl (plus_d ar) (zero_d ar) (map (pi_estimation ar samples) seeds)) (length seeds)"

text \<open>The invariant: what a thread has left to do leads to its result, and \<open>main\<close> has added the results
  of the threads it has joined.\<close>

definition thread_ok :: "'d arith \<Rightarrow> nat \<Rightarrow> 32 word \<Rightarrow> 'd thread \<Rightarrow> bool" where
  "thread_ok ar samples seed t =
     (case t of
        Sampling k s \<Rightarrow> share ar (snd (pi_rounds ar k s)) samples = pi_estimation ar samples seed \<and> k \<le> samples
      | Returned d \<Rightarrow> d = pi_estimation ar samples seed
      | _ \<Rightarrow> True)"

definition added :: "'d arith \<Rightarrow> nat \<Rightarrow> 32 word list \<Rightarrow> nat \<Rightarrow> 'd" where
  "added ar samples seeds i = foldl (plus_d ar) (zero_d ar) (map (pi_estimation ar samples) (take i seeds))"

definition estimation_inv :: "'d arith \<Rightarrow> nat \<Rightarrow> 32 word list \<Rightarrow> 'd estimation \<Rightarrow> bool" where
  "estimation_inv ar samples seeds e \<longleftrightarrow>
     length (es_threads e) = length seeds \<and>
     (\<forall>i < length seeds. thread_ok ar samples (seeds ! i) (es_threads e ! i)) \<and>
     (case es_main e of
        Creating i \<Rightarrow> i \<le> length seeds \<and> (\<forall>j < length seeds. (es_threads e ! j = Uncreated \<longleftrightarrow> i \<le> j) \<and> es_threads e ! j \<noteq> Joined)
      | Joining i d \<Rightarrow> i \<le> length seeds \<and> d = added ar samples seeds i \<and>
          (\<forall>j < length seeds. es_threads e ! j \<noteq> Uncreated \<and> (es_threads e ! j = Joined \<longleftrightarrow> j < i))
      | Printed d \<Rightarrow> d = sequential ar samples seeds \<and> (\<forall>j < length seeds. es_threads e ! j = Joined))"

lemma added_Suc: "i < length seeds \<Longrightarrow>
    added ar samples seeds (Suc i) = plus_d ar (added ar samples seeds i) (pi_estimation ar samples (seeds ! i))"
  by (simp add: added_def take_Suc_conv_app_nth)

lemma thread_step_ok:
  "thread_step ar samples t = Some t' \<Longrightarrow> thread_ok ar samples seed t \<Longrightarrow>
     thread_ok ar samples seed t' \<and> t \<noteq> Uncreated \<and> t \<noteq> Joined \<and> t' \<noteq> Uncreated \<and> t' \<noteq> Joined"
  by (auto simp: thread_step_def thread_ok_def split: thread.splits nat.splits)

lemma estimation_step_inv:
  "estimation_step ar samples seeds e e' \<Longrightarrow> estimation_inv ar samples seeds e \<Longrightarrow> estimation_inv ar samples seeds e'"
proof (induction rule: estimation_step.induct)
  case (1 e e')
  show ?case
  proof (cases "es_main e")
    case (Creating i)
    with 1 show ?thesis
      by (auto simp: main_step_def estimation_inv_def nth_list_update thread_ok_def pi_estimation_def added_def less_Suc_eq split: if_splits)
  next
    case (Joining i d)
    show ?thesis
    proof (cases "i < length seeds")
      case True
      then obtain r where r: "es_threads e ! i = Returned r"
        "e' = e\<lparr>es_threads := (es_threads e)[i := Joined], es_main := Joining (i + 1) (plus_d ar d r)\<rparr>"
        using 1 Joining by (auto simp: main_step_def split: thread.splits)
      have "thread_ok ar samples (seeds ! i) (es_threads e ! i)" using 1 True by (simp add: estimation_inv_def)
      then have "r = pi_estimation ar samples (seeds ! i)" using r by (simp add: thread_ok_def)
      with 1 Joining True r show ?thesis
        by (auto simp: estimation_inv_def nth_list_update thread_ok_def added_Suc less_Suc_eq)
    next
      case False
      with 1 Joining show ?thesis by (auto simp: main_step_def estimation_inv_def added_def sequential_def)
    qed
  qed (use 1 in \<open>simp add: main_step_def\<close>)
next
  case (2 i e t)
  then have i: "i < length seeds" "thread_ok ar samples (seeds ! i) (es_threads e ! i)" by (auto simp: estimation_inv_def)
  note keep = thread_step_ok [OF 2(2) i(2)]
  show ?case using 2 i keep by (auto simp: estimation_inv_def nth_list_update split: main_point.splits)
qed

text \<open>Every step is one less to do.\<close>

fun thread_rank :: "nat \<Rightarrow> 'd thread \<Rightarrow> nat" where
  "thread_rank samples Uncreated = samples + 3"
| "thread_rank samples (Sampling k s) = k + 2"
| "thread_rank samples (Returned d) = 1"
| "thread_rank samples Joined = 0"

fun main_rank :: "nat \<Rightarrow> 'd main_point \<Rightarrow> nat" where
  "main_rank n (Creating i) = n - i + n + 2"
| "main_rank n (Joining i d) = n - i + 1"
| "main_rank n (Printed d) = 0"

definition estimation_rank :: "nat \<Rightarrow> nat \<Rightarrow> 'd estimation \<Rightarrow> nat" where
  "estimation_rank n samples e = sum_list (map (thread_rank samples) (es_threads e)) + main_rank n (es_main e)"

lemma thread_rank_step: "thread_step ar samples t = Some t' \<Longrightarrow> thread_rank samples t' < thread_rank samples t"
  by (auto simp: thread_step_def split: thread.splits nat.splits)

lemma thread_rank_update:
  assumes "i < length ts" "thread_rank samples t < thread_rank samples (ts ! i)"
  shows "sum_list (map (thread_rank samples) (ts[i := t])) < sum_list (map (thread_rank samples) ts)"
  using sum_list_map_update [OF assms(1), of "thread_rank samples" t] assms(2) by linarith

lemma estimation_step_rank:
  "estimation_step ar samples seeds e e' \<Longrightarrow> estimation_inv ar samples seeds e \<Longrightarrow>
     estimation_rank (length seeds) samples e' < estimation_rank (length seeds) samples e"
proof (induction rule: estimation_step.induct)
  case (1 e e')
  show ?case
  proof (cases "es_main e")
    case (Creating i)
    show ?thesis
    proof (cases "i < length seeds")
      case True
      then have "es_threads e ! i = Uncreated" using 1 Creating by (auto simp: estimation_inv_def)
      then have "sum_list (map (thread_rank samples) ((es_threads e)[i := Sampling samples (seeds ! i, 0)])) <
          sum_list (map (thread_rank samples) (es_threads e))"
        using 1(2) True by (intro thread_rank_update) (auto simp: estimation_inv_def)
      with 1 Creating True show ?thesis by (auto simp: main_step_def estimation_rank_def simp del: map_update)
    qed (use 1 Creating in \<open>auto simp: main_step_def estimation_rank_def\<close>)
  next
    case (Joining i d)
    show ?thesis
    proof (cases "i < length seeds")
      case True
      then obtain r where r: "es_threads e ! i = Returned r"
        "e' = e\<lparr>es_threads := (es_threads e)[i := Joined], es_main := Joining (i + 1) (plus_d ar d r)\<rparr>"
        using 1 Joining by (auto simp: main_step_def split: thread.splits)
      then have "sum_list (map (thread_rank samples) ((es_threads e)[i := Joined])) < sum_list (map (thread_rank samples) (es_threads e))"
        using 1(2) True by (intro thread_rank_update) (auto simp: estimation_inv_def)
      with Joining True r show ?thesis by (auto simp: estimation_rank_def simp del: map_update)
    qed (use 1 Joining in \<open>auto simp: main_step_def estimation_rank_def\<close>)
  qed (use 1 in \<open>simp add: main_step_def\<close>)
next
  case (2 i e t)
  then show ?case using thread_rank_update [OF 2(1) thread_rank_step [OF 2(2)]]
    by (simp add: estimation_rank_def del: map_update)
qed

lemma estimation_inv_start: "estimation_inv ar samples seeds (estimation_start (length seeds))"
  by (auto simp: estimation_inv_def estimation_start_def thread_ok_def)

interpretation estimation_sys: terminating_system "\<lambda>e. e = estimation_start (length seeds)"
  "estimation_step ar samples seeds" "estimation_inv ar samples seeds" "estimation_rank (length seeds) samples"
  for ar samples seeds
  by unfold_locales (auto intro: estimation_inv_start estimation_step_inv estimation_step_rank)

lemma estimation_progress:
  assumes inv: "estimation_inv ar samples seeds e" and stop: "\<And>e'. \<not> estimation_step ar samples seeds e e'"
  shows "\<exists>d. es_main e = Printed d"
proof -
  have none: "main_step ar samples seeds e = None" using stop estimation_step.intros(1) by (metis not_None_eq)
  have idle: "thread_step ar samples (es_threads e ! i) = None" if "i < length (es_threads e)" for i
    using stop estimation_step.intros(2) [OF that] by (metis not_None_eq)
  show ?thesis
  proof (cases "es_main e")
    case (Joining i d)
    then have i: "i < length seeds" using none by (auto simp: main_step_def split: if_splits)
    then have "es_threads e ! i \<noteq> Uncreated" "es_threads e ! i \<noteq> Joined" and len: "length (es_threads e) = length seeds"
      using inv Joining by (auto simp: estimation_inv_def)
    with none i Joining obtain k s where "es_threads e ! i = Sampling k s" by (cases "es_threads e ! i") (auto simp: main_step_def)
    with idle [of i] i len show ?thesis by (cases k) (auto simp: thread_step_def)
  qed (use none in \<open>auto simp: main_step_def\<close>)
qed

text \<open>
  C21: the estimate does not depend on the schedule. Whatever the generator and the arithmetic do,
  every execution ends after a bounded number of steps, and what it then has printed is the
  result of doing the work of the threads one after the other in the order of their creation.
\<close>

theorem estimate_sequential:
  fixes e :: "'d estimation"
  assumes run: "(estimation_step ar samples seeds)\<^sup>*\<^sup>* (estimation_start (length seeds)) e"
  shows "(\<forall>d. es_main e = Printed d \<longrightarrow> d = sequential ar samples seeds) \<and>
    ((\<forall>e'. \<not> estimation_step ar samples seeds e e') \<longrightarrow> es_main e = Printed (sequential ar samples seeds)) \<and>
    (\<forall>k e'. (estimation_step ar samples seeds ^^ k) e e' \<longrightarrow> k \<le> length seeds * (samples + 5) + 2)"
proof -
  have inv: "estimation_inv ar samples seeds e" using estimation_sys.inv_reachable [OF refl run] .
  have printed: "\<forall>d. es_main e = Printed d \<longrightarrow> d = sequential ar samples seeds" using inv by (auto simp: estimation_inv_def)
  have stops: "(\<forall>e'. \<not> estimation_step ar samples seeds e e') \<longrightarrow> es_main e = Printed (sequential ar samples seeds)"
    using estimation_progress [OF inv] printed by metis
  obtain m where m: "(estimation_step ar samples seeds ^^ m) (estimation_start (length seeds)) e"
    using run rtranclp_imp_relpowp by metis
  have rank: "estimation_rank (length seeds) samples (estimation_start (length seeds) :: 'd estimation) = length seeds * (samples + 5) + 2"
    by (simp add: estimation_rank_def estimation_start_def sum_list_replicate algebra_simps)
  have "k \<le> length seeds * (samples + 5) + 2" if "(estimation_step ar samples seeds ^^ k) e e'" for k e'
    using estimation_sys.run_length_bound [OF inv that]
      estimation_sys.run_length_bound [OF estimation_inv_start m] rank by linarith
  with printed stops show ?thesis by blast
qed

theorem estimate_sequential_witness:
  "\<exists>e. (estimation_step \<lparr>rand_r = \<lambda>s. (unat s, s + 1), in_circle = \<lambda>x y. x + y < 3, share = \<lambda>k n. 4 * k div n,
        zero_d = (0 :: nat), plus_d = (+), over = (div)\<rparr> 1 [0, 7])\<^sup>*\<^sup>* (estimation_start 2) e \<and> es_main e = Printed 2"
proof -
  define ar where "ar = \<lparr>rand_r = \<lambda>s :: 32 word. (unat s, s + 1), in_circle = \<lambda>x y. x + y < 3, share = \<lambda>k n. 4 * k div n,
    zero_d = (0 :: nat), plus_d = (+), over = (div)\<rparr>"
  have "\<exists>e. (estimation_step ar 1 [0, 7])\<^sup>*\<^sup>* (estimation_start (length [0, 7 :: 32 word])) e \<and> (\<forall>e'. \<not> estimation_step ar 1 [0, 7] e e')"
    by (rule estimation_sys.reach_final_aux [OF estimation_inv_start])
  then obtain e where e: "(estimation_step ar 1 [0, 7])\<^sup>*\<^sup>* (estimation_start (length [0, 7 :: 32 word])) e"
    "\<forall>e'. \<not> estimation_step ar 1 [0, 7] e e'" by blast
  have "sequential ar 1 [0, 7] = 2"
    by (simp add: sequential_def pi_estimation_def pi_round_def ar_def flip: numeral_2_eq_2)
  moreover from estimate_sequential [OF e(1)] e(2) have "es_main e = Printed (sequential ar 1 [0, 7])" by blast
  moreover have "length [0, 7 :: 32 word] = 2" by simp
  ultimately show ?thesis using e(1) unfolding ar_def [symmetric] by metis
qed

text \<open>With exact arithmetic the result is four times the share of all points inside, so between 0 and
  4.\<close>

definition exact :: "(32 word \<Rightarrow> nat \<times> 32 word) \<Rightarrow> (nat \<Rightarrow> nat \<Rightarrow> bool) \<Rightarrow> real arith" where
  "exact r inside = \<lparr>rand_r = r, in_circle = inside, share = (\<lambda>k n. 4 * real k / real n), zero_d = 0, plus_d = (+), over = (\<lambda>d n. d / real n)\<rparr>"

lemma pi_rounds_inside: "snd (pi_rounds ar k s) \<le> snd s + k"
proof (induction k arbitrary: s)
  case (Suc k)
  have "snd (pi_round ar s) \<le> snd s + 1" by (simp add: pi_round_def split: prod.split)
  with Suc.IH [of "pi_round ar s"] show ?case by simp
qed simp

lemma exact_range:
  assumes "seeds \<noteq> []" "0 < samples"
  shows "0 \<le> sequential (exact r inside) samples seeds \<and> sequential (exact r inside) samples seeds \<le> 4"
proof -
  let ?f = "pi_estimation (exact r inside) samples"
  have f: "0 \<le> ?f sd \<and> ?f sd \<le> 4" for sd
    using pi_rounds_inside [of "exact r inside" samples "(sd, 0)"] assms(2)
    by (auto simp: pi_estimation_def exact_def divide_simps)
  have "foldl (+) a (map ?f seeds) = a + sum_list (map ?f seeds)" for a :: real
    by (induction seeds arbitrary: a) auto
  then have s: "sequential (exact r inside) samples seeds = sum_list (map ?f seeds) / real (length seeds)"
    by (simp add: sequential_def exact_def)
  have "0 \<le> sum_list (map ?f seeds)" "sum_list (map ?f seeds) \<le> 4 * real (length seeds)"
  proof -
    show "0 \<le> sum_list (map ?f seeds)" using f by (intro sum_list_nonneg) auto
    show "sum_list (map ?f seeds) \<le> 4 * real (length seeds)" using f by (induction seeds) (auto simp: algebra_simps add_mono)
  qed
  then show ?thesis using assms(1) by (simp add: s divide_simps)
qed

end
