(* ===== verification/Sockets.thy ===== *)
theory Sockets
  imports Calculator
begin

section \<open>Sockets\<close>

text \<open>
  How servers and clients meet: the functions of \<open>sop2/lab04/sop_net.h\<close> that bind and connect, with
  the variants in \<open>udp_server.c\<close> and \<open>unix_client.c\<close>, over the names that a host knows. A path is its
  string. \<open>bind_tcp_socket\<close>, which the calculator calls, exists nowhere in the repository and is a
  parameter; what \<open>getaddrinfo\<close> finds is one, too.
\<close>

record net =
  n_local :: "string \<Rightarrow> nat option" \<comment> \<open>the socket whose address the path is\<close>
  n_tcp :: "16 word \<Rightarrow> nat option"
  n_udp :: "16 word \<Rightarrow> nat option"
  n_listening :: "nat \<Rightarrow> bool"
  n_fresh :: nat
  n_left :: nat \<comment> \<open>descriptors left\<close>

definition new_socket :: "net \<Rightarrow> (nat \<times> net) or_err" where
  "new_socket n =
     (if n_left n = 0 then ERR ''socket''
      else Inr (n_fresh n, n\<lparr>n_fresh := n_fresh n + 1, n_left := n_left n - 1, n_listening := (n_listening n)(n_fresh n := False)\<rparr>))"

subsection \<open>Local sockets\<close>

text \<open>\<open>strncpy\<close> into the 108 bytes of \<open>sun_path\<close>, the last of which stays zero.\<close>

definition sun_path :: "string \<Rightarrow> string" where
  "sun_path name = take 107 (cstr name)"

definition make_local_socket :: "string \<Rightarrow> net \<Rightarrow> (nat \<times> string \<times> net) or_err" where
  "make_local_socket name n = bind_err (new_socket n) (\<lambda>(fd, n). Inr (fd, sun_path name, n))"

text \<open>\<open>connect\<close> gives the socket that listens; \<open>SUN_LEN\<close> of an empty path is not accepted.\<close>

definition connect_local_socket :: "string \<Rightarrow> net \<Rightarrow> (nat \<times> net) or_err" where
  "connect_local_socket name n =
     bind_err (make_local_socket name n)
       (\<lambda>(fd, path, n).
          case n_local n path of
            Some s \<Rightarrow> if path \<noteq> [] \<and> n_listening n s then Inr (s, n) else ERR ''connect''
          | None \<Rightarrow> ERR ''connect'')"

text \<open>\<open>unlink\<close> gets the name as it is, \<open>bind\<close> the shortened one; it refuses a path that exists and
  gives a socket with an empty path a name of its own.\<close>

definition bind_local_socket :: "bool \<Rightarrow> string \<Rightarrow> net \<Rightarrow> (nat \<times> net) or_err" where
  "bind_local_socket unlink_fails name n =
     (if unlink_fails then ERR ''unlink''
      else
        bind_err (make_local_socket name (n\<lparr>n_local := (n_local n)(cstr name := None)\<rparr>))
          (\<lambda>(fd, path, n).
             if n_local n path \<noteq> None then ERR ''bind''
             else
               (let n' = n\<lparr>n_local := if path = [] then n_local n else (n_local n)(path := Some fd)\<rparr>
                in Inr (fd, n'\<lparr>n_listening := (n_listening n')(fd := True)\<rparr>))))"

subsection \<open>Internet sockets\<close>

datatype sock_type = SOCK_STREAM | SOCK_DGRAM

definition make_socket :: "sock_type \<Rightarrow> net \<Rightarrow> (nat \<times> net) or_err" where
  "make_socket type n = new_socket n"




text \<open>\<open>bind\<close> of any address with \<open>SO_REUSEADDR\<close>: refused for a port on which another stream socket
  listens. Port 0 stands for one that the system chooses.\<close>

definition bind_any :: "16 word \<Rightarrow> nat \<Rightarrow> 16 word \<Rightarrow> sock_type \<Rightarrow> net \<Rightarrow> net or_err" where
  "bind_any ephemeral fd port type n =
     (let p = if port = 0 then ephemeral else port in
      case type of
        SOCK_STREAM \<Rightarrow>
          (if (case n_tcp n p of None \<Rightarrow> False | Some s \<Rightarrow> n_listening n s) then ERR ''bind'' else Inr (n\<lparr>n_tcp := (n_tcp n)(p := Some fd)\<rparr>))
      | SOCK_DGRAM \<Rightarrow> Inr (n\<lparr>n_udp := (n_udp n)(p := Some fd)\<rparr>))"

text \<open>\<open>listen\<close> is not supported by datagram sockets.\<close>

definition listen :: "nat \<Rightarrow> sock_type \<Rightarrow> net \<Rightarrow> net or_err" where
  "listen fd type n =
     (if type = SOCK_STREAM then Inr (n\<lparr>n_listening := (n_listening n)(fd := True)\<rparr>) else ERR ''listen'')"

text \<open>The argument \<open>port\<close> is an \<open>int\<close> at the call and becomes a \<open>uint16_t\<close>.\<close>

definition bind_socket :: "16 word \<Rightarrow> int \<Rightarrow> sock_type \<Rightarrow> net \<Rightarrow> (nat \<times> net) or_err" where
  "bind_socket ephemeral port type n =
     bind_err (make_socket type n)
       (\<lambda>(fd, n). bind_err (bind_any ephemeral fd (word_of_int port) type n)
          (\<lambda>n. bind_err (listen fd type n) (\<lambda>n. Inr (fd, n))))"

text \<open>The one of \<open>udp_server.c\<close>.\<close>

definition bind_inet_socket :: "16 word \<Rightarrow> int \<Rightarrow> sock_type \<Rightarrow> net \<Rightarrow> (nat \<times> net) or_err" where
  "bind_inet_socket ephemeral port type n =
     bind_err (make_socket type n)
       (\<lambda>(fd, n). bind_err (bind_any ephemeral fd (word_of_int port) type n)
          (\<lambda>n. if type = SOCK_STREAM then bind_err (listen fd type n) (\<lambda>n. Inr (fd, n)) else Inr (fd, n)))"

subsection \<open>The programs\<close>


definition tcp_server_end :: "string list \<Rightarrow> nat \<Rightarrow> nat \<Rightarrow> net \<Rightarrow> net or_err" where
  "tcp_server_end argv local_fd tcp_fd n =
     (let n = n\<lparr>n_listening := (n_listening n)(local_fd := False)\<rparr> in
      if n_local n (cstr (argv ! 1)) = None then ERR ''unlink''
      else Inr (n\<lparr>n_local := (n_local n)(cstr (argv ! 1) := None), n_listening := (n_listening n)(tcp_fd := False)\<rparr>))"





subsection \<open>Meeting at a name\<close>

definition net_ok :: "net \<Rightarrow> bool" where
  "net_ok n \<longleftrightarrow> (\<forall>p s. n_local n p = Some s \<longrightarrow> s < n_fresh n) \<and> (\<forall>p s. n_tcp n p = Some s \<longrightarrow> s < n_fresh n)"

lemma new_socket_Inr:
  "new_socket n = Inr (fd, m) \<Longrightarrow> fd = n_fresh n \<and> n_local m = n_local n \<and> n_tcp m = n_tcp n \<and> n_fresh m = n_fresh n + 1 \<and>
     n_listening m = (n_listening n)(fd := False)"
  by (auto simp: new_socket_def split: if_splits)

lemma bind_local_Inr:
  assumes "bind_local_socket u name n = Inr (fd, m)"
  shows "fd = n_fresh n \<and> n_fresh m = n_fresh n + 1 \<and> n_listening m fd \<and> n_tcp m = n_tcp n \<and>
    n_local m = (if sun_path name = [] then (n_local n)(cstr name := None)
                 else (n_local n)(cstr name := None, sun_path name := Some fd))"
  using assms
  by (auto simp: bind_local_socket_def make_local_socket_def bind_err_Inr_iff Let_def dest!: new_socket_Inr split: if_splits)

lemma connect_local_Inr:
  "connect_local_socket name n = Inr (s, m) \<Longrightarrow> n_local n (sun_path name) = Some s"
proof -
  assume c: "connect_local_socket name n = Inr (s, m)"
  then obtain fd k where k: "new_socket n = Inr (fd, k)"
    by (cases "new_socket n") (auto simp: connect_local_socket_def make_local_socket_def)
  then have "n_local k = n_local n" by (simp add: new_socket_Inr)
  then show ?thesis using c k by (auto simp: connect_local_socket_def make_local_socket_def split: option.splits if_splits)
qed

lemma connect_local_ok:
  "n_local n (sun_path name) = Some s \<Longrightarrow> n_listening n s \<Longrightarrow> s < n_fresh n \<Longrightarrow> sun_path name \<noteq> [] \<Longrightarrow> 0 < n_left n \<Longrightarrow>
     \<exists>m. connect_local_socket name n = Inr (s, m)"
  by (auto simp: connect_local_socket_def make_local_socket_def new_socket_def)

lemma sun_path_eq_cstr: "sun_path name = cstr name \<longleftrightarrow> length (cstr name) \<le> 107"
  unfolding sun_path_def by (rule take_all_iff)

text \<open>
  C39: local addresses. After a server has bound a name, a client reaches it exactly with the names that
  agree in the first 107 bytes. A server that has ended can be started again under a name of at most
  107 bytes; with a longer one the path it has bound is never removed: the server fails at its end,
  and the next start fails, too.
\<close>

theorem local_names:
  assumes ok: "net_ok n" and bound: "bind_local_socket False name n = Inr (fd, m)"
    and named: "cstr name \<noteq> []" and left: "0 < n_left m"
  shows "((\<exists>m'. connect_local_socket name' m = Inr (fd, m')) \<longleftrightarrow> sun_path name' = sun_path name) \<and>
    (if length (cstr name) \<le> 107 then \<exists>fd' m'. bind_local_socket False name (m\<lparr>n_listening := l\<rparr>) = Inr (fd', m')
     else bind_local_socket False name (m\<lparr>n_listening := l\<rparr>) = ERR ''bind'' \<and> tcp_server_end [prog, name, port] fd tcp_fd m = ERR ''unlink'')"
proof -
  have path: "sun_path name \<noteq> []" using named by (simp add: sun_path_def)
  note b = bind_local_Inr [OF bound]
  have here: "n_local m (sun_path name) = Some fd" using b path by simp
  have only: "p = sun_path name" if "n_local m p = Some fd" for p
    using that b path ok by (auto simp: net_ok_def split: if_splits)
  have "(\<exists>m'. connect_local_socket name' m = Inr (fd, m')) \<longleftrightarrow> sun_path name' = sun_path name"
  proof
    assume "\<exists>m'. connect_local_socket name' m = Inr (fd, m')"
    then show "sun_path name' = sun_path name" using connect_local_Inr only by blast
  next
    assume eq: "sun_path name' = sun_path name"
    show "\<exists>m'. connect_local_socket name' m = Inr (fd, m')"
      by (rule connect_local_ok) (use eq here path b left in auto)
  qed
  moreover have "\<exists>fd' m'. bind_local_socket False name (m\<lparr>n_listening := l\<rparr>) = Inr (fd', m')" if "length (cstr name) \<le> 107"
    using that left sun_path_eq_cstr [of name]
    by (simp add: bind_local_socket_def make_local_socket_def new_socket_def Let_def)
  moreover have "bind_local_socket False name (m\<lparr>n_listening := l\<rparr>) = ERR ''bind''" if "\<not> length (cstr name) \<le> 107"
    using that left here sun_path_eq_cstr [of name]
    by (simp add: bind_local_socket_def make_local_socket_def new_socket_def)
  moreover have "tcp_server_end [prog, name, port] fd tcp_fd m = ERR ''unlink''" if "\<not> length (cstr name) \<le> 107"
    using that b path sun_path_eq_cstr [of name] by (simp add: tcp_server_end_def Let_def)
  ultimately show ?thesis by auto
qed

definition empty_net :: net where
  "empty_net = \<lparr>n_local = \<lambda>_. None, n_tcp = \<lambda>_. None, n_udp = \<lambda>_. None, n_listening = \<lambda>_. False, n_fresh = 3, n_left = 10\<rparr>"

theorem local_names_witness:
  "\<exists>fd m. bind_local_socket False (replicate 108 CHR ''a'') empty_net = Inr (fd, m) \<and>
     (\<exists>m'. connect_local_socket (replicate 107 CHR ''a'') m = Inr (fd, m')) \<and>
     bind_local_socket False (replicate 108 CHR ''a'') m = ERR ''bind''"
proof -
  have c: "cstr (replicate k CHR ''a'') = replicate k CHR ''a''" for k by (intro cstr_id) simp
  have s: "sun_path (replicate 107 CHR ''a'') = replicate 107 CHR ''a''" "sun_path (replicate 108 CHR ''a'') = replicate 107 CHR ''a''"
    by (simp_all only: sun_path_def c take_replicate) simp_all
  have "\<exists>fd m. bind_local_socket False (replicate 108 CHR ''a'') empty_net = Inr (fd, m) \<and> 0 < n_left m"
    by (simp add: bind_local_socket_def make_local_socket_def new_socket_def empty_net_def Let_def)
  then obtain fd m where b: "bind_local_socket False (replicate 108 CHR ''a'') empty_net = Inr (fd, m)" "0 < n_left m" by blast
  have "net_ok empty_net" by (simp add: net_ok_def empty_net_def)
  moreover have "cstr (replicate 108 CHR ''a'') \<noteq> []" unfolding c by simp
  moreover have "m\<lparr>n_listening := n_listening m\<rparr> = m" by simp
  ultimately show ?thesis
    using local_names [of empty_net "replicate 108 CHR ''a''" fd m "replicate 107 CHR ''a''" "n_listening m"] b
    unfolding s c length_replicate by auto
qed

subsection \<open>Two ways to the same server\<close>

text \<open>A port is what is left of the number in 16 bits: 65616 is port 80.\<close>

lemma port_wraps: "(word_of_int (k + 65536) :: 16 word) = word_of_int k"
  by (simp add: word_of_int_eq_iff take_bit_eq_mod)


text \<open>A datagram socket cannot be made with the function of \<open>sop_net.h\<close>.\<close>

lemma bind_socket_datagram: "0 < n_left n \<Longrightarrow> bind_socket e k SOCK_DGRAM n = ERR ''listen''"
  by (simp add: bind_socket_def make_socket_def new_socket_def bind_any_def listen_def Let_def)

lemma bind_inet_socket_stream: "bind_inet_socket e k SOCK_STREAM n = bind_socket e k SOCK_STREAM n"
  by (simp add: bind_inet_socket_def bind_socket_def)





end
