(* ===== verification/Delays.thy ===== *)
theory Delays
  imports SopIO "HOL-Library.Word" "HOL-Library.Signed_Division"
begin

section \<open>Delays\<close>

text \<open>
  The two ways in which the programs sleep: \<open>msleep\<close>, of which nine programs have a copy (here the
  one of \<open>sop1/lab03/prelab/prelab.c\<close>, with an unsigned argument, and that of
  \<open>sop2/lab02/zad02/zad02.c\<close>, with a signed one), and \<open>sleep_exact\<close> of
  \<open>sop1/lab02/prelab/workshop/src/sop-l2.c\<close>. Both are written over an arbitrary \<open>nanosleep\<close>; the
  locale \<open>sleeper\<close> states what nanosleep(2) promises, and in it no signal makes a delay shorter.
  The other components do not measure time and leave the delays out.
\<close>

subsection \<open>The system call\<close>

record timespec =
  tv_sec :: int
  tv_nsec :: int

definition nanos :: "timespec \<Rightarrow> int" where
  "nanos t = tv_sec t * 1000000000 + tv_nsec t"

definition valid_time :: "timespec \<Rightarrow> bool" where
  "valid_time t \<longleftrightarrow> 0 \<le> tv_sec t \<and> 0 \<le> tv_nsec t \<and> tv_nsec t < 1000000000"

definition EINVAL :: int where "EINVAL = 22"

text \<open>What a call does: 0; \<open>-1\<close> with \<open>EINTR\<close> and the time that remains; \<open>-1\<close> with another \<open>errno\<close>.\<close>

datatype nap = Slept | Interrupted timespec | Refused int

subsection \<open>The two delays\<close>

text \<open>\<open>nanosleep (&req, &req)\<close>: the remaining time is written over the time asked for.\<close>

definition nap_call ::
  "('k \<Rightarrow> timespec \<Rightarrow> 'k \<times> nap) \<Rightarrow> 'k \<times> timespec \<Rightarrow> ('k \<times> timespec) \<times> unit sysres" where
  "nap_call nanosleep s =
     (case s of (k, req) \<Rightarrow>
        case nanosleep k req of
          (k', Slept) \<Rightarrow> ((k', req), SysOk ())
        | (k', Interrupted left) \<Rightarrow> ((k', left), SysErr EINTR)
        | (k', Refused e) \<Rightarrow> ((k', req), SysErr e))"

definition nap_or_err ::
  "('k \<Rightarrow> timespec \<Rightarrow> 'k \<times> nap) \<Rightarrow> timespec \<Rightarrow> 'k \<Rightarrow> 'k or_err option" where
  "nap_or_err nanosleep req k =
     (case temp_failure_retry (nap_call nanosleep) (k, req) of
        None \<Rightarrow> None
      | Some (s, SysOk u) \<Rightarrow> Some (Inr (fst s))
      | Some (s, SysErr e) \<Rightarrow> Some (ERR ''nanosleep''))"

text \<open>\<open>msleep (unsigned msec)\<close>: the quotient is cast to \<open>int\<close> and widened to \<open>time_t\<close>; the difference,
  computed in 64 bits, is stored back in the 32 bits of \<open>msec\<close>.\<close>

definition msleep_unsigned ::
  "('k \<Rightarrow> timespec \<Rightarrow> 'k \<times> nap) \<Rightarrow> 32 word \<Rightarrow> 'k \<Rightarrow> 'k or_err option" where
  "msleep_unsigned nanosleep msec k =
     (let sec = sint (msec div 1000);
          msec = word_of_int (uint msec - sec * 1000) :: 32 word
      in nap_or_err nanosleep \<lparr>tv_sec = sec, tv_nsec = uint msec * 1000000\<rparr> k)"

text \<open>\<open>msleep (int msec)\<close>: the division truncates.\<close>

definition msleep ::
  "('k \<Rightarrow> timespec \<Rightarrow> 'k \<times> nap) \<Rightarrow> 32 word \<Rightarrow> 'k \<Rightarrow> 'k or_err option" where
  "msleep nanosleep msec k =
     (let sec = sint msec sdiv 1000;
          msec = word_of_int (sint msec - sec * 1000) :: 32 word
      in nap_or_err nanosleep \<lparr>tv_sec = sec, tv_nsec = sint msec * 1000000\<rparr> k)"

text \<open>\<open>sleep_exact\<close> tests only for \<open>-1\<close>; after any \<open>errno\<close> but \<open>EINTR\<close> it asks for the same time
  again.\<close>

partial_function (option) sleep_exact_loop ::
  "('k \<Rightarrow> timespec \<Rightarrow> 'k \<times> nap) \<Rightarrow> timespec \<Rightarrow> 'k \<Rightarrow> 'k option" where
  "sleep_exact_loop nanosleep t k =
     (case nanosleep k t of
        (k', Slept) \<Rightarrow> Some k'
      | (k', Interrupted remaining) \<Rightarrow> sleep_exact_loop nanosleep remaining k'
      | (k', Refused e) \<Rightarrow> sleep_exact_loop nanosleep t k')"

definition sleep_exact :: "('k \<Rightarrow> timespec \<Rightarrow> 'k \<times> nap) \<Rightarrow> int \<Rightarrow> 'k \<Rightarrow> 'k option" where
  "sleep_exact nanosleep ms k =
     sleep_exact_loop nanosleep \<lparr>tv_sec = 0, tv_nsec = ms * 1000 * 1000\<rparr> k"

subsection \<open>The promise of the call\<close>

text \<open>A valid time is slept at least; an interrupted call has slept at least what it does not report
  as remaining, and the signals to come are finitely many; an invalid time is refused.\<close>

locale sleeper =
  fixes nanosleep :: "'k \<Rightarrow> timespec \<Rightarrow> 'k \<times> nap"
    and clock :: "'k \<Rightarrow> int"
    and signals :: "'k \<Rightarrow> nat"
  assumes slept: "valid_time t \<Longrightarrow> nanosleep k t = (k', Slept) \<Longrightarrow> clock k + nanos t \<le> clock k'"
    and interrupted: "valid_time t \<Longrightarrow> nanosleep k t = (k', Interrupted left) \<Longrightarrow>
      valid_time left \<and> clock k + nanos t \<le> clock k' + nanos left \<and> signals k' < signals k"
    and not_refused: "valid_time t \<Longrightarrow> nanosleep k t \<noteq> (k', Refused e)"
    and refused: "\<not> valid_time t \<Longrightarrow> nanosleep k t = (k, Refused EINVAL)"
begin

lemma nap_whole:
  "valid_time t \<Longrightarrow> \<exists>k'. nap_or_err nanosleep t k = Some (Inr k') \<and> clock k + nanos t \<le> clock k'"
proof (induction "signals k" arbitrary: k t rule: less_induct)
  case less
  obtain k' r where call: "nanosleep k t = (k', r)" by (cases "nanosleep k t")
  show ?case
  proof (cases r)
    case Slept
    then show ?thesis
      using call slept less.prems by (subst nap_or_err_def) (simp add: temp_failure_retry.simps nap_call_def)
  next
    case (Interrupted left)
    with call less.prems have i: "valid_time left" "clock k + nanos t \<le> clock k' + nanos left" "signals k' < signals k"
      using interrupted by blast+
    have "nap_or_err nanosleep t k = nap_or_err nanosleep left k'"
      using call Interrupted by (simp add: nap_or_err_def temp_failure_retry.simps [of _ "(k, t)"] nap_call_def)
    moreover obtain k'' where "nap_or_err nanosleep left k' = Some (Inr k'')" "clock k' + nanos left \<le> clock k''"
      using less.hyps [OF i(3,1)] by blast
    ultimately show ?thesis using i(2) by (metis order_trans)
  next
    case (Refused e)
    then show ?thesis using call not_refused less.prems by blast
  qed
qed

lemma nap_refused: "\<not> valid_time t \<Longrightarrow> nap_or_err nanosleep t k = Some (ERR ''nanosleep'')"
  by (simp add: nap_or_err_def temp_failure_retry.simps nap_call_def refused EINVAL_def EINTR_def)

lemma exact_whole:
  "valid_time t \<Longrightarrow> \<exists>k'. sleep_exact_loop nanosleep t k = Some k' \<and> clock k + nanos t \<le> clock k'"
proof (induction "signals k" arbitrary: k t rule: less_induct)
  case less
  obtain k' r where call: "nanosleep k t = (k', r)" by (cases "nanosleep k t")
  show ?case
  proof (cases r)
    case Slept
    then show ?thesis using call slept less.prems by (simp add: sleep_exact_loop.simps)
  next
    case (Interrupted left)
    with call less.prems have i: "valid_time left" "clock k + nanos t \<le> clock k' + nanos left" "signals k' < signals k"
      using interrupted by blast+
    have "sleep_exact_loop nanosleep t k = sleep_exact_loop nanosleep left k'"
      using call Interrupted by (simp add: sleep_exact_loop.simps [of _ t])
    moreover obtain k'' where "sleep_exact_loop nanosleep left k' = Some k''" "clock k' + nanos left \<le> clock k''"
      using less.hyps [OF i(3,1)] by blast
    ultimately show ?thesis using i(2) by (metis order_trans)
  next
    case (Refused e)
    then show ?thesis using call not_refused less.prems by blast
  qed
qed

lemma exact_stuck_step:
  "sleep_exact_loop nap t k = Some y \<Longrightarrow> nap = nanosleep \<Longrightarrow> valid_time t"
proof (induction rule: sleep_exact_loop.raw_induct [rotated, consumes 1, case_names 1])
  case (1 loop nap t k y)
  show ?case
  proof (rule ccontr)
    assume "\<not> valid_time t"
    with "1.hyps" "1.prems" have "loop nap t k = Some y" by (simp add: refused)
    with "1.IH" "1.prems" \<open>\<not> valid_time t\<close> show False by blast
  qed
qed

lemma exact_stuck: "\<not> valid_time t \<Longrightarrow> sleep_exact_loop nanosleep t k = None"
  using exact_stuck_step [of nanosleep t k] by (cases "sleep_exact_loop nanosleep t k") auto

end

subsection \<open>A kernel with a clock\<close>

text \<open>The kernel on the other side: a clock in nanoseconds and a script that says for each call how
  long after its beginning the next signal comes; a signal that comes too late is not noticed.\<close>

record nap_kernel =
  nk_clock :: int
  nk_script :: "nat list"

definition time_of :: "int \<Rightarrow> timespec" where
  "time_of n = \<lparr>tv_sec = n div 1000000000, tv_nsec = n mod 1000000000\<rparr>"

lemma time_of: "nanos (time_of n) = n" "0 \<le> n \<Longrightarrow> valid_time (time_of n)"
  by (simp_all add: nanos_def time_of_def valid_time_def pos_imp_zdiv_nonneg_iff)

fun scripted_nanosleep :: "nap_kernel \<Rightarrow> timespec \<Rightarrow> nap_kernel \<times> nap" where
  "scripted_nanosleep k t =
     (if \<not> valid_time t then (k, Refused EINVAL)
      else case nk_script k of
        [] \<Rightarrow> (k\<lparr>nk_clock := nk_clock k + nanos t\<rparr>, Slept)
      | d # ds \<Rightarrow>
          if int d < nanos t
          then (k\<lparr>nk_clock := nk_clock k + int d, nk_script := ds\<rparr>, Interrupted (time_of (nanos t - int d)))
          else (k\<lparr>nk_clock := nk_clock k + nanos t, nk_script := ds\<rparr>, Slept))"

interpretation sk: sleeper scripted_nanosleep nk_clock "length \<circ> nk_script"
  by unfold_locales (auto simp: time_of split: list.splits if_splits)

subsection \<open>No signal shortens a delay\<close>

lemma unsigned_request:
  "sint (msec div 1000) = uint msec div 1000 \<and>
   uint (word_of_int (uint msec - uint msec div 1000 * 1000) :: 32 word) = uint msec mod 1000"
  for msec :: "32 word"
proof -
  have r: "0 \<le> uint msec" "uint msec < 4294967296" using uint_lt2p [of msec] by simp_all
  have "msec div 1000 = word_of_int (uint msec div 1000)" by (simp add: word_div_def)
  moreover have "sint (word_of_int (uint msec div 1000) :: 32 word) = uint msec div 1000"
  proof (rule sint_fits)
    show "- (2 ^ 31) \<le> uint msec div 1000" by (rule order_trans [of _ 0]) (simp_all add: pos_imp_zdiv_nonneg_iff)
    show "uint msec div 1000 < 2 ^ 31" using r by simp
  qed
  moreover have "uint msec - uint msec div 1000 * 1000 = uint msec mod 1000" by (simp add: minus_div_mult_eq_mod)
  ultimately show ?thesis using r by (simp add: uint_word_of_int zmod_trivial_iff)
qed

lemma signed_request:
  assumes "0 \<le> sint msec"
  shows "sint msec sdiv 1000 = sint msec div 1000 \<and>
   sint (word_of_int (sint msec - sint msec div 1000 * 1000) :: 32 word) = sint msec mod 1000"
proof -
  have "sint (word_of_int (sint msec mod 1000) :: 32 word) = sint msec mod 1000"
    using pos_mod_bound [of 1000 "sint msec"] pos_mod_sign [of 1000 "sint msec"] by (intro sint_fits) simp_all
  moreover have "a sdiv 1000 = a div 1000" if "0 \<le> a" for a :: int
    using that by (cases "a = 0") (simp_all add: signed_divide_int_def)
  ultimately show ?thesis using assms by (simp only: minus_div_mult_eq_mod)
qed

lemma negative_request:
  assumes "sint (msec :: 32 word) < 0"
  shows "sint msec sdiv 1000 < 0 \<or> sint (word_of_int (sint msec - sint msec sdiv 1000 * 1000) :: 32 word) < 0"
proof (cases "sint msec > -1000")
  case True
  with assms have "sint msec sdiv 1000 = 0" by (simp add: signed_divide_int_def)
  with assms show ?thesis by simp
next
  case False
  then have "- sint msec div 1000 \<ge> 1" by simp
  then show ?thesis using assms by (simp add: signed_divide_int_def)
qed

text \<open>
  Whenever and however often signals arrive: \<open>msleep\<close> with an unsigned argument returns and has
  slept the time asked for; with a signed argument, too, if it is not negative, and otherwise ends
  the program by \<open>ERR\<close>; \<open>sleep_exact\<close> sleeps the time asked for if that is less than a second, and
  does not return otherwise.
\<close>

lemma delays_whole:
  "(\<exists>k'. msleep_unsigned scripted_nanosleep msec k = Some (Inr k') \<and> nk_clock k + uint msec * 1000000 \<le> nk_clock k')"
  "if 0 \<le> sint msec
   then \<exists>k'. msleep scripted_nanosleep msec k = Some (Inr k') \<and> nk_clock k + sint msec * 1000000 \<le> nk_clock k'
   else msleep scripted_nanosleep msec k = Some (ERR ''nanosleep'')"
  "if 0 \<le> ms \<and> ms < 1000
   then \<exists>k'. sleep_exact scripted_nanosleep ms k = Some k' \<and> nk_clock k + ms * 1000000 \<le> nk_clock k'
   else sleep_exact scripted_nanosleep ms k = None"
proof -
  have n: "nanos \<lparr>tv_sec = x div 1000, tv_nsec = x mod 1000 * 1000000\<rparr> = x * 1000000" for x
    using div_mult_mod_eq [of x 1000] by (simp only: nanos_def timespec.simps)
  have v: "valid_time \<lparr>tv_sec = x div 1000, tv_nsec = x mod 1000 * 1000000\<rparr>" if "0 \<le> x" for x
    using that by (simp add: valid_time_def pos_imp_zdiv_nonneg_iff)
  show "\<exists>k'. msleep_unsigned scripted_nanosleep msec k = Some (Inr k') \<and> nk_clock k + uint msec * 1000000 \<le> nk_clock k'"
    using sk.nap_whole [OF v [of "uint msec"], of k] unsigned_request [of msec]
    by (simp add: msleep_unsigned_def n)
  show "if 0 \<le> sint msec
    then \<exists>k'. msleep scripted_nanosleep msec k = Some (Inr k') \<and> nk_clock k + sint msec * 1000000 \<le> nk_clock k'
    else msleep scripted_nanosleep msec k = Some (ERR ''nanosleep'')"
  proof (cases "0 \<le> sint msec")
    case True
    then show ?thesis using sk.nap_whole [OF v [OF True], of k] signed_request [OF True] by (simp add: msleep_def n)
  next
    case False
    then show ?thesis using negative_request [of msec]
      by (auto simp: msleep_def Let_def valid_time_def intro!: sk.nap_refused)
  qed
  show "if 0 \<le> ms \<and> ms < 1000
    then \<exists>k'. sleep_exact scripted_nanosleep ms k = Some k' \<and> nk_clock k + ms * 1000000 \<le> nk_clock k'
    else sleep_exact scripted_nanosleep ms k = None"
    using sk.exact_whole [of "\<lparr>tv_sec = 0, tv_nsec = ms * 1000 * 1000\<rparr>" k]
      sk.exact_stuck [of "\<lparr>tv_sec = 0, tv_nsec = ms * 1000 * 1000\<rparr>" k]
    by (auto simp: sleep_exact_def valid_time_def nanos_def mult.assoc)
qed

end
