(* ===== verification/Arguments.thy ===== *)
theory Arguments
  imports DirList CardRing CardThreads FileSplit
begin

section \<open>Arguments of the programs\<close>

text \<open>
  What the \<open>main\<close> functions accept on the command line before they start the work that the other
  theories model, and the parameters they start it with: \<open>None\<close> stands for \<open>usage\<close> or a failing
  exit. The lemmas say that the accepted numbers are those for which the components are described,
  and where the check lets others through. \<open>argv\<close> is the list of all arguments with the name of
  the program in front, so that its length is \<open>argc\<close>; the results of \<open>atoi\<close> are 32-bit integers.
\<close>

subsection \<open>Numbers of players and children\<close>

definition atoi32 :: "string \<Rightarrow> 32 word" where
  "atoi32 str = word_of_int (atoi str)"

text \<open>\<open>sop2/lab01/zad05/zad05.c\<close>: the product is computed in 32 bits.\<close>

definition ring_arguments :: "string list \<Rightarrow> (32 word \<times> 32 word) option" where
  "ring_arguments argv =
     (if length argv < 3 then None
      else let n = atoi32 (argv ! 1) in
        if n <s 4 \<or> 7 <s n then None
        else let m = atoi32 (argv ! 2) in
          if m <s 4 \<or> 52 <s m * n then None
          else Some (n, m))"

text \<open>\<open>sop1/lab04/zad2/sop-mss.c\<close>.\<close>

definition table_arguments :: "string list \<Rightarrow> 32 word option" where
  "table_arguments argv =
     (if length argv \<noteq> 2 then None
      else let n = atoi32 (argv ! 1) in
        if n <s 4 \<or> 7 <s n then None else Some n)"

text \<open>\<open>sop2/lab02/mq_test1/bingo.c\<close>.\<close>

definition bingo_arguments :: "string list \<Rightarrow> 32 word option" where
  "bingo_arguments argv =
     (if length argv \<noteq> 2 then None
      else let n = atoi32 (argv ! 1) in
        if n <=s 0 \<or> 100 <=s n then None else Some n)"

text \<open>\<open>sop2/lab03/mmap_children/mmap_children.c\<close>.\<close>

definition log_arguments :: "string list \<Rightarrow> 32 word option" where
  "log_arguments argv =
     (if length argv \<noteq> 2 then None
      else let n = atoi32 (argv ! 1) in
        if n <=s 0 \<or> 30 <s n then None else Some n)"

text \<open>\<open>sop1/lab02/prelab/workshop/src/sop-l2.c\<close>: the file and the number of children.\<close>

definition workshop_arguments :: "string list \<Rightarrow> (string \<times> 32 word) option" where
  "workshop_arguments argv =
     (if length argv \<noteq> 3 then None
      else let filename = argv ! 1; n = atoi32 (argv ! 2) in
        if n <=s 0 \<or> 10 <=s n then None else Some (filename, n))"

text \<open>\<open>sop1/lab02/tutorial/example2/sop-signals.c\<close> and \<open>sop1/lab02/prelab/task2023/src/sop-kg.c\<close>:
  four positive numbers.\<close>

definition four_positive :: "string list \<Rightarrow> (32 word \<times> 32 word \<times> 32 word \<times> 32 word) option" where
  "four_positive argv =
     (if length argv \<noteq> 5 then None
      else let a = atoi32 (argv ! 1); b = atoi32 (argv ! 2); c = atoi32 (argv ! 3); d = atoi32 (argv ! 4) in
        if a <=s 0 \<or> b <=s 0 \<or> c <=s 0 \<or> d <=s 0 then None else Some (a, b, c, d))"

subsection \<open>The options of the first listing program\<close>

text \<open>\<open>main\<close> of \<open>sop1/lab01/tutorial/example01/sop-list.c\<close> on what \<open>getopt\<close> returns: an option with
  its argument, or \<open>'?'\<close>. The array \<open>dirs\<close> has \<open>LIST_MAX_N\<close> places and no check: \<open>Overrun\<close> is a write
  behind its end.\<close>

datatype list_opt = Dir_opt string | Out_opt string | Wrong_opt

datatype 'a start = Usage | Overrun | Start 'a

definition LIST_MAX_N :: nat where "LIST_MAX_N = 256"

fun read_dirs :: "list_opt list \<Rightarrow> string list \<Rightarrow> string option \<Rightarrow> (string list \<times> string option) start" where
  "read_dirs [] dirs outfile = Start (dirs, outfile)"
| "read_dirs (Dir_opt optarg # cs) dirs outfile =
     (if length dirs < LIST_MAX_N then read_dirs cs (dirs @ [optarg]) outfile else Overrun)"
| "read_dirs (Out_opt optarg # cs) dirs outfile = read_dirs cs dirs (Some optarg)"
| "read_dirs (Wrong_opt # cs) dirs outfile = Usage"

definition list1_main ::
  "(string list \<Rightarrow> entry option) \<Rightarrow> string list \<Rightarrow> list_opt list \<Rightarrow> (string option \<times> out) start" where
  "list1_main fs cwd cs =
     (case read_dirs cs [] None of
        Usage \<Rightarrow> Usage
      | Overrun \<Rightarrow> Overrun
      | Start (dirs, outfile) \<Rightarrow>
          (let dirs = if dirs = [] then [''.''] else dirs in Start (outfile, list1 fs cwd dirs)))"

definition dir_args :: "list_opt list \<Rightarrow> string list" where
  "dir_args cs = concat (map (\<lambda>c. case c of Dir_opt d \<Rightarrow> [d] | _ \<Rightarrow> []) cs)"

definition out_args :: "list_opt list \<Rightarrow> string list" where
  "out_args cs = concat (map (\<lambda>c. case c of Out_opt f \<Rightarrow> [f] | _ \<Rightarrow> []) cs)"

lemma read_dirs:
  "Wrong_opt \<notin> set cs \<Longrightarrow> length dirs \<le> LIST_MAX_N \<Longrightarrow>
   read_dirs cs dirs outfile =
     (if length dirs + length (dir_args cs) \<le> LIST_MAX_N
      then Start (dirs @ dir_args cs, if out_args cs = [] then outfile else Some (last (out_args cs)))
      else Overrun)"
  by (induction cs dirs outfile rule: read_dirs.induct) (auto simp: dir_args_def out_args_def)

text \<open>Without a wrong option the program lists the arguments of \<open>-p\<close> in their order, and the
  current directory when there is none, into the file of the last \<open>-o\<close>; from the 257th \<open>-p\<close> on it
  writes behind the array.\<close>

lemma list1_main_lists:
  assumes "Wrong_opt \<notin> set cs"
  shows "list1_main fs cwd cs =
    (if length (dir_args cs) \<le> 256
     then Start (if out_args cs = [] then None else Some (last (out_args cs)),
                 list1 fs cwd (if dir_args cs = [] then [''.''] else dir_args cs))
     else Overrun)"
  using read_dirs [OF assms, of "[]" None] by (auto simp: list1_main_def LIST_MAX_N_def)

subsection \<open>What is let through\<close>

lemma sless_numbers: "x <s y \<longleftrightarrow> sint x < sint y" "x <=s y \<longleftrightarrow> sint x \<le> sint y"
  by (simp_all add: word_sless_alt word_sle_eq)

lemma unat_nonneg:
  assumes "0 \<le> sint (n :: 32 word)"
  shows "unat n = nat (sint n)"
proof -
  have "sint n < 2 ^ 31" using sint_lt [of n] by simp
  with assms have "sint n mod 2 ^ 32 = sint n" by simp
  moreover have "uint (word_of_int (sint n) :: 32 word) = sint n mod 2 ^ 32" by (subst uint_word_of_int) simp
  moreover have "word_of_int (sint n) = n" by simp
  ultimately have "uint n = sint n" by metis
  then show ?thesis by (simp add: unat_eq_nat_uint)
qed

text \<open>
  The card game on a ring: between 4 and 7 players with at least 4 cards. As long as the product
  does not leave 32 bits the cards are in the deck, so that a game is one of those \<open>CardRing\<close> is
  about: from its start all cards stay in play. But 4 players with \<open>2 ^ 30\<close> cards each are let
  through, too.
\<close>

lemma ring_arguments_range:
  assumes "ring_arguments argv = Some (n, m)"
  shows "4 \<le> sint n \<and> sint n \<le> 7 \<and> 4 \<le> sint m \<and> (sint m < 2 ^ 28 \<longrightarrow> unat n * unat m \<le> DECK_SZ)"
proof -
  have r: "4 \<le> sint n" "sint n \<le> 7" "4 \<le> sint m" "sint (m * n) \<le> 52"
    using assms by (auto simp: ring_arguments_def Let_def sless_numbers not_less split: if_splits)
  have "unat n * unat m \<le> DECK_SZ" if "sint m < 2 ^ 28"
  proof -
    have le: "sint m * sint n \<le> sint m * 7" using r by (intro mult_left_mono) simp_all
    have "0 \<le> sint m * sint n" using r by simp
    then have "- (2 ^ 31) \<le> sint m * sint n" "sint m * sint n < 2 ^ 31" using le that by simp_all
    then have "sint (word_of_int (sint m * sint n) :: 32 word) = sint m * sint n" by (rule sint_fits)
    then have "sint m * sint n \<le> 52" using r(4) by simp
    then have "nat (sint m * sint n) \<le> 52" by simp
    then show ?thesis using r by (simp add: unat_nonneg nat_mult_distrib mult.commute DECK_SZ_def)
  qed
  with r show ?thesis by blast
qed

lemma ring_main_conserves:
  assumes "ring_arguments argv = Some (n, m)" and "sint m < 2 ^ 28"
    and "ring_step\<^sup>*\<^sup>* (ring_start (unat n) (unat m) (CardRing.shuffle rs new_deck)) g"
  shows "in_play g = mset (take (unat n * unat m) (CardRing.shuffle rs new_deck))"
proof -
  have "0 < unat m" "unat n * unat m \<le> DECK_SZ"
    using ring_arguments_range [OF assms(1)] assms(2) unat_nonneg [of m] by auto
  from ring_reach [OF this assms(3)] show ?thesis by (simp add: ring_inv_def)
qed

lemma ring_arguments_wrap:
  "ring_arguments [''zad05'', ''4'', ''1073741824''] = Some (4, 1073741824)"
  by code_simp

text \<open>The other programs.\<close>

lemma arguments_range:
  "table_arguments argv = Some n \<Longrightarrow> 4 \<le> sint n \<and> sint n \<le> 7 \<and> unat n * HAND_SIZE \<le> DECK_SIZE"
  "bingo_arguments argv = Some n \<Longrightarrow> 0 < sint n \<and> sint n < 100"
  "log_arguments argv = Some n \<Longrightarrow> 0 < sint n \<and> sint n \<le> 30"
  "workshop_arguments argv = Some (file_name, n) \<Longrightarrow> 0 < unat n \<and> unat n < 10"
  "four_positive argv = Some (a, b, c, d) \<Longrightarrow> 0 < sint a \<and> 0 < sint b \<and> 0 < sint c \<and> 0 < sint d"
proof -
  show "4 \<le> sint n \<and> sint n \<le> 7 \<and> unat n * HAND_SIZE \<le> DECK_SIZE" if "table_arguments argv = Some n"
  proof -
    have r: "4 \<le> sint n" "sint n \<le> 7"
      using that by (auto simp: table_arguments_def Let_def sless_numbers not_less split: if_splits)
    with unat_nonneg [of n] have "unat n \<le> 7" by simp
    with r show ?thesis by (simp add: HAND_SIZE_def DECK_SIZE_def)
  qed
  show "0 < sint n \<and> sint n < 100" if "bingo_arguments argv = Some n"
    using that by (auto simp: bingo_arguments_def Let_def sless_numbers not_le split: if_splits)
  show "0 < sint n \<and> sint n \<le> 30" if "log_arguments argv = Some n"
    using that by (auto simp: log_arguments_def Let_def sless_numbers not_le not_less split: if_splits)
  show "0 < unat n \<and> unat n < 10" if "workshop_arguments argv = Some (file_name, n)"
  proof -
    have "0 < sint n" "sint n < 10"
      using that by (auto simp: workshop_arguments_def Let_def sless_numbers not_le split: if_splits)
    with unat_nonneg [of n] show ?thesis by simp
  qed
  show "0 < sint a \<and> 0 < sint b \<and> 0 < sint c \<and> 0 < sint d" if "four_positive argv = Some (a, b, c, d)"
    using that by (auto simp: four_positive_def Let_def sless_numbers not_le split: if_splits)
qed

end
