(* ===== verification/PhoneNames.thy ===== *)
theory PhoneNames
  imports Telephone
begin

section \<open>How the telephone players find their queues\<close>

text \<open>
  The whole life of the processes of \<open>sop2/lab02/zad03/zad03.c\<close>. \<open>Telephone\<close> describes the game of
  players that have their queues; here they open them by name, and remove the names, while the
  others may be playing already. A name can stand for several queues one after the other: opening
  a name that has been removed makes a new queue, and who holds the old one keeps it.
\<close>

subsection \<open>Names\<close>

text \<open>A process between its two calls of \<open>open_mq\<close> (with the queue it receives from), playing with
  the queues it receives from and sends to, and gone. \<open>Playing r w Gone\<close> stands in front of
  \<open>mq_unlink\<close>, as does \<open>Calling r w Ended\<close> for \<open>main\<close>.\<close>

datatype player = Joining | Half nat | Playing nat nat kid | Left

datatype host = Entering | Ready nat | Calling nat nat caller | Out

text \<open>Name \<open>k\<close> is the one \<open>main\<close> (for 0) or player \<open>k - 1\<close> sends to and player \<open>k\<close>, or \<open>main\<close> as the last
  one, receives from. Its queues are listed from the oldest on; it stands for the last one while
  it is linked.\<close>

record hall =
  h_p :: int
  h_words :: "string list"
  h_players :: "player list"
  h_queues :: "string list list list"
  h_linked :: "bool list"
  h_host :: host
  h_received :: "string list"
  h_final :: string
  h_killed :: bool \<comment> \<open>by \<open>ERR\<close>\<close>



definition mq_unlink :: "nat \<Rightarrow> hall \<Rightarrow> hall" where
  "mq_unlink k s = (if h_linked s ! k then s\<lparr>h_linked := (h_linked s)[k := False]\<rparr> else s\<lparr>h_killed := True\<rparr>)"

definition set_queue :: "nat \<Rightarrow> nat \<Rightarrow> string list \<Rightarrow> hall \<Rightarrow> hall" where
  "set_queue k j q s = s\<lparr>h_queues := (h_queues s)[k := (h_queues s ! k)[j := q]]\<rparr>"


definition seat :: "nat \<Rightarrow> player \<Rightarrow> hall \<Rightarrow> hall" where
  "seat i c s = s\<lparr>h_players := (h_players s)[i := c]\<rparr>"

subsection \<open>The processes\<close>




subsection \<open>The game that is played\<close>












subsection \<open>The invariant\<close>




















subsection \<open>Every step keeps it\<close>




































subsection \<open>The whole run\<close>









lemma frame_players [simp]:
  "h_players (mq_unlink k s) = h_players s" "h_players (set_queue k j q s) = h_players s"
  "h_players (seat i c s) = (h_players s)[i := c]"
  by (simp_all add: mq_unlink_def set_queue_def seat_def)
















subsection \<open>Who is late spoils the game\<close>









end
