(* ===== verification/Descriptors.thy ===== *)
theory Descriptors
  imports Prelude
begin

section \<open>Which process holds which end of a pipe\<close>

text \<open>
  The functions \<open>make_children\<close> of \<open>sop2/lab01/zad03/zad03.c\<close> (the exam) and of
  \<open>sop2/lab01/zad05/zad05.c\<close> (the ring of card players), which make the pipes and fork, and what is
  closed at the end. The theories \<open>Exam\<close> and \<open>CardRing\<close> take it that every process has the pipes it
  needs; here the numbers in the tables of descriptors are followed from \<open>pipe\<close> through \<open>fork\<close> and
  \<open>close\<close>, and with them who else keeps a pipe open.
\<close>

subsection \<open>Tables of descriptors\<close>

text \<open>The table of a process, from descriptor 0 on. Pipes are numbered in the order they are made.\<close>

datatype end_point = Std | ReadEnd nat | WriteEnd nat

type_synonym table = "end_point option list"

definition std_table :: table where
  "std_table = [Some Std, Some Std, Some Std]"

fun lowest_free :: "table \<Rightarrow> nat" where
  "lowest_free [] = 0"
| "lowest_free (None # t) = 0"
| "lowest_free (Some e # t) = Suc (lowest_free t)"

definition open_fd :: "end_point \<Rightarrow> table \<Rightarrow> table \<times> nat" where
  "open_fd e t = (let d = lowest_free t in (if d < length t then t[d := Some e] else t @ [Some e], d))"

definition fd_at :: "table \<Rightarrow> nat \<Rightarrow> end_point option" where
  "fd_at t d = (if d < length t then t ! d else None)"

text \<open>\<open>close\<close> and \<open>pipe\<close>, with \<open>ERR\<close>; a process may have \<open>limit\<close> descriptors.\<close>

definition close_fd :: "nat \<Rightarrow> table \<Rightarrow> table or_err" where
  "close_fd d t = (if fd_at t d = None then ERR ''close'' else Inr (t[d := None]))"

definition make_pipe :: "nat \<Rightarrow> nat \<Rightarrow> table \<Rightarrow> (table \<times> nat \<times> nat) or_err" where
  "make_pipe limit k t =
     (case open_fd (ReadEnd k) t of (t, r) \<Rightarrow>
      case open_fd (WriteEnd k) t of (t, w) \<Rightarrow>
        if r < limit \<and> w < limit then Inr (t, r, w) else ERR ''pipe'')"

text \<open>The ends that a process holds.\<close>

definition pipe_ends :: "table \<Rightarrow> end_point set" where
  "pipe_ends t = {e. Some e \<in> set t \<and> e \<noteq> Std}"

subsection \<open>The exam\<close>

text \<open>A student at its call of \<open>child_work\<close>, with the arguments.\<close>

record student_fds =
  sf_table :: table
  sf_read :: nat
  sf_write :: nat

record exam_fds =
  ef_table :: table \<comment> \<open>of the teacher\<close>
  ef_students :: "student_fds or_err list"
  ef_personal_writes :: "nat list"
  ef_common_read :: nat

text \<open>The student closes its copy of the end to write to it.\<close>

definition exam_student :: "nat \<Rightarrow> nat \<Rightarrow> nat \<Rightarrow> table \<Rightarrow> student_fds or_err" where
  "exam_student r w common_write t =
     bind_err (close_fd w t) (\<lambda>t. Inr \<lparr>sf_table = t, sf_read = r, sf_write = common_write\<rparr>)"

fun exam_loop :: "nat \<Rightarrow> nat \<Rightarrow> nat list \<Rightarrow> exam_fds \<Rightarrow> exam_fds or_err" where
  "exam_loop limit common_write [] f = Inr f"
| "exam_loop limit common_write (i # is) f =
     bind_err (make_pipe limit (i + 1) (ef_table f)) (\<lambda>(t, r, w).
     bind_err (close_fd r t) (\<lambda>t'.
       exam_loop limit common_write is
         (f\<lparr>ef_table := t', ef_students := ef_students f @ [exam_student r w common_write t],
            ef_personal_writes := ef_personal_writes f @ [w]\<rparr>)))"

definition exam_make_children :: "nat \<Rightarrow> nat \<Rightarrow> exam_fds or_err" where
  "exam_make_children limit n =
     bind_err (make_pipe limit 0 std_table) (\<lambda>(t, r, w).
     bind_err (exam_loop limit w [0..<n]
         \<lparr>ef_table = t, ef_students = [], ef_personal_writes = [], ef_common_read = r\<rparr>) (\<lambda>f.
     bind_err (close_fd w (ef_table f)) (\<lambda>t. Inr (f\<lparr>ef_table := t\<rparr>))))"

fun close_all :: "nat list \<Rightarrow> table \<Rightarrow> table or_err" where
  "close_all [] t = Inr t"
| "close_all (d # ds) t = bind_err (close_fd d t) (close_all ds)"

text \<open>What a student and the teacher close when they have done.\<close>

definition student_end :: "student_fds \<Rightarrow> table or_err" where
  "student_end p = close_all [sf_read p, sf_write p] (sf_table p)"

definition exam_end :: "exam_fds \<Rightarrow> table or_err" where
  "exam_end f = close_all (ef_personal_writes f @ [ef_common_read f]) (ef_table f)"

subsection \<open>The ring\<close>

record card_player_fds =
  cf_table :: table
  cf_parent :: nat
  cf_left :: nat
  cf_right :: nat

fun ring_pipes :: "nat \<Rightarrow> nat \<Rightarrow> nat list \<Rightarrow> table \<times> nat list \<times> nat list \<Rightarrow> (table \<times> nat list \<times> nat list) or_err" where
  "ring_pipes limit n [] s = Inr s"
| "ring_pipes limit n (i # is) (t, child_fds_read, child_fds_write) =
     bind_err (make_pipe limit i t) (\<lambda>(t, r, w).
       ring_pipes limit n is (t, child_fds_read[(i + 1) mod n := r], child_fds_write[i := w]))"

fun ring_forks :: "nat \<Rightarrow> nat \<Rightarrow> nat list \<Rightarrow> nat list \<Rightarrow> nat list \<Rightarrow> table \<times> card_player_fds or_err list \<times> nat list \<Rightarrow>
    (table \<times> card_player_fds or_err list \<times> nat list) or_err" where
  "ring_forks limit n [] child_fds_read child_fds_write s = Inr s"
| "ring_forks limit n (i # is) child_fds_read child_fds_write (t, players, write_fds) =
     bind_err (make_pipe limit (n + i) t) (\<lambda>(t, r, w).
     bind_err (close_fd r t) (\<lambda>t'.
       ring_forks limit n is child_fds_read child_fds_write
         (t', players @ [bind_err (close_fd w t) (\<lambda>t. Inr \<lparr>cf_table = t, cf_parent = r,
                cf_left = child_fds_read ! i, cf_right = child_fds_write ! i\<rparr>)], write_fds @ [w])))"

definition ring_make_children :: "nat \<Rightarrow> nat \<Rightarrow> (table \<times> card_player_fds or_err list \<times> nat list) or_err" where
  "ring_make_children limit n =
     bind_err (ring_pipes limit n [0..<n] (std_table, replicate n 0, replicate n 0)) (\<lambda>(t, child_fds_read, child_fds_write).
       ring_forks limit n [0..<n] child_fds_read child_fds_write (t, [], []))"

text \<open>What a player closes: the end to the parent once it has its cards, the ends to the neighbours when
  it leaves.\<close>

definition player_end :: "card_player_fds \<Rightarrow> table or_err" where
  "player_end p = close_all [cf_parent p, cf_left p, cf_right p] (cf_table p)"

subsection \<open>A pipe and a fork\<close>

text \<open>Both programs make a pipe for a child, fork, and close one end of it: the free place moves back to
  where it was, and the table grows by the other end. \<open>gap A B\<close> is a table with the descriptors of
  \<open>A\<close>, a free one when something was closed, and those of \<open>B\<close>.\<close>

definition full :: "table \<Rightarrow> bool" where
  "full t \<longleftrightarrow> None \<notin> set t"

definition gap :: "table \<Rightarrow> table \<Rightarrow> table" where
  "gap A B = (if B = [] then A else A @ None # B)"

lemma full_simps [simp]:
  "full []" "\<not> full (None # t)" "full (Some e # t) \<longleftrightarrow> full t" "full (A @ B) \<longleftrightarrow> full A \<and> full B" "full (map (\<lambda>i. Some (g i)) is)"
  by (auto simp: full_def)

lemma lowest_free:
  "full A \<Longrightarrow> lowest_free (A @ B) = length A + lowest_free B"
proof (induction A)
  case (Cons x A)
  then show ?case by (cases x) auto
qed simp

lemma lowest_free_full: "full A \<Longrightarrow> lowest_free A = length A"
  using lowest_free [of A "[]"] by simp

lemma make_pipe_gap:
  assumes "full A" "full B" "length A + length B + 1 < limit"
  shows "make_pipe limit k (gap A B) =
    Inr (A @ Some (ReadEnd k) # B @ [Some (WriteEnd k)], length A, length A + length B + 1)"
  using assms lowest_free_full [of "A @ Some (ReadEnd k) # B"]
  by (cases "B = []") (simp_all add: make_pipe_def open_fd_def gap_def lowest_free lowest_free_full nth_append list_update_append)

lemma close_fd_simps:
  "close_fd (length A) (A @ Some e # B) = Inr (A @ None # B)"
  "close_fd (length A + length B + 1) (A @ x # B @ [Some e]) = Inr (A @ x # B @ [None])"
  by (simp_all add: close_fd_def fd_at_def nth_append list_update_append)

lemma pipe_ends_simps [simp]:
  "pipe_ends [] = {}" "pipe_ends (None # t) = pipe_ends t" "pipe_ends (Some Std # t) = pipe_ends t"
  "pipe_ends (Some (ReadEnd k) # t) = insert (ReadEnd k) (pipe_ends t)"
  "pipe_ends (Some (WriteEnd k) # t) = insert (WriteEnd k) (pipe_ends t)"
  "pipe_ends (A @ B) = pipe_ends A \<union> pipe_ends B"
  by (auto simp: pipe_ends_def)

text \<open>The write ends of the pipes from \<open>b\<close> on that the parent keeps for \<open>i\<close> children.\<close>

definition kept :: "nat \<Rightarrow> nat \<Rightarrow> table" where
  "kept b i = map (\<lambda>j. Some (WriteEnd (b + j))) [0..<i]"

lemma kept_simps [simp]:
  "length (kept b i) = i" "full (kept b i)" "kept b 0 = []" "kept b i = [] \<longleftrightarrow> i = 0"
  "kept b i @ [Some (WriteEnd (b + i))] = kept b (Suc i)" "kept b i @ Some (WriteEnd (b + i)) # t = kept b (Suc i) @ t"
  "j < i \<Longrightarrow> kept b i ! j = Some (WriteEnd (b + j))"
  unfolding kept_def by simp_all

lemma pipe_ends_kept [simp]: "pipe_ends (kept b i) = WriteEnd ` {b..<b + i}"
proof (induction i)
  case (Suc i)
  have "pipe_ends (kept b (Suc i)) = pipe_ends (kept b i @ [Some (WriteEnd (b + i))])"
    by (simp add: kept_def del: pipe_ends_simps)
  also have "\<dots> = WriteEnd ` {b..<b + Suc i}" using Suc by (auto simp only: pipe_ends_simps add_Suc_right atLeastLessThanSuc split: if_splits)
  finally show ?case .
qed simp

text \<open>The table of child \<open>i\<close> behind its own \<open>close\<close>.\<close>

definition child_table :: "table \<Rightarrow> nat \<Rightarrow> nat \<Rightarrow> table" where
  "child_table A b i = A @ Some (ReadEnd (b + i)) # kept b i @ [None]"

lemma fork_round:
  assumes "full A" "length A + i + 1 < limit"
  shows "make_pipe limit (b + i) (gap A (kept b i)) =
      Inr (A @ Some (ReadEnd (b + i)) # kept b (Suc i), length A, length A + i + 1)"
    and "close_fd (length A) (A @ Some (ReadEnd (b + i)) # kept b (Suc i)) = Inr (gap A (kept b (Suc i)))"
    and "close_fd (length A + i + 1) (A @ Some (ReadEnd (b + i)) # kept b (Suc i)) = Inr (child_table A b i)"
  using assms make_pipe_gap [of A "kept b i" limit "b + i"] close_fd_simps(2) [of A "kept b i" "Some (ReadEnd (b + i))" "WriteEnd (b + i)"]
  by (simp_all add: close_fd_simps gap_def child_table_def)

subsection \<open>The families\<close>

definition exam_base :: table where
  "exam_base = std_table @ [Some (ReadEnd 0), Some (WriteEnd 0)]"

lemma exam_base: "full exam_base" "length exam_base = 5"
  by (simp_all add: exam_base_def std_table_def)

definition student :: "nat \<Rightarrow> student_fds" where
  "student i = \<lparr>sf_table = child_table exam_base 1 i, sf_read = 5, sf_write = 4\<rparr>"

lemma exam_loop_from:
  assumes "n + 6 \<le> limit" and "i \<le> n"
  shows "exam_loop limit 4 [i..<n]
      \<lparr>ef_table = gap exam_base (kept 1 i), ef_students = map (\<lambda>j. Inr (student j)) [0..<i],
       ef_personal_writes = [6..<6 + i], ef_common_read = 3\<rparr> =
    Inr \<lparr>ef_table = gap exam_base (kept 1 n), ef_students = map (\<lambda>j. Inr (student j)) [0..<n],
       ef_personal_writes = [6..<6 + n], ef_common_read = 3\<rparr>"
  using assms(2)
proof (induction i rule: inc_induct)
  case (step i)
  have lt: "length exam_base + i + 1 < limit" using step.hyps assms(1) by (simp add: exam_base)
  note round = fork_round [OF exam_base(1) lt, of 1, unfolded exam_base(2)]
  have "exam_student 5 (5 + i + 1) 4 (exam_base @ Some (ReadEnd (1 + i)) # kept 1 (Suc i)) = Inr (student i)"
    by (simp only: exam_student_def round bind_err_simps student_def)
  moreover have "[i..<n] = i # [Suc i..<n]" using step.hyps by (simp add: upt_conv_Cons)
  moreover have "map (\<lambda>j. Inr (student j)) [0..<i] @ [Inr (student i)] = map (\<lambda>j. Inr (student j)) [0..<Suc i]" by simp
  moreover have "[6..<6 + i] @ [5 + i + 1] = [6..<6 + Suc i]" by (simp only: add_Suc_right upt_Suc) simp
  moreover have "make_pipe limit (i + 1) (gap exam_base (kept 1 i)) =
      Inr (exam_base @ Some (ReadEnd (1 + i)) # kept 1 (Suc i), 5, 5 + i + 1)" using round(1) by (simp only: add.commute)
  ultimately show ?case using step.IH by (simp only: exam_loop.simps round bind_err_simps prod.case exam_fds.simps) simp
qed simp

lemma exam_family:
  assumes "n + 6 \<le> limit"
  shows "exam_make_children limit n =
    Inr \<lparr>ef_table = gap (exam_base[4 := None]) (kept 1 n), ef_students = map (\<lambda>j. Inr (student j)) [0..<n],
      ef_personal_writes = [6..<6 + n], ef_common_read = 3\<rparr>"
proof -
  have "make_pipe limit 0 std_table = Inr (exam_base, 3, 4)"
    using assms make_pipe_gap [of std_table "[]" limit 0] by (simp add: std_table_def exam_base_def gap_def)
  moreover have "gap exam_base (kept 1 0) = exam_base" by (simp add: gap_def)
  moreover have "close_fd 4 (gap exam_base (kept 1 n)) = Inr (gap (exam_base[4 := None]) (kept 1 n))"
    by (simp add: close_fd_def fd_at_def gap_def exam_base_def std_table_def)
  ultimately show ?thesis
    using exam_loop_from [OF assms, of 0] by (simp add: exam_make_children_def)
qed

text \<open>Closing the ends that are kept, one after the other.\<close>

lemma close_kept:
  "close_all ([length A..<length A + i] @ ds) (A @ kept b i) = close_all ds (A @ replicate i None)"
proof (induction i arbitrary: A b)
  case (Suc i)
  have k: "kept b (Suc i) = Some (WriteEnd b) # kept (Suc b) i"
    unfolding kept_def by (simp add: upt_conv_Cons map_Suc_upt [symmetric] del: upt_Suc)
  have "[length A..<length A + Suc i] = length A # [length (A @ [None])..<length (A @ [None]) + i]"
    by (simp add: upt_conv_Cons)
  moreover have "close_fd (length A) (A @ kept b (Suc i)) = Inr ((A @ [None]) @ kept (Suc b) i)"
    by (simp add: k close_fd_simps)
  ultimately show ?case using Suc.IH [of "A @ [None]" "Suc b"] by (simp add: replicate_append_same [symmetric])
qed simp

lemma pipe_ends_None [simp]: "pipe_ends (replicate i None) = {}"
  by (induction i) simp_all

lemma student_fds:
  shows "fd_at (sf_table (student i)) (sf_read (student i)) = Some (ReadEnd (i + 1))"
    and "fd_at (sf_table (student i)) (sf_write (student i)) = Some (WriteEnd 0)"
    and "pipe_ends (sf_table (student i)) = {ReadEnd 0, WriteEnd 0, ReadEnd (i + 1)} \<union> WriteEnd ` {1..i}"
    and "\<exists>t. student_end (student i) = Inr t \<and> pipe_ends t = insert (ReadEnd 0) (WriteEnd ` {1..i})"
proof -
  have t: "sf_table (student i) = [Some Std, Some Std, Some Std, Some (ReadEnd 0), Some (WriteEnd 0), Some (ReadEnd (i + 1))] @ kept 1 i @ [None]"
    and fds: "sf_read (student i) = 5" "sf_write (student i) = 4"
    by (simp_all add: student_def child_table_def exam_base_def std_table_def)
  have k: "{1..<1 + i} = {1..i}" by auto
  show "fd_at (sf_table (student i)) (sf_read (student i)) = Some (ReadEnd (i + 1))"
    "fd_at (sf_table (student i)) (sf_write (student i)) = Some (WriteEnd 0)"
    by (simp_all add: t fds fd_at_def)
  show "pipe_ends (sf_table (student i)) = {ReadEnd 0, WriteEnd 0, ReadEnd (i + 1)} \<union> WriteEnd ` {1..i}"
    unfolding t pipe_ends_simps pipe_ends_kept k by auto
  have "student_end (student i) = Inr ([Some Std, Some Std, Some Std, Some (ReadEnd 0), None, None] @ kept 1 i @ [None])"
    by (simp add: student_end_def t fds close_fd_def fd_at_def)
  then show "\<exists>t. student_end (student i) = Inr t \<and> pipe_ends t = insert (ReadEnd 0) (WriteEnd ` {1..i})"
    using k pipe_ends_kept [of 1 i] by auto
qed

text \<open>
  C22: the descriptors of the exam. As long as the teacher may have \<open>n + 6\<close> descriptors the set-up
  succeeds, and every variable holds a descriptor of the right kind: student \<open>i\<close> reads from its
  personal pipe and writes to the common one, the teacher the other way round; both can close what
  they close, after which the teacher holds no pipe. The student keeps the end to read from the
  common pipe, and those to write to the pipes of all students before it.
\<close>

theorem exam_descriptors:
  assumes "n + 6 \<le> limit"
  shows "\<exists>f. exam_make_children limit n = Inr f \<and> length (ef_students f) = n \<and> length (ef_personal_writes f) = n \<and>
     fd_at (ef_table f) (ef_common_read f) = Some (ReadEnd 0) \<and>
     pipe_ends (ef_table f) = insert (ReadEnd 0) (WriteEnd ` {1..n}) \<and>
     (\<forall>i < n. fd_at (ef_table f) (ef_personal_writes f ! i) = Some (WriteEnd (i + 1)) \<and>
        (\<exists>p. ef_students f ! i = Inr p \<and> fd_at (sf_table p) (sf_read p) = Some (ReadEnd (i + 1)) \<and>
           fd_at (sf_table p) (sf_write p) = Some (WriteEnd 0) \<and>
           pipe_ends (sf_table p) = {ReadEnd 0, WriteEnd 0, ReadEnd (i + 1)} \<union> WriteEnd ` {1..i} \<and>
           (\<exists>t. student_end p = Inr t \<and> pipe_ends t = insert (ReadEnd 0) (WriteEnd ` {1..i})))) \<and>
     (\<exists>t. exam_end f = Inr t \<and> pipe_ends t = {})"
proof -
  let ?f = "\<lparr>ef_table = gap (exam_base[4 := None]) (kept 1 n), ef_students = map (\<lambda>j. Inr (student j)) [0..<n],
      ef_personal_writes = [6..<6 + n], ef_common_read = 3\<rparr>"
  define A :: table where "A = [Some Std, Some Std, Some Std, Some (ReadEnd 0), None] @ (if n = 0 then [] else [None])"
  have t: "ef_table ?f = A @ kept 1 n" and A: "length A = (if n = 0 then 5 else 6)"
    by (simp_all add: gap_def exam_base_def std_table_def A_def)
  have k: "{1..<1 + n} = {1..n}" by auto
  have ends: "pipe_ends (ef_table ?f) = insert (ReadEnd 0) (WriteEnd ` {1..n})"
    unfolding t pipe_ends_simps pipe_ends_kept k by (auto simp: A_def)
  have "close_all ([6..<6 + n] @ [3]) (A @ kept 1 n) = close_all [3] (A @ replicate n None)"
  proof (cases "n = 0")
    case False
    then have "[6..<6 + n] = [length A..<length A + n]" using A by simp
    then show ?thesis using close_kept [of A n "[3]" 1] by simp
  qed simp
  then have "exam_end ?f = Inr ((A @ replicate n None)[3 := None])"
    unfolding exam_end_def t by (simp add: close_fd_def fd_at_def A_def)
  moreover have "pipe_ends ((A @ replicate n None)[3 := None]) = {}" by (simp add: A_def)
  ultimately have last: "\<exists>t. exam_end ?f = Inr t \<and> pipe_ends t = {}" by blast
  have writes: "fd_at (ef_table ?f) (ef_personal_writes ?f ! i) = Some (WriteEnd (i + 1))" if "i < n" for i
    unfolding t using that A by (simp add: fd_at_def nth_append)
  have common: "fd_at (ef_table ?f) (ef_common_read ?f) = Some (ReadEnd 0)" unfolding t by (simp add: fd_at_def A_def)
  show ?thesis
    using exam_family [OF assms] ends last writes student_fds common by (intro exI [of _ ?f]) simp
qed

theorem exam_descriptors_witness:
  "\<exists>f t. exam_make_children 1024 30 = Inr f \<and> length (ef_students f) = 30 \<and>
     pipe_ends (ef_table f) = insert (ReadEnd 0) (WriteEnd ` {1..30}) \<and> exam_end f = Inr t \<and> pipe_ends t = {}"
proof -
  have "30 + 6 \<le> (1024 :: nat)" by simp
  from exam_descriptors [OF this] show ?thesis by (elim exE conjE) (intro exI conjI, assumption+)
qed

subsection \<open>The pipes of the ring\<close>

definition ring_ends :: "nat \<Rightarrow> table" where
  "ring_ends i = concat (map (\<lambda>k. [Some (ReadEnd k), Some (WriteEnd k)]) [0..<i])"

lemma ring_ends_simps [simp]:
  "ring_ends 0 = []" "ring_ends (Suc i) = ring_ends i @ [Some (ReadEnd i), Some (WriteEnd i)]"
  by (simp_all add: ring_ends_def)

lemma ring_ends_props [simp]:
  "length (ring_ends i) = 2 * i" "full (ring_ends i)"
  "pipe_ends (ring_ends i) = ReadEnd ` {..<i} \<union> WriteEnd ` {..<i}"
  by (induction i) (auto simp: lessThan_Suc)

lemma ring_ends_nth:
  "k < i \<Longrightarrow> ring_ends i ! (2 * k) = Some (ReadEnd k) \<and> ring_ends i ! (2 * k + 1) = Some (WriteEnd k)"
proof (induction i)
  case (Suc i)
  then show ?case by (cases "k = i") (auto simp: nth_append)
qed simp

definition ring_base :: "nat \<Rightarrow> table" where
  "ring_base i = std_table @ ring_ends i"

lemma ring_base:
  "full (ring_base i)" "length (ring_base i) = 2 * i + 3"
  "pipe_ends (ring_base i) = ReadEnd ` {..<i} \<union> WriteEnd ` {..<i}"
  "k < i \<Longrightarrow> fd_at (ring_base i @ B) (2 * k + 3) = Some (ReadEnd k)"
  "k < i \<Longrightarrow> fd_at (ring_base i @ B) (2 * k + 4) = Some (WriteEnd k)"
  using ring_ends_nth [of k i]
  by (auto simp: ring_base_def std_table_def fd_at_def nth_append numeral_eq_Suc)

text \<open>The loop over the pipes: both arrays hold what was made so far.\<close>

definition ring_arrays :: "nat \<Rightarrow> nat \<Rightarrow> nat list \<Rightarrow> nat list \<Rightarrow> bool" where
  "ring_arrays n i rd wr \<longleftrightarrow> length rd = n \<and> length wr = n \<and>
     (\<forall>k < i. rd ! ((k + 1) mod n) = 2 * k + 3 \<and> wr ! k = 2 * k + 4)"

lemma ring_arrays_step:
  assumes "ring_arrays n i rd wr" "i < n"
  shows "ring_arrays n (Suc i) (rd[(i + 1) mod n := 2 * i + 3]) (wr[i := 2 * i + 4])"
proof -
  have "(k + 1) mod n \<noteq> (i + 1) mod n" if "k < i" for k
  proof (cases "i + 1 = n")
    case True
    with that show ?thesis by simp
  next
    case False
    with that assms(2) show ?thesis by simp
  qed
  then have "rd[(i + 1) mod n := 2 * i + 3] ! ((k + 1) mod n) = rd ! ((k + 1) mod n)" if "k < i" for k
    using that by (intro nth_list_update_neq) metis
  moreover have "rd[(i + 1) mod n := 2 * i + 3] ! ((i + 1) mod n) = 2 * i + 3"
    using assms by (intro nth_list_update_eq) (simp add: ring_arrays_def)
  ultimately have "rd[(i + 1) mod n := 2 * i + 3] ! ((k + 1) mod n) = 2 * k + 3" if "k < Suc i" for k
    using that assms(1) by (cases "k = i") (simp_all add: ring_arrays_def less_Suc_eq del: mod_less)
  moreover have "wr[i := 2 * i + 4] ! k = 2 * k + 4" if "k < Suc i" for k
    using that assms by (cases "k = i") (simp_all add: ring_arrays_def less_Suc_eq)
  ultimately show ?thesis using assms(1) unfolding ring_arrays_def by simp
qed

lemma ring_pipes_from:
  assumes "i \<le> n" "2 * n + 3 \<le> limit" "ring_arrays n i rd wr"
  shows "\<exists>rd' wr'. ring_pipes limit n [i..<n] (ring_base i, rd, wr) = Inr (ring_base n, rd', wr') \<and> ring_arrays n n rd' wr'"
  using assms(1,3)
proof (induction i arbitrary: rd wr rule: inc_induct)
  case (step i)
  have "make_pipe limit i (ring_base i) = Inr (ring_base (Suc i), 2 * i + 3, 2 * i + 4)"
    using make_pipe_gap [of "ring_base i" "[]" limit i] step.hyps assms(2)
    by (simp add: gap_def ring_base) (simp add: ring_base_def)
  moreover have "[i..<n] = i # [Suc i..<n]" using step.hyps by (simp add: upt_conv_Cons)
  ultimately show ?case
    using step.IH [OF ring_arrays_step [OF step.prems]] step.hyps by simp
qed auto

subsection \<open>The players of the ring\<close>

definition card_player :: "nat \<Rightarrow> nat list \<Rightarrow> nat list \<Rightarrow> nat \<Rightarrow> card_player_fds" where
  "card_player n rd wr i =
     \<lparr>cf_table = child_table (ring_base n) n i, cf_parent = 2 * n + 3, cf_left = rd ! i, cf_right = wr ! i\<rparr>"

lemma ring_forks_from:
  assumes "3 * n + 4 \<le> limit" and "i \<le> n"
  shows "ring_forks limit n [i..<n] rd wr
      (gap (ring_base n) (kept n i), map (\<lambda>j. Inr (card_player n rd wr j)) [0..<i], [2 * n + 4..<2 * n + 4 + i]) =
    Inr (gap (ring_base n) (kept n n), map (\<lambda>j. Inr (card_player n rd wr j)) [0..<n], [2 * n + 4..<2 * n + 4 + n])"
  using assms(2)
proof (induction i rule: inc_induct)
  case (step i)
  have lt: "length (ring_base n) + i + 1 < limit" using step.hyps assms(1) by (simp add: ring_base)
  note round = fork_round [OF ring_base(1) lt, of n, unfolded ring_base(2)]
  have "[i..<n] = i # [Suc i..<n]" using step.hyps by (simp add: upt_conv_Cons)
  moreover have "map (\<lambda>j. Inr (card_player n rd wr j)) [0..<i] @ [Inr (card_player n rd wr i)] =
      (map (\<lambda>j. Inr (card_player n rd wr j)) [0..<Suc i] :: card_player_fds or_err list)" by simp
  moreover have "[2 * n + 4..<2 * n + 4 + i] @ [2 * n + 3 + i + 1] = [2 * n + 4..<2 * n + 4 + Suc i]"
    by (simp only: add_Suc_right upt_Suc) simp
  moreover have "\<lparr>cf_table = child_table (ring_base n) n i, cf_parent = 2 * n + 3, cf_left = rd ! i, cf_right = wr ! i\<rparr> =
      card_player n rd wr i" by (simp only: card_player_def)
  ultimately show ?case using step.IH by (simp only: ring_forks.simps round bind_err_simps prod.case)
qed simp

lemma ring_family:
  assumes "3 * n + 4 \<le> limit"
  shows "\<exists>rd wr. ring_arrays n n rd wr \<and> ring_make_children limit n =
    Inr (gap (ring_base n) (kept n n), map (\<lambda>j. Inr (card_player n rd wr j)) [0..<n], [2 * n + 4..<3 * n + 4])"
proof -
  have "ring_arrays n 0 (replicate n 0) (replicate n 0)" by (simp add: ring_arrays_def)
  then obtain rd wr where pipes: "ring_pipes limit n [0..<n] (ring_base 0, replicate n 0, replicate n 0) = Inr (ring_base n, rd, wr)"
    and arrays: "ring_arrays n n rd wr"
    using ring_pipes_from [of 0 n limit "replicate n 0" "replicate n 0"] assms by auto
  have "ring_base 0 = std_table" by (simp add: ring_base_def)
  moreover have "gap (ring_base n) (kept n 0) = ring_base n" by (simp add: gap_def)
  moreover have "2 * n + 4 + n = 3 * n + 4" by simp
  ultimately show ?thesis
    using ring_forks_from [OF assms, of 0 rd wr] pipes arrays by (intro exI [of _ rd] exI [of _ wr]) (simp add: ring_make_children_def)
qed

lemma ring_left:
  assumes "ring_arrays n n rd wr" "i < n"
  shows "\<exists>k < n. i = (k + 1) mod n \<and> rd ! i = 2 * k + 3"
proof -
  define k where "k = (i + n - 1) mod n"
  have "k < n" using assms(2) by (simp add: k_def)
  moreover have "(k + 1) mod n = i"
  proof (cases i)
    case 0
    with assms(2) show ?thesis by (simp add: k_def)
  next
    case (Suc j)
    then have "k = j" using assms(2) by (simp add: k_def)
    with Suc assms(2) show ?thesis by simp
  qed
  ultimately show ?thesis using assms(1) by (auto simp: ring_arrays_def intro!: exI [of _ k])
qed

lemma card_player_fds:
  assumes "ring_arrays n n rd wr" "i < n"
  defines "p \<equiv> card_player n rd wr i"
  shows "fd_at (cf_table p) (cf_parent p) = Some (ReadEnd (n + i))"
    and "fd_at (cf_table p) (cf_right p) = Some (WriteEnd i)"
    and "\<exists>k < n. i = (k + 1) mod n \<and> fd_at (cf_table p) (cf_left p) = Some (ReadEnd k)"
    and "pipe_ends (cf_table p) = ReadEnd ` insert (n + i) {..<n} \<union> WriteEnd ` {..<n + i}"
    and "\<exists>t. player_end p = Inr t"
proof -
  have t: "cf_table p = ring_base n @ Some (ReadEnd (n + i)) # kept n i @ [None]"
    and fds: "cf_parent p = 2 * n + 3" "cf_left p = rd ! i" "cf_right p = wr ! i"
    by (simp_all add: p_def card_player_def child_table_def)
  have right: "wr ! i = 2 * i + 4" using assms(1,2) by (simp add: ring_arrays_def)
  obtain k where left: "k < n" "i = (k + 1) mod n" "rd ! i = 2 * k + 3" using ring_left [OF assms(1,2)] by blast
  show parent: "fd_at (cf_table p) (cf_parent p) = Some (ReadEnd (n + i))"
    by (simp add: t fds fd_at_def ring_base(2) nth_append)
  show rights: "fd_at (cf_table p) (cf_right p) = Some (WriteEnd i)"
    unfolding t fds right by (rule ring_base(5) [OF assms(2)])
  have lefts: "fd_at (cf_table p) (cf_left p) = Some (ReadEnd k)"
    unfolding t fds left(3) by (rule ring_base(4) [OF left(1)])
  then show "\<exists>k < n. i = (k + 1) mod n \<and> fd_at (cf_table p) (cf_left p) = Some (ReadEnd k)" using left by blast
  have "{..<n} \<union> {n..<n + i} = {..<n + i}" by auto
  then show "pipe_ends (cf_table p) = ReadEnd ` insert (n + i) {..<n} \<union> WriteEnd ` {..<n + i}"
    unfolding t pipe_ends_simps pipe_ends_kept ring_base(3) by (auto simp flip: image_Un)
  have "cf_parent p \<noteq> cf_left p" "cf_parent p \<noteq> cf_right p" "cf_left p \<noteq> cf_right p"
    unfolding fds left(3) right using left(1) by presburger+
  then show "\<exists>t. player_end p = Inr t"
    using parent lefts rights by (auto simp: player_end_def close_fd_def fd_at_def split: if_splits)
qed

text \<open>
  C23: the descriptors of the ring. As long as a process may have \<open>3 * n + 4\<close> of them the set-up
  succeeds, and every player gets the right ones: it reads its cards from the pipe the parent writes
  to for it, and writes to the ring pipe that the next player reads from. But every process, the
  parent too, has both ends of every pipe of the ring, so that no player ever learns from its pipes
  that a neighbour has left.
\<close>

theorem ring_descriptors:
  assumes "3 * n + 4 \<le> limit"
  shows "\<exists>t players write_fds. ring_make_children limit n = Inr (t, players, write_fds) \<and>
     length players = n \<and> length write_fds = n \<and>
     pipe_ends t = ReadEnd ` {..<n} \<union> WriteEnd ` {..<2 * n} \<and>
     (\<forall>i < n. fd_at t (write_fds ! i) = Some (WriteEnd (n + i)) \<and>
        (\<exists>p. players ! i = Inr p \<and> fd_at (cf_table p) (cf_parent p) = Some (ReadEnd (n + i)) \<and>
           fd_at (cf_table p) (cf_right p) = Some (WriteEnd i) \<and>
           (\<exists>k < n. i = (k + 1) mod n \<and> fd_at (cf_table p) (cf_left p) = Some (ReadEnd k)) \<and>
           pipe_ends (cf_table p) = ReadEnd ` insert (n + i) {..<n} \<union> WriteEnd ` {..<n + i} \<and>
           (\<exists>t. player_end p = Inr t)))"
proof -
  obtain rd wr where arrays: "ring_arrays n n rd wr"
    and family: "ring_make_children limit n =
      Inr (gap (ring_base n) (kept n n), map (\<lambda>j. Inr (card_player n rd wr j)) [0..<n], [2 * n + 4..<3 * n + 4])"
    using ring_family [OF assms] by blast
  have "{..<n} \<union> {n..<n + n} = {..<2 * n}" by auto
  then have "pipe_ends (gap (ring_base n) (kept n n)) = ReadEnd ` {..<n} \<union> WriteEnd ` {..<2 * n}"
    by (simp add: gap_def ring_base(3)) (auto simp flip: image_Un)
  moreover have "fd_at (gap (ring_base n) (kept n n)) ([2 * n + 4..<3 * n + 4] ! i) = Some (WriteEnd (n + i))" if "i < n" for i
    using that by (simp add: gap_def fd_at_def ring_base(2) nth_append)
  ultimately show ?thesis
    using family card_player_fds [OF arrays]
    by (intro exI [of _ "gap (ring_base n) (kept n n)"] exI [of _ "map (\<lambda>j. Inr (card_player n rd wr j)) [0..<n]"]
        exI [of _ "[2 * n + 4..<3 * n + 4]"]) simp
qed

theorem ring_descriptors_witness:
  "\<exists>t players write_fds. ring_make_children 1024 7 = Inr (t, players, write_fds) \<and> length players = 7 \<and>
     pipe_ends t = ReadEnd ` {..<7} \<union> WriteEnd ` {..<2 * 7}"
proof -
  have "3 * 7 + 4 \<le> (1024 :: nat)" by simp
  from ring_descriptors [OF this] show ?thesis by (elim exE conjE) (intro exI conjI, assumption+)
qed

end
