(* ===== verification/QueueNames.thy ===== *)
theory QueueNames
  imports Forum
begin

section \<open>The names of message queues\<close>

text \<open>
  How the programs with message queues make their queues and remove them at the end: the forum
  (\<open>sop2/lab02/mq_test2/forum.c\<close>), bingo (\<open>sop2/lab02/mq_test1/bingo.c\<close>) and the server with its
  workers (\<open>sop2/lab02/zad02/zad02.c\<close>). Names outlive the programs, and a name that exists is opened
  with what is in its queue. For the telephone game see \<open>PhoneNames\<close>.
\<close>

subsection \<open>Opening and removing\<close>

text \<open>The queues of the system with their messages.\<close>

type_synonym 'm space = "string \<Rightarrow> 'm list option"

text \<open>\<open>mq_open\<close> with \<open>O_CREAT\<close>; \<open>mq_unlink\<close>, which fails when there is no such name.\<close>

definition create_queue :: "string \<Rightarrow> 'm space \<Rightarrow> 'm space" where
  "create_queue name ns = (case ns name of None \<Rightarrow> ns(name \<mapsto> []) | Some q \<Rightarrow> ns)"

definition unlink_queue :: "string \<Rightarrow> 'm space \<Rightarrow> 'm space option" where
  "unlink_queue name ns = (if ns name = None then None else Some (ns(name := None)))"

definition unlink_if_there :: "string \<Rightarrow> 'm space \<Rightarrow> 'm space" where
  "unlink_if_there name ns = (case unlink_queue name ns of None \<Rightarrow> ns | Some ns' \<Rightarrow> ns')"

fun unlink_each :: "string list \<Rightarrow> 'm space \<Rightarrow> 'm space or_err" where
  "unlink_each [] ns = Inr ns"
| "unlink_each (name # names) ns =
     (case unlink_queue name ns of None \<Rightarrow> ERR ''mq_unlink'' | Some ns' \<Rightarrow> unlink_each names ns')"

subsection \<open>The programs\<close>

definition forum_names :: "string list" where
  "forum_names = map (\<lambda>i. ''/child_'' @ show_int (int i)) [0..<CHILD_COUNT]"

definition forum_open :: "'m space \<Rightarrow> 'm space" where
  "forum_open ns = fold create_queue forum_names ns"

text \<open>A name that is not there any more is not an error.\<close>

definition forum_close :: "'m space \<Rightarrow> 'm space" where
  "forum_close ns = fold unlink_if_there forum_names ns"

definition bingo_open :: "'m space \<Rightarrow> 'm space" where
  "bingo_open ns = create_queue ''/bingo_mq_rng'' (create_queue ''/bingo_mq_end'' ns)"

definition bingo_close :: "'m space \<Rightarrow> 'm space or_err" where
  "bingo_close ns = unlink_each [''/bingo_mq_end'', ''/bingo_mq_rng''] ns"

definition server_name :: "nat \<Rightarrow> string" where
  "server_name pid = ''/mq_'' @ show_int (int pid)"

definition result_name :: "nat \<Rightarrow> string" where
  "result_name pid = ''/mq_res_'' @ show_int (int pid)"

text \<open>The server removes what an earlier process with its number left. The queue for the results of a
  worker is opened by the worker and by the server, in any order: \<open>opens\<close> are these calls, by their
  worker.\<close>

definition office_open :: "nat \<Rightarrow> nat list \<Rightarrow> 'm space \<Rightarrow> 'm space" where
  "office_open server_pid opens ns =
     fold (\<lambda>pid. create_queue (result_name pid)) opens
       (create_queue (server_name server_pid) (unlink_if_there (server_name server_pid) ns))"

definition office_close :: "nat \<Rightarrow> nat list \<Rightarrow> 'm space \<Rightarrow> 'm space or_err" where
  "office_close server_pid worker_pids ns = unlink_each (server_name server_pid # map result_name worker_pids) ns"

subsection \<open>What is left behind\<close>

definition without :: "string list \<Rightarrow> 'm space \<Rightarrow> 'm space" where
  "without names ns = (\<lambda>x. if x \<in> set names then None else ns x)"

text \<open>A state of the queues while a program with the given names runs that began in \<open>ns\<close>: nobody else
  removes its names, and it does not touch those of others.\<close>

definition meanwhile :: "string list \<Rightarrow> 'm space \<Rightarrow> 'm space \<Rightarrow> bool" where
  "meanwhile names ns ns' \<longleftrightarrow> (\<forall>x. if x \<in> set names then ns' x \<noteq> None else ns' x = ns x)"

lemma create_queue: "create_queue name ns = (\<lambda>x. if x = name \<and> ns x = None then Some [] else ns x)"
  by (auto simp: create_queue_def fun_eq_iff split: option.splits)

lemma fold_create:
  "fold create_queue names ns = (\<lambda>x. if x \<in> set names \<and> ns x = None then Some [] else ns x)"
proof (induction names arbitrary: ns)
  case (Cons name names)
  show ?case by (simp only: fold_Cons o_apply Cons.IH) (auto simp: create_queue fun_eq_iff)
qed simp

lemma unlink_if_there: "unlink_if_there name ns = ns(name := None)"
  by (auto simp: unlink_if_there_def unlink_queue_def)

lemma fold_unlink: "fold unlink_if_there names ns = without names ns"
  by (induction names arbitrary: ns) (auto simp: unlink_if_there without_def fun_eq_iff)

lemma unlink_each:
  "distinct names \<Longrightarrow> \<forall>x \<in> set names. ns x \<noteq> None \<Longrightarrow> unlink_each names ns = Inr (without names ns)"
proof (induction names arbitrary: ns)
  case (Cons name names)
  then have "unlink_each names (ns(name := None)) = Inr (without names (ns(name := None)))" by (intro Cons.IH) auto
  with Cons.prems show ?case by (auto simp: unlink_queue_def without_def fun_eq_iff)
qed (simp add: without_def)

lemma show_int_inj: "show_int i = show_int j \<longleftrightarrow> i = j"
proof -
  have "atoi (show_int k) = k" for k using atoi_show_int [of "[]" k] by simp
  then show ?thesis by metis
qed

lemma show_int_digit: "show_int (int n) \<noteq> CHR ''r'' # s"
proof
  assume r: "show_int (int n) = CHR ''r'' # s"
  have "list_all is_digit (decimal n)" using decimal_digits [of n] by (auto simp: list_all_iff)
  with r show False by (simp add: show_int_def is_digit_def split: if_splits)
qed

lemma server_not_result: "server_name p \<noteq> result_name w"
  using show_int_digit [of p] by (simp add: server_name_def result_name_def)

text \<open>
  Whatever the messages, each of the programs removes the names it made and no others, and no call
  for that fails: what was there with other names is there as before. But a queue that an earlier
  run left (any \<open>ERR\<close> kills the program without removing anything) is opened with its old messages;
  only the server sees to it that its own queue is new.
\<close>

lemma queue_names_removed:
  "meanwhile forum_names ns ns' \<Longrightarrow> forum_close ns' = without forum_names ns"
  "meanwhile [''/bingo_mq_end'', ''/bingo_mq_rng''] ns ns' \<Longrightarrow>
     bingo_close ns' = Inr (without [''/bingo_mq_end'', ''/bingo_mq_rng''] ns)"
  "distinct pids \<Longrightarrow> meanwhile (server_name p # map result_name pids) ns ns' \<Longrightarrow>
     office_close p pids ns' = Inr (without (server_name p # map result_name pids) ns)"
proof -
  have w: "without names ns' = without names ns" if "meanwhile names ns ns'" for names
    using that by (auto simp: meanwhile_def without_def fun_eq_iff)
  show "meanwhile forum_names ns ns' \<Longrightarrow> forum_close ns' = without forum_names ns"
    using w by (simp add: forum_close_def fold_unlink)
  show "bingo_close ns' = Inr (without [''/bingo_mq_end'', ''/bingo_mq_rng''] ns)"
    if m: "meanwhile [''/bingo_mq_end'', ''/bingo_mq_rng''] ns ns'"
    using unlink_each [of "[''/bingo_mq_end'', ''/bingo_mq_rng'']" ns'] m w [OF m]
    by (auto simp: bingo_close_def meanwhile_def split: if_splits)
  show "office_close p pids ns' = Inr (without (server_name p # map result_name pids) ns)"
    if "distinct pids" and m: "meanwhile (server_name p # map result_name pids) ns ns'"
  proof -
    have "distinct (server_name p # map result_name pids)"
      using that(1) server_not_result by (auto simp: distinct_map inj_on_def result_name_def show_int_inj)
    moreover have "\<forall>x \<in> set (server_name p # map result_name pids). ns' x \<noteq> None"
      using m by (metis meanwhile_def)
    ultimately show ?thesis unfolding office_close_def using unlink_each w [OF m] by metis
  qed
qed

lemma queue_names_opened:
  "forum_open ns x = (if x \<in> set forum_names \<and> ns x = None then Some [] else ns x)"
  "bingo_open ns x = (if x \<in> {''/bingo_mq_end'', ''/bingo_mq_rng''} \<and> ns x = None then Some [] else ns x)"
  "office_open p opens ns x =
     (if x = server_name p \<or> x \<in> result_name ` set opens \<and> ns x = None then Some [] else ns x)"
proof -
  show "forum_open ns x = (if x \<in> set forum_names \<and> ns x = None then Some [] else ns x)"
    by (simp add: forum_open_def fold_create)
  show "bingo_open ns x = (if x \<in> {''/bingo_mq_end'', ''/bingo_mq_rng''} \<and> ns x = None then Some [] else ns x)"
    using fold_create [of "[''/bingo_mq_end'', ''/bingo_mq_rng'']" ns] by (simp add: bingo_open_def)
  have "office_open p opens ns = fold create_queue (map result_name opens) (create_queue (server_name p) (ns(server_name p := None)))"
    by (simp add: office_open_def unlink_if_there fold_map o_def)
  then show "office_open p opens ns x =
      (if x = server_name p \<or> x \<in> result_name ` set opens \<and> ns x = None then Some [] else ns x)"
    using server_not_result [of p] by (auto simp: fold_create create_queue)
qed

end
