(* ===== verification/Spec2Isabelle.thy ===== *)
theory Spec2Isabelle
  imports SopIO CircBuf ThreadPool VoteServer UdpTransfer Calculator SharedMem FileSplit
    CardRing CardThreads Editor VirtualEnv Telephone TeamPipes Bingo Forum
    Exam Workers MonteCarlo DirList LineTools City Signals PiLog
    FileTools SignalLoops PiThreads Sockets Delays Arguments PhoneNames
    Descriptors QueueNames
begin

text \<open>
  A verification development of the operating-systems laboratory programs of this repository.

  The repository holds independent C programs, sorted by course (\<open>sop1\<close>, \<open>sop2\<close>) and laboratory.
  Each program is a component of its own: a few processes or threads that meet in a pipe, a message
  queue, a socket, shared memory or a file. They share the header \<open>sop2/lab04/sop_net.h\<close> and
  idioms: \<open>ERR\<close> (print and exit), \<open>TEMP_FAILURE_RETRY\<close>, \<open>bulk_read\<close> and \<open>bulk_write\<close>.

  \<^bold>\<open>Theories and the code they model.\<close>

  \<^item> \<open>Prelude\<close>: C strings (up to the NUL), signed characters, \<open>strstr\<close>, \<open>strrchr\<close>, \<open>atoi\<close>, printed
    numbers, the result type of code that may call \<open>ERR\<close>, sums over updated lists, and the
    interfaces the components share: \<open>invariant_system\<close> (a step relation with an invariant),
    \<open>terminating_system\<close> (steps that decrease a measure), \<open>completable_system\<close> (from every state some
    steps lead to the end), \<open>refining_system\<close> (steps that are steps of another system or hidden) and \<open>bounded_fifo\<close> (an array used as a
    ring). Every component that has one of these interprets the locale on its own definitions.
  \<^item> \<open>SopIO\<close>: \<open>sop2/lab04/sop_net.h\<close>. \<open>TEMP_FAILURE_RETRY\<close>, \<open>bulk_read\<close> and \<open>bulk_write\<close> are
    loops over a system call that is a parameter; a call that is interrupted for ever makes them
    \<open>None\<close>, and the theorems are about a scripted descriptor that is not. \<open>add_new_client\<close> is the
    reaction to the outcome of \<open>accept\<close>.
  \<^item> \<open>CircBuf\<close> and \<open>ThreadPool\<close>: \<open>sop1/lab03/prelab/prelab.c\<close>. The circular buffer of paths, the
    directory walk that fills it, and the worker threads, signal thread and main loop that count
    letters, as interleaved steps over the records \<open>circ_buf\<close> and \<open>pool\<close>.
  \<^item> \<open>VoteServer\<close>: \<open>sop2/lab04/zad02/zad02.c\<close>. The epoll handler on the record \<open>server\<close> and its
    abstract election, the tally, and the TCP thread, UDP thread and SIGINT as interleaved steps.
  \<^item> \<open>Wire\<close> and \<open>UdpTransfer\<close>: \<open>sop2/lab04/udp_test\<close>. Numbers in network order; the server's turn
    on its table of connections, the client's loop, and both over a network that loses, repeats and
    reorders datagrams, among other clients.
  \<^item> \<open>Calculator\<close>: \<open>sop2/lab04/tcp_test\<close>. The request and the answer byte by byte, 32-bit
    arithmetic, the server over batches of connections.
  \<^item> \<open>SharedMem\<close>: \<open>sop2/lab03/prod_cons\<close> and \<open>sop2/lab03/dying\<close>. Producer and consumer with
    condition variables (spurious wake-ups, too), and the robust mutex whose owner dies.
  \<^item> \<open>FileSplit\<close>: \<open>sop2/lab03/zad01/zad01.c\<close> and \<open>sop1/lab02/prelab/workshop/src/sop-l2.c\<close>. A file
    cut into pieces for child processes that count letters or change their case.
  \<^item> \<open>CardRing\<close>: \<open>sop2/lab01/zad05/zad05.c\<close>. Players on a ring of pipes, with signals.
  \<^item> \<open>CardThreads\<close>: \<open>sop1/lab04/zad2/sop-mss.c\<close>. The same game with threads and a barrier.
  \<^item> \<open>Editor\<close>: \<open>sop1/lab01/editor/sop-ed.c\<close>. The operations on the bytes of the file, and \<open>main\<close>
    over the bytes of standard input.
  \<^item> \<open>VirtualEnv\<close>: \<open>sop1/lab01/tutorial/example03/sop-venv.c\<close>. Environments as directories with a
    list of packages.
  \<^item> \<open>Telephone\<close>: \<open>sop2/lab02/zad03/zad03.c\<close>. Words handed on through message queues, \<open>main\<close> and its
    players as steps of \<open>phone_step\<close>.
  \<^item> \<open>TeamPipes\<close>: \<open>sop2/lab01/prelab/prelab.c\<close>. Two teams of processes on pipes (\<open>match_step\<close>).
  \<^item> \<open>MsgQueue\<close>: POSIX message queues with priorities and the one-shot notification, shared by
    \<open>Bingo\<close> (\<open>sop2/lab02/mq_test1/bingo.c\<close>, \<open>bingo_step\<close>), \<open>Forum\<close>
    (\<open>sop2/lab02/mq_test2/forum.c\<close> and the chat of \<open>sop2/lab02/zad04/zad04.c\<close>, \<open>forum_step\<close> and
    \<open>chat_step\<close>) and \<open>Workers\<close> (\<open>sop2/lab02/zad02/zad02.c\<close>, \<open>office_step\<close>).
  \<^item> \<open>Exam\<close>: \<open>sop2/lab01/zad03/zad03.c\<close>. A teacher and students with pipes (\<open>exam_step\<close>).
  \<^item> \<open>MonteCarlo\<close>: \<open>sop2/lab03/zad02/zad02.c\<close>. Independent processes that integrate together in
    shared memory and may die (\<open>integral_step\<close>).
  \<^item> \<open>PiLog\<close>: \<open>sop2/lab03/mmap_children/mmap_children.c\<close>. Children with a part of a mapped file each.
  \<^item> \<open>DirList\<close>: \<open>sop1/lab01/tutorial/example01\<close> and \<open>example02\<close>. Listings of directory trees.
  \<^item> \<open>LineTools\<close>: \<open>sop1/lab00/sop-grep\<close>, \<open>sop2/lab01/fifo_test\<close> and the menu of
    \<open>sop1/lab01/prelab/sop-dika.c\<close>. Programs that work on lines and bytes.
  \<^item> \<open>City\<close>: \<open>sop2/lab04/zad04/zad04.c\<close>. The client of a game over epoll and a stream (\<open>city_act\<close>).
  \<^item> \<open>Signals\<close>: \<open>sop-cluster.c\<close>, \<open>sop-kg.c\<close> and \<open>sop-fork.c\<close> of \<open>sop1/lab02\<close>. Programs driven by signals
    (\<open>cluster_step\<close>, \<open>kg_step\<close>, \<open>fork_step\<close>).
  \<^item> \<open>SignalLoops\<close>: \<open>sop-signals.c\<close> of \<open>sop1/lab02\<close>, \<open>sop1/lab04/prelab/sop-abc.c\<close> and
    \<open>sop2/lab01/pipe_test\<close>. Programs that run on until a signal comes (\<open>family_step\<close>, \<open>abc_step\<close>,
    \<open>pipe_step\<close>).
  \<^item> \<open>PiThreads\<close>: \<open>sop1/lab03/tutorial/zad1/zad1.c\<close>. Threads whose results are joined in order
    (\<open>estimation_step\<close>).
  \<^item> \<open>FileCopy\<close>: \<open>lab01t-5.c\<close> of \<open>sop1/lab01/tutorial/tests\<close>. \<open>bulk_read\<close> and \<open>bulk_write\<close> in turns on two
    descriptors, which give two more instances of \<open>byte_source\<close> and \<open>byte_sink\<close>.
  \<^item> \<open>FileTools\<close>: \<open>lab01t-1.c\<close>, \<open>lab01t-2.c\<close> and \<open>lab01t-3.c\<close> there, \<open>prog_env.c\<close> and \<open>prog_opt.c\<close> of
    \<open>sop1/lab00/tutorial\<close>.
  \<^item> \<open>Sockets\<close>: the rest of \<open>sop_net.h\<close>, and how the calculator and its two clients find each other.
  \<^item> \<open>Delays\<close>: the copies of \<open>msleep\<close>, and \<open>sleep_exact\<close> of the workshop, over the locale \<open>sleeper\<close>
    of what \<open>nanosleep\<close> promises. No signal shortens a delay.
  \<^item> \<open>PhoneNames\<close>: the telephone game from the opening of the queues to the removal of their names
    (\<open>hall_step\<close>), a refinement of \<open>phone_step\<close> by the locale \<open>refining_system\<close>. It can end exactly when
    every player opens its queue before its sender has removed the name.
  \<^item> \<open>QueueNames\<close>: the names of the queues of \<open>Bingo\<close>, \<open>Forum\<close> and \<open>Workers\<close>, which outlive the programs.
  \<^item> \<open>Descriptors\<close>: the two functions \<open>make_children\<close> behind \<open>Exam\<close> and \<open>CardRing\<close>, from \<open>pipe\<close> through
    \<open>fork\<close> to \<open>close\<close>: which process holds which end of which pipe.
  \<^item> \<open>Arguments\<close>: the checks in the \<open>main\<close> functions and the options of \<open>sop-list.c\<close>. What they let
    through is what the other theories assume of their parameters, but for one product that overflows.

  \<^bold>\<open>How state and operations correspond.\<close> A C struct is a record, an \<open>int\<close> that may wrap is a word,
  others are \<open>int\<close> or \<open>nat\<close>; a pointer that a function may return as null is an option; an exit
  through \<open>ERR\<close> is an error value. A thread or process is a control point (a datatype with one
  constructor per place where another one may come in between) in a list of control points; what a
  mutex protects is one step. The interleavings are the step relations \<open>pool_step\<close>, \<open>vprog_step\<close>,
  \<open>pc_step\<close>, \<open>dying_step\<close>, \<open>freqs_step\<close>, \<open>ring_step\<close>, \<open>table_step\<close>, the network's steps and those
  named above; each is an interpretation of \<open>invariant_system\<close> (and of \<open>terminating_system\<close> or
  \<open>completable_system\<close> where the program ends or can end) on the component's own start state, step and invariant. What
  the kernel, \<open>rand\<close>, the file system or a peer does is an argument or a free choice of a step.

  \<^bold>\<open>What the lemmas show.\<close> Each component has its invariant, kept by every step; its functional
  behaviour, errors included; a refinement of an abstract object (a queue, an election, a map from
  senders to chunk numbers, a list of packages) where there is one; and termination or the absence
  of deadlock where the code has it. Where the code has a defect, a theorem shows the run that
  exposes it: a worker that waits for ever (\<open>pool_hangs\<close>), the use after free at the end of the
  voting server, the division that kills the calculator, the chunk printed twice, the lost signals
  of the workshop and of the ring, the player that comes too late for its queue, the race after the barrier, the argument cut in the loop.

  \<^bold>\<open>Bounds and fuel.\<close> No definition runs on fuel. The retry loops and that of the file copy are partial functions in the
  option type and proved to return; \<open>dika_main\<close>, the loop of a menu, and \<open>sleep_exact\<close> are such functions,
  too, and lemmas show the inputs on which they do not return; all other loops end by structure or by a measure. The buffer
  sizes and iteration counts are those of the source.

  \<^bold>\<open>Not modelled.\<close> The calls that create shared memory, sockets of the servers, pipes and queues (other than in \<open>Descriptors\<close>,
  \<open>QueueNames\<close>, \<open>PhoneNames\<close> and \<open>Sockets\<close>) and install handlers: their result is the start state; \<open>usage\<close>, \<open>perror\<close> and the layout of messages that nothing depends
  on; the time that passes (any step may come at any time, whatever \<open>Delays\<close> says of it); memory allocation, taken to
  succeed; the rounding of floating-point numbers. Two programs that only show how a library call
  prints (\<open>lab01t-4.c\<close>, \<open>nftw.c\<close>) and two whose \<open>main\<close> is empty are left out.
\<close>

end
